(* ===== verification/Guk_Prelude.thy ===== *)
theory Guk_Prelude
  imports Main "HOL-Library.Word"
begin

text \<open>
  Shared vocabulary of the development: the machine-integer types of \<open>include/types.h\<close>,
  the ways in which the microkernel stops (\<open>BUG\<close>, \<open>crash_exit\<close>, a fault), the
  named collections the component theories add to, and the generic lemmas on words,
  function updates and lists that several components use.
\<close>

unbundle bit_operations_syntax

type_synonym u8 = "8 word"
type_synonym u16 = "16 word"
type_synonym u32 = "32 word"
type_synonym u64 = "64 word"

text \<open>
  How a kernel function can fail to return: \<open>BUG()\<close>/\<open>BUG_ON\<close> (\<open>include/x86/bug.h\<close>),
  \<open>crash_exit\<close> (\<open>kernel.c\<close>) and the deliberate null dereference \<open>*(int*)0=0\<close>
  that \<open>lib/xmalloc.c\<close> uses as an assertion. A fallible operation has type
  \<open>guk_stop + 'a\<close>.
\<close>

datatype guk_stop = BUG | CRASH | FAULT

named_theorems guk_defs "unfolding of the small accessor and flag operations"
named_theorems guk_inv "preservation of component invariants"

section \<open>Sum-typed results\<close>

definition res_bind :: "'e + 'a \<Rightarrow> ('a \<Rightarrow> 'e + 'b) \<Rightarrow> 'e + 'b" where
  "res_bind m f = (case m of Inl e \<Rightarrow> Inl e | Inr x \<Rightarrow> f x)"

lemma res_bind_simps [simp]:
  "res_bind (Inl e) f = Inl e"
  "res_bind (Inr x) f = f x"
  by (simp_all add: res_bind_def)

lemma res_bind_Inr_iff: "res_bind m f = Inr y \<longleftrightarrow> (\<exists>x. m = Inr x \<and> f x = Inr y)"
  by (cases m) auto

definition bug_on :: "bool \<Rightarrow> 'a \<Rightarrow> guk_stop + 'a" where
  "bug_on c x = (if c then Inl BUG else Inr x)"

lemma bug_on_simps [simp]:
  "bug_on True x = Inl BUG"
  "bug_on False x = Inr x"
  by (simp_all add: bug_on_def)

section \<open>Bits of machine words\<close>

lemma bit_mask_low [simp]:
  "bit ((2 :: 'a::len word) ^ n - 1) i \<longleftrightarrow> i < n \<and> i < LENGTH('a)"
proof -
  have "(2 :: 'a word) ^ n - 1 = mask n"
    by (simp add: mask_eq_exp_minus_1)
  then show ?thesis
    by (simp add: bit_mask_iff) auto
qed

lemma bit_neg_exp [simp]:
  "bit (- ((2 :: 'a::len word) ^ n)) i \<longleftrightarrow> n \<le> i \<and> i < LENGTH('a)"
proof -
  have "- ((2 :: 'a word) ^ n) = NOT (mask n)"
    by (simp add: mask_eq_exp_minus_1 minus_eq_not_minus_1)
  then show ?thesis
    by (simp add: bit_not_iff bit_mask_iff) auto
qed

lemma word_bitI:
  fixes x y :: "'a::len word"
  assumes "\<And>i. i < LENGTH('a) \<Longrightarrow> bit x i = bit y i"
  shows "x = y"
  using assms by (rule bit_word_eqI)

section \<open>Division of an index into word number and offset\<close>

lemma div_mod_less_iff:
  fixes p q w :: nat
  assumes "0 < w"
  shows "p < q \<longleftrightarrow> p div w < q div w \<or> (p div w = q div w \<and> p mod w < q mod w)"
proof -
  have p: "p = w * (p div w) + p mod w" and q: "q = w * (q div w) + q mod w"
    by simp_all
  show ?thesis
  proof (cases "p div w < q div w")
    case True
    then have "w * (p div w) + w \<le> w * (q div w)"
      by (metis Suc_leI mult_Suc_right mult_le_mono2 add.commute)
    moreover have "p mod w < w" using assms by simp
    ultimately have "p < q" using p q by linarith
    with True show ?thesis by simp
  next
    case False
    show ?thesis
    proof (cases "p div w = q div w")
      case True
      then have "p < q \<longleftrightarrow> p mod w < q mod w" using p q by (metis add_less_cancel_left)
      with True show ?thesis by simp
    next
      case neq: False
      with False have lt: "q div w < p div w" by simp
      then have "q \<le> p" by (metis div_le_mono leD linear)
      with False neq lt show ?thesis by auto
    qed
  qed
qed

lemma div_mod_le_iff:
  fixes p q w :: nat
  assumes "0 < w"
  shows "p \<le> q \<longleftrightarrow> p div w < q div w \<or> (p div w = q div w \<and> p mod w \<le> q mod w)"
proof -
  have "p \<le> q \<longleftrightarrow> \<not> q < p" by auto
  also have "\<dots> \<longleftrightarrow> p div w < q div w \<or> (p div w = q div w \<and> p mod w \<le> q mod w)"
    unfolding div_mod_less_iff [OF assms, of q p] by auto
  finally show ?thesis .
qed

lemma unat_of_nat_diff:
  assumes "a \<le> b" and "b < 2 ^ 64"
  shows "unat (of_nat b - of_nat a :: u64) = b - a"
proof -
  have "(of_nat b - of_nat a :: u64) = of_nat (b - a)" using assms(1) by (simp add: of_nat_diff)
  moreover have "b - a < 2 ^ 64" using assms(2) by simp
  ultimately show ?thesis by (simp add: unat_of_nat)
qed

lemma sint_eq_0_iff [simp]: "sint (w :: 'a::len word) = 0 \<longleftrightarrow> w = 0"
  by (rule signed_eq_0_iff)

text \<open>Rounding up to a multiple of a power of two, as the C macros do it.\<close>

lemma unat_add_of_nat:
  assumes "unat x + n < 2 ^ 64"
  shows "unat ((x :: u64) + of_nat n) = unat x + n"
proof -
  have "x + of_nat n = of_nat (unat x + n)" by simp
  then show ?thesis using assms by (simp only: unat_of_nat) (simp add: take_bit_eq_mod)
qed
lemma and_not_mask: "(w :: u64) AND NOT (mask k) = push_bit k (drop_bit k w)"
  by (rule bit_eqI) (auto simp: bit_simps)
lemma unat_push_drop: "unat (push_bit k (drop_bit k (w :: u64))) = unat w div 2 ^ k * 2 ^ k"
proof -
  have "unat w div 2 ^ k * 2 ^ k \<le> unat w" by (metis times_div_less_eq_dividend mult.commute)
  also have lt: "unat w < 2 ^ 64" using unsigned_less [of w, where 'a = nat] by simp
  finally have "unat w div 2 ^ k * 2 ^ k < 2 ^ 64" .
  then show ?thesis 
    unfolding unsigned_push_bit_eq unsigned_drop_bit_eq using lt
    by (simp add: drop_bit_eq_div push_bit_eq_mult take_bit_eq_mod mult.commute)
qed
lemma unat_align_up: 
  assumes "unat x + (2 ^ k - 1) < 2 ^ 64" 
  shows "unat ((x + 2 ^ k - 1) AND NOT (2 ^ k - 1) :: u64) = (unat x + (2 ^ k - 1)) div 2 ^ k * 2 ^ k"
proof -
  have "x + 2 ^ k - 1 = x + of_nat (2 ^ k - 1)" by (simp add: of_nat_diff)
  then have "unat (x + 2 ^ k - 1) = unat x + (2 ^ k - 1)"
    using unat_add_of_nat [OF assms] by (simp only:)
  then show ?thesis unfolding mask_eq_exp_minus_1 [symmetric] and_not_mask unat_push_drop by simp
qed

end
