(* ===== verification/Guk_Freelist.thy ===== *)
theory Guk_Freelist
  imports Guk_Prelude
begin

text \<open>
  Several components keep a free list of small identifiers threaded through an array whose
  slot 0 is the head: the grant references of \<open>gnttab.c\<close>, the shadow buffers of
  \<open>blk_front.c\<close> and the request identifiers of \<open>fs-front.c\<close>. This theory states what
  such an array represents and, as the locale \<open>array_freelist\<close>, what a get/put pair on it
  promises its clients. The components interpret the locale on their own operations.
\<close>

section \<open>The list an array represents\<close>

text \<open>\<open>fl_chain a h xs\<close>: following the links of \<open>a\<close> from \<open>h\<close> visits \<open>xs\<close> and ends in 0.\<close>

fun fl_chain :: "(nat \<Rightarrow> nat) \<Rightarrow> nat \<Rightarrow> nat list \<Rightarrow> bool" where
  "fl_chain a h [] \<longleftrightarrow> h = 0"
| "fl_chain a h (x # xs) \<longleftrightarrow> h = x \<and> x \<noteq> 0 \<and> fl_chain a (a x) xs"

definition fl_repr :: "(nat \<Rightarrow> nat) \<Rightarrow> nat list \<Rightarrow> bool" where
  "fl_repr a xs \<longleftrightarrow> fl_chain a (a 0) xs \<and> distinct xs"

lemma fl_chain_nonzero: "fl_chain a h xs \<Longrightarrow> 0 \<notin> set xs"
  by (induction xs arbitrary: h) auto

lemma fl_chain_upd [simp]: "i \<notin> set xs \<Longrightarrow> fl_chain (a(i := v)) h xs = fl_chain a h xs"
  by (induction xs arbitrary: h) auto

lemma fl_chain_unique: "fl_chain a h xs \<Longrightarrow> fl_chain a h ys \<Longrightarrow> xs = ys"
proof (induction xs arbitrary: h ys)
  case Nil
  then show ?case by (cases ys) auto
next
  case (Cons x xs)
  then show ?case by (cases ys) auto
qed

lemma fl_repr_unique: "fl_repr a xs \<Longrightarrow> fl_repr a ys \<Longrightarrow> xs = ys"
  by (auto simp: fl_repr_def intro: fl_chain_unique)

lemma fl_repr_nonzero: "fl_repr a xs \<Longrightarrow> 0 \<notin> set xs"
  by (auto simp: fl_repr_def dest: fl_chain_nonzero)

lemma fl_repr_empty: "a 0 = 0 \<Longrightarrow> fl_repr a []"
  by (simp add: fl_repr_def)

lemma fl_repr_Nil_iff: "fl_repr a xs \<Longrightarrow> a 0 = 0 \<longleftrightarrow> xs = []"
  by (cases xs) (auto simp: fl_repr_def)

lemma fl_repr_push:
  assumes "fl_repr a xs" and "i \<noteq> 0" and "i \<notin> set xs"
  shows "fl_repr (a(i := a 0, 0 := i)) (i # xs)"
proof -
  have "0 \<notin> set xs" using assms(1) by (rule fl_repr_nonzero)
  with assms show ?thesis by (auto simp: fl_repr_def)
qed

lemma fl_repr_pop:
  assumes "fl_repr a (x # xs)"
  shows "a 0 = x" and "fl_repr (a(0 := a x)) xs"
proof -
  from assms have "0 \<notin> set (x # xs)" by (rule fl_repr_nonzero)
  with assms show "a 0 = x" "fl_repr (a(0 := a x)) xs"
    by (auto simp: fl_repr_def)
qed

section \<open>The contract of a get/put pair\<close>

text \<open>
  \<open>owned s U D\<close>: the identifiers of the finite set \<open>D\<close> are either on the free list or
  handed out (\<open>U\<close>), never both.
\<close>

locale array_freelist =
  fixes arr :: "'s \<Rightarrow> nat \<Rightarrow> nat"
    and get :: "'s \<Rightarrow> (nat \<times> 's) option"
    and put :: "nat \<Rightarrow> 's \<Rightarrow> 's"
  assumes get_Some: "get s = Some (i, s') \<Longrightarrow> i = arr s 0 \<and> arr s' = (arr s)(0 := arr s (arr s 0))"
    and arr_put: "arr (put i s) = (arr s)(i := arr s 0, 0 := i)"
begin

definition owned :: "'s \<Rightarrow> nat set \<Rightarrow> nat set \<Rightarrow> bool" where
  "owned s U D \<longleftrightarrow> (\<exists>xs. fl_repr (arr s) xs \<and> set xs \<union> U = D \<and> set xs \<inter> U = {})"

lemma get_repr:
  assumes "get s = Some (i, s')" and "fl_repr (arr s) (x # xs)"
  shows "i = x" and "fl_repr (arr s') xs"
  using get_Some [OF assms(1)] fl_repr_pop [OF assms(2)] by auto

lemma put_repr:
  assumes "fl_repr (arr s) xs" and "i \<noteq> 0" and "i \<notin> set xs"
  shows "fl_repr (arr (put i s)) (i # xs)"
  using fl_repr_push [OF assms] by (simp add: arr_put)

text \<open>An identifier that is handed out is fresh, and stays out of the free list.\<close>

lemma get_fresh:
  assumes "owned s U D" and "get s = Some (i, s')" and "i \<noteq> 0"
  shows "i \<in> D \<and> i \<notin> U \<and> owned s' (insert i U) D"
proof -
  from assms(1) obtain xs where xs: "fl_repr (arr s) xs" "set xs \<union> U = D" "set xs \<inter> U = {}"
    by (auto simp: owned_def)
  from get_Some [OF assms(2)] have i: "i = arr s 0" by simp
  with assms(3) xs(1) obtain ys where ys: "xs = i # ys"
    by (cases xs) (auto simp: fl_repr_def)
  with assms(2) xs(1) have rep: "fl_repr (arr s') ys" by (auto dest: get_repr(2))
  from xs(1) ys have "i \<notin> set ys" by (simp add: fl_repr_def)
  with xs ys rep show ?thesis by (auto simp: owned_def intro!: exI [of _ ys])
qed

lemma put_owned:
  assumes "owned s U D" and "i \<in> U" and "i \<noteq> 0"
  shows "owned (put i s) (U - {i}) D"
proof -
  from assms(1) obtain xs where xs: "fl_repr (arr s) xs" "set xs \<union> U = D" "set xs \<inter> U = {}"
    by (auto simp: owned_def)
  with assms(2) have "i \<notin> set xs" by auto
  with xs assms(2,3) show ?thesis
    unfolding owned_def by (intro exI [of _ "i # xs"]) (auto intro: put_repr)
qed

text \<open>The list is a stack: what was put last is got first.\<close>

lemma get_put:
  assumes "get (put i s) = Some (j, s')" and "i \<noteq> 0"
  shows "j = i" and "arr s' 0 = arr s 0"
  using get_Some [OF assms(1)] assms(2) by (simp_all add: arr_put)

text \<open>Putting a run of identifiers into an empty list.\<close>

lemma put_fold_repr:
  assumes "fl_repr (arr s) ys" and "distinct xs" and "0 \<notin> set xs" and "set xs \<inter> set ys = {}"
  shows "fl_repr (arr (fold put xs s)) (rev xs @ ys)"
  using assms
proof (induction xs arbitrary: s ys)
  case Nil
  then show ?case by simp
next
  case (Cons x xs)
  then have "fl_repr (arr (put x s)) (x # ys)" by (auto intro: put_repr)
  with Cons.prems have "fl_repr (arr (fold put xs (put x s))) (rev xs @ (x # ys))"
    by (intro Cons.IH) auto
  then show ?case by simp
qed

end

end
