(* ===== verification/Guk_Bitmap.thy ===== *)
theory Guk_Bitmap
  imports Guk_Prelude
begin

text \<open>
  The allocation bitmap of the page allocator: the macros of \<open>include/bitmap.h\<close> and the
  range operations \<open>map_alloc\<close> and \<open>map_free\<close> of \<open>mm.c\<close>. A bitmap is a C array of
  \<open>unsigned long\<close> reached through a pointer, modelled as a function from the word index
  to the word stored there, so that the word one past the last page of the map, which both
  range operations touch when a range ends on a word boundary, is part of the model.
\<close>

type_synonym bitmap = "nat \<Rightarrow> u64"

definition ENTRIES_PER_MAPWORD :: nat where
  "ENTRIES_PER_MAPWORD = 8 * 8"

definition allocated_in_map :: "bitmap \<Rightarrow> nat \<Rightarrow> bool" where
  "allocated_in_map m s \<longleftrightarrow>
     m (s div ENTRIES_PER_MAPWORD) AND push_bit (s AND (ENTRIES_PER_MAPWORD - 1)) 1 \<noteq> 0"

definition set_map :: "bitmap \<Rightarrow> nat \<Rightarrow> bitmap" where
  "set_map m s = m(s div ENTRIES_PER_MAPWORD :=
     m (s div ENTRIES_PER_MAPWORD) OR push_bit (s AND (ENTRIES_PER_MAPWORD - 1)) 1)"

definition clear_map :: "bitmap \<Rightarrow> nat \<Rightarrow> bitmap" where
  "clear_map m s = m(s div ENTRIES_PER_MAPWORD :=
     m (s div ENTRIES_PER_MAPWORD) AND NOT (push_bit (s AND (ENTRIES_PER_MAPWORD - 1)) 1))"

text \<open>
  The two \<open>while\<close> loops over the interior words. Each returns the final value of
  \<open>curr_idx\<close>. The loop of \<open>map_free\<close> tests with \<open>!=\<close>; its bound is the number of
  words between the indices, and \<open>free_words_stops\<close> shows that the loop always ends at
  its own test.
\<close>

function alloc_words :: "nat \<Rightarrow> nat \<Rightarrow> bitmap \<Rightarrow> nat \<times> bitmap" where
  "alloc_words end_idx curr_idx m =
     (if Suc curr_idx < end_idx
      then alloc_words end_idx (Suc curr_idx) (m(Suc curr_idx := NOT 0))
      else (Suc curr_idx, m))"
  by pat_completeness auto
termination by (relation "measure (\<lambda>(e, c, m). e - c)") auto

declare alloc_words.simps [simp del]

fun free_words :: "nat \<Rightarrow> nat \<Rightarrow> nat \<Rightarrow> bitmap \<Rightarrow> nat \<times> bitmap" where
  "free_words 0 end_idx curr_idx m = (curr_idx, m)"
| "free_words (Suc k) end_idx curr_idx m =
     (if Suc curr_idx \<noteq> end_idx
      then free_words k end_idx (Suc curr_idx) (m(Suc curr_idx := 0))
      else (Suc curr_idx, m))"

definition map_alloc :: "bitmap \<Rightarrow> nat \<Rightarrow> nat \<Rightarrow> bitmap" where
  "map_alloc m first_page nr_pages =
     (let curr_idx = first_page div ENTRIES_PER_MAPWORD;
          start_off = first_page AND (ENTRIES_PER_MAPWORD - 1);
          end_idx = (first_page + nr_pages) div ENTRIES_PER_MAPWORD;
          end_off = (first_page + nr_pages) AND (ENTRIES_PER_MAPWORD - 1)
      in if curr_idx = end_idx
         then m(curr_idx := m curr_idx OR
                  ((push_bit end_off 1 - 1) AND - (push_bit start_off 1)))
         else let m1 = m(curr_idx := m curr_idx OR - (push_bit start_off 1));
                  (curr_idx', m2) = alloc_words end_idx curr_idx m1
              in m2(curr_idx' := m2 curr_idx' OR (push_bit end_off 1 - 1)))"

definition map_free :: "bitmap \<Rightarrow> nat \<Rightarrow> nat \<Rightarrow> bitmap" where
  "map_free m first_page nr_pages =
     (let curr_idx = first_page div ENTRIES_PER_MAPWORD;
          start_off = first_page AND (ENTRIES_PER_MAPWORD - 1);
          end_idx = (first_page + nr_pages) div ENTRIES_PER_MAPWORD;
          end_off = (first_page + nr_pages) AND (ENTRIES_PER_MAPWORD - 1)
      in if curr_idx = end_idx
         then m(curr_idx := m curr_idx AND
                  (- (push_bit end_off 1) OR (push_bit start_off 1 - 1)))
         else let m1 = m(curr_idx := m curr_idx AND (push_bit start_off 1 - 1));
                  (curr_idx', m2) = free_words (end_idx - curr_idx) end_idx curr_idx m1
              in m2(curr_idx' := m2 curr_idx' AND - (push_bit end_off 1)))"

section \<open>Reading a page's bit\<close>

lemma and_63_nat: "(s :: nat) AND 63 = s mod 64"
proof -
  have "s AND 63 = s AND mask 6" by (simp add: mask_eq_exp_minus_1)
  also have "\<dots> = s mod 64" by (simp only: take_bit_eq_mask [symmetric] take_bit_eq_mod) simp
  finally show ?thesis .
qed

lemma word_and_bit_nonzero: "((x :: u64) AND 2 ^ i \<noteq> 0) \<longleftrightarrow> bit x i"
proof
  assume "bit x i"
  then have "bit (x AND 2 ^ i) i" by (auto simp: bit_simps dest: bit_imp_le_length)
  then show "x AND 2 ^ i \<noteq> 0" by auto
next
  assume "x AND 2 ^ i \<noteq> 0"
  then obtain j where "bit (x AND 2 ^ i) j" by (auto simp: bit_eq_iff)
  then show "bit x i" by (auto simp: bit_simps)
qed

lemma allocated_iff_bit: "allocated_in_map m s \<longleftrightarrow> bit (m (s div 64)) (s mod 64)"
  by (simp add: allocated_in_map_def ENTRIES_PER_MAPWORD_def and_63_nat push_bit_eq_mult
      word_and_bit_nonzero)

lemma set_map_iff: "allocated_in_map (set_map m s) p \<longleftrightarrow> p = s \<or> allocated_in_map m p"
proof (cases "p div 64 = s div 64")
  case True
  then have "p = s \<longleftrightarrow> p mod 64 = s mod 64" by (metis div_mult_mod_eq)
  with True show ?thesis
    by (auto simp: allocated_iff_bit set_map_def ENTRIES_PER_MAPWORD_def and_63_nat bit_simps
        push_bit_eq_mult)
next
  case False
  then show ?thesis
    by (auto simp: allocated_iff_bit set_map_def ENTRIES_PER_MAPWORD_def and_63_nat)
qed

lemma clear_map_iff: "allocated_in_map (clear_map m s) p \<longleftrightarrow> p \<noteq> s \<and> allocated_in_map m p"
proof (cases "p div 64 = s div 64")
  case True
  then have "p = s \<longleftrightarrow> p mod 64 = s mod 64" by (metis div_mult_mod_eq)
  with True show ?thesis
    by (auto simp: allocated_iff_bit clear_map_def ENTRIES_PER_MAPWORD_def and_63_nat bit_simps
        push_bit_eq_mult)
next
  case False
  then show ?thesis
    by (auto simp: allocated_iff_bit clear_map_def ENTRIES_PER_MAPWORD_def and_63_nat)
qed

section \<open>Range operations\<close>

lemma alloc_words_eq:
  "c < e \<Longrightarrow> alloc_words e c m = (e, \<lambda>i. if c < i \<and> i < e then NOT 0 else m i)"
proof (induction e c m rule: alloc_words.induct)
  case (1 e c m)
  show ?case
  proof (cases "Suc c < e")
    case True
    have "alloc_words e c m = alloc_words e (Suc c) (m(Suc c := NOT 0))"
      using True by (subst alloc_words.simps) simp
    also have "\<dots> = (e, \<lambda>i. if Suc c < i \<and> i < e then NOT 0 else (m(Suc c := NOT 0)) i)"
      using 1 True by blast
    finally show ?thesis using True by (auto simp: fun_eq_iff)
  next
    case False
    with 1 have "Suc c = e" by simp
    then show ?thesis by (subst alloc_words.simps) (auto simp: fun_eq_iff)
  qed
qed

lemma free_words_eq:
  "c < e \<Longrightarrow> free_words (e - c) e c m = (e, \<lambda>i. if c < i \<and> i < e then 0 else m i)"
proof (induction "e - c" arbitrary: c m)
  case 0
  then show ?case by simp
next
  case (Suc k)
  then have k: "e - c = Suc k" "k = e - Suc c" by simp_all
  show ?case
  proof (cases "Suc c = e")
    case True
    then show ?thesis by (auto simp: fun_eq_iff k(1))
  next
    case False
    with Suc.prems have "Suc c < e" by simp
    with Suc.hyps(1) [OF k(2)] False show ?thesis by (auto simp: fun_eq_iff k)
  qed
qed

lemma free_words_stops: "c < e \<Longrightarrow> fst (free_words (e - c) e c m) = e"
  by (simp add: free_words_eq)

lemma range_words:
  fixes a n p :: nat
  shows "a \<le> p \<longleftrightarrow> a div 64 < p div 64 \<or> (a div 64 = p div 64 \<and> a mod 64 \<le> p mod 64)"
    and "p < n \<longleftrightarrow> p div 64 < n div 64 \<or> (p div 64 = n div 64 \<and> p mod 64 < n mod 64)"
  by (rule div_mod_le_iff, simp) (rule div_mod_less_iff, simp)

lemma map_alloc_iff:
  "allocated_in_map (map_alloc m f n) p \<longleftrightarrow> (f \<le> p \<and> p < f + n) \<or> allocated_in_map m p"
proof (cases "f div 64 = (f + n) div 64")
  case True
  then show ?thesis
    by (auto simp: range_words(1) [of f p] range_words(2) [of p "f + n"] allocated_iff_bit
        map_alloc_def Let_def ENTRIES_PER_MAPWORD_def and_63_nat bit_simps push_bit_eq_mult)
next
  case False
  then have lt: "f div 64 < (f + n) div 64"
    by (metis div_le_mono le_add1 le_neq_implies_less)
  then show ?thesis
    by (auto simp: range_words(1) [of f p] range_words(2) [of p "f + n"] allocated_iff_bit
        map_alloc_def Let_def ENTRIES_PER_MAPWORD_def and_63_nat bit_simps push_bit_eq_mult
        alloc_words_eq)
qed

lemma map_free_iff:
  "allocated_in_map (map_free m f n) p \<longleftrightarrow> \<not> (f \<le> p \<and> p < f + n) \<and> allocated_in_map m p"
proof (cases "f div 64 = (f + n) div 64")
  case True
  then show ?thesis
    by (auto simp: range_words(1) [of f p] range_words(2) [of p "f + n"] allocated_iff_bit
        map_free_def Let_def ENTRIES_PER_MAPWORD_def and_63_nat bit_simps push_bit_eq_mult)
next
  case False
  then have lt: "f div 64 < (f + n) div 64"
    by (metis div_le_mono le_add1 le_neq_implies_less)
  then show ?thesis
    by (auto simp: range_words(1) [of f p] range_words(2) [of p "f + n"] allocated_iff_bit
        map_free_def Let_def ENTRIES_PER_MAPWORD_def and_63_nat bit_simps push_bit_eq_mult
        free_words_eq)
qed

end
