(* ===== verification/Guk_Pages.thy ===== *)
theory Guk_Pages
  imports Guk_Bitmap
begin

text \<open>
  The page allocator of \<open>mm.c\<close>: first-fit allocation of contiguous pages in a small and a
  bulk region, and deallocation. Ballooning, which moves the end of the pool, is in
  \<open>Guk_Balloon\<close>.

  Page frame numbers are \<open>nat\<close>: the code keeps them in \<open>unsigned long\<close> (and, in
  \<open>next_free\<close>, in \<open>int\<close>), and they count pages of one domain, far below either bound.
  The two counters of free pages are 64-bit words, since the code subtracts from them without
  a check. Requests are C \<open>int\<close>s, modelled as \<open>int\<close>.
\<close>

record memory_hole =
  start_pfn :: nat
  end_pfn :: nat

record mm =
  alloc_bitmap :: bitmap
  first_alloc_page :: nat
  end_alloc_page :: nat
  max_end_alloc_page :: nat
  first_free_page :: nat
  first_bulk_page :: nat
  first_free_bulk_page :: nat
  num_free_pages :: u64
  num_free_bulk_pages :: u64
  memory_hole_list :: "memory_hole list"
  in_increase_memory :: bool

definition BULK_ALLOCATION :: int where
  "BULK_ALLOCATION = 512"

definition is_bulk :: "int \<Rightarrow> bool" where
  "is_bulk n \<longleftrightarrow> n \<ge> BULK_ALLOCATION"

definition BITS_PER_PAGE :: nat where
  "BITS_PER_PAGE = 4096 * 8"

definition DEFAULT_SMALL_PERCENTAGE :: int where
  "DEFAULT_SMALL_PERCENTAGE = 2"

section \<open>Addresses\<close>

text \<open>
  \<open>include/x86/arch_mm.h\<close>: \<open>VIRT_START\<close> is the link-time address of \<open>_text\<close>, a
  parameter here; \<open>to_virt (PFN_PHYS page)\<close> and \<open>virt_to_pfn\<close>.
\<close>

definition pfn_to_virt :: "u64 \<Rightarrow> nat \<Rightarrow> u64" where
  "pfn_to_virt virt_start pfn = push_bit 12 (of_nat pfn) + virt_start"

definition virt_to_pfn :: "u64 \<Rightarrow> u64 \<Rightarrow> nat" where
  "virt_to_pfn virt_start addr = unat (drop_bit 12 (addr - virt_start))"

section \<open>Searching the bitmap\<close>

function next_free :: "mm \<Rightarrow> nat \<Rightarrow> nat" where
  "next_free s page =
     (if page < end_alloc_page s
      then if \<not> allocated_in_map (alloc_bitmap s) page then page else next_free s (Suc page)
      else page)"
  by pat_completeness auto
termination by (relation "measure (\<lambda>(s, page). end_alloc_page s - page)") auto

declare next_free.simps [simp del]

text \<open>
  The inner loop of \<open>_allocate_pages\<close>: extend a run that starts one page earlier. The last
  component says whether the loop was left by its \<open>break\<close> on an allocated page.
\<close>

function run_from :: "bitmap \<Rightarrow> nat \<Rightarrow> int \<Rightarrow> nat \<Rightarrow> int \<times> nat \<times> bool" where
  "run_from m end_page nn npage =
     (if nn > 1 \<and> npage < end_page
      then if \<not> allocated_in_map m npage then run_from m end_page (nn - 1) (Suc npage)
           else (nn, npage, True)
      else (nn, npage, False))"
  by pat_completeness auto
termination by (relation "measure (\<lambda>(m, e, nn, p). e - p)") auto

declare run_from.simps [simp del]

lemma run_from_ge: "run_from m e nn p = (nn', p', b) \<Longrightarrow> p \<le> p'"
proof (induction m e nn p rule: run_from.induct)
  case (1 m e nn p)
  then show ?case
    by (subst (asm) (2) run_from.simps) (auto split: if_splits)
qed

text \<open>
  The middle loop: the first page from which \<open>n\<close> consecutive pages below \<open>end_page\<close> are
  free. When the inner loop meets an allocated page, the search resumes after that page.
\<close>

function find_run :: "bitmap \<Rightarrow> nat \<Rightarrow> int \<Rightarrow> nat \<Rightarrow> nat option" where
  "find_run m end_page n page =
     (if page < end_page
      then if \<not> allocated_in_map m page
           then (case run_from m end_page n (Suc page) of (nn, npage, broke) \<Rightarrow>
                   let page' = (if broke then npage else page)
                   in if nn = 1 then Some page' else find_run m end_page n (Suc page'))
           else find_run m end_page n (Suc page)
      else None)"
  by pat_completeness auto
termination
  by (relation "measure (\<lambda>(m, e, n, p). e - p)") (auto dest!: run_from_ge [OF sym])

declare find_run.simps [simp del]

section \<open>Allocation and deallocation\<close>

text \<open>What \<open>_allocate_pages\<close> does to the state once a run has been found.\<close>

definition take_pages :: "bool \<Rightarrow> nat \<Rightarrow> int \<Rightarrow> mm \<Rightarrow> mm" where
  "take_pages is_bulk_alloc page n s =
     (let s1 = (if is_bulk_alloc
                then let s' = s\<lparr>num_free_bulk_pages := num_free_bulk_pages s - of_int n\<rparr>
                     in if page = first_free_bulk_page s
                        then s'\<lparr>first_free_bulk_page := next_free s (page + nat n)\<rparr> else s'
                else if page = first_free_page s
                     then s\<lparr>first_free_page := next_free s (page + nat n)\<rparr> else s)
      in s1\<lparr>num_free_pages := num_free_pages s1 - of_int n,
            alloc_bitmap := map_alloc (alloc_bitmap s1) page (nat n)\<rparr>)"

text \<open>
  The outer loop of \<open>_allocate_pages\<close>; \<open>inc\<close> is \<open>increase_memory_holding_lock\<close>. The
  value \<open>None\<close> would be a loop that does not end.
\<close>

partial_function (option) allocate_loop ::
  "u64 \<Rightarrow> (int \<Rightarrow> mm \<Rightarrow> guk_stop + mm \<times> int) \<Rightarrow> int \<Rightarrow> bool \<Rightarrow> mm \<Rightarrow> (guk_stop + mm \<times> u64) option"
where
  "allocate_loop virt_start inc n is_bulk_alloc s =
     (let end_page = (if is_bulk_alloc then end_alloc_page s else first_bulk_page s);
          page = (if is_bulk_alloc then first_free_bulk_page s else first_free_page s);
          (s1, result) =
            (case find_run (alloc_bitmap s) end_page n page of
               Some p \<Rightarrow> (take_pages is_bulk_alloc p n s, pfn_to_virt virt_start p)
             | None \<Rightarrow> (s, 0))
      in if result > 0 then Some (Inr (s1, result))
         else if \<not> is_bulk_alloc then allocate_loop virt_start inc n True s1
         else (case inc n s1 of
                 Inl e \<Rightarrow> Some (Inl e)
               | Inr (s2, rc) \<Rightarrow>
                   if rc = 0 then Some (Inr (s2, result))
                   else allocate_loop virt_start inc n True s2))"

definition allocate_pages ::
  "u64 \<Rightarrow> (int \<Rightarrow> mm \<Rightarrow> guk_stop + mm \<times> int) \<Rightarrow> bool \<Rightarrow> int \<Rightarrow> mm \<Rightarrow> (guk_stop + mm \<times> u64) option"
where
  "allocate_pages virt_start inc in_irq n s =
     (if in_irq then Some (Inl BUG) else allocate_loop virt_start inc n (is_bulk n) s)"

definition alloc_pages ::
  "u64 \<Rightarrow> (int \<Rightarrow> mm \<Rightarrow> guk_stop + mm \<times> int) \<Rightarrow> bool \<Rightarrow> nat \<Rightarrow> mm \<Rightarrow> (guk_stop + mm \<times> u64) option"
where
  "alloc_pages virt_start inc in_irq order s = allocate_pages virt_start inc in_irq (2 ^ order) s"

definition deallocate_pages :: "u64 \<Rightarrow> bool \<Rightarrow> u64 \<Rightarrow> int \<Rightarrow> mm \<Rightarrow> guk_stop + mm" where
  "deallocate_pages virt_start in_irq pointer n s =
     (if in_irq then Inl BUG
      else let page = virt_to_pfn virt_start pointer;
               s1 = (if is_bulk n
                     then s\<lparr>first_free_bulk_page :=
                               (if page < first_free_bulk_page s then page
                                else first_free_bulk_page s),
                            num_free_bulk_pages := num_free_bulk_pages s + of_int n\<rparr>
                     else s\<lparr>first_free_page :=
                               (if page < first_free_page s then page else first_free_page s)\<rparr>)
           in Inr (s1\<lparr>alloc_bitmap := map_free (alloc_bitmap s1) page (nat n),
                      num_free_pages := num_free_pages s1 + of_int n\<rparr>))"

definition free_pages :: "u64 \<Rightarrow> bool \<Rightarrow> u64 \<Rightarrow> nat \<Rightarrow> mm \<Rightarrow> guk_stop + mm" where
  "free_pages virt_start in_irq pointer order s =
     deallocate_pages virt_start in_irq pointer (2 ^ order) s"

definition total_free_pages :: "mm \<Rightarrow> u64" where
  "total_free_pages s = num_free_pages s"

definition bulk_free_pages :: "mm \<Rightarrow> u64" where
  "bulk_free_pages s = num_free_bulk_pages s"

definition page_pool_start :: "mm \<Rightarrow> nat" where
  "page_pool_start s = first_alloc_page s"

definition page_pool_end :: "mm \<Rightarrow> int" where
  "page_pool_end s = int (end_alloc_page s) - 1"

definition maximum_reservation :: "mm \<Rightarrow> nat" where
  "maximum_reservation s = max_end_alloc_page s"

section \<open>What the searches find\<close>

text \<open>\<open>free_run m p n e\<close>: the \<open>n\<close> pages from \<open>p\<close> lie below \<open>e\<close> and are free.\<close>

definition free_run :: "bitmap \<Rightarrow> nat \<Rightarrow> nat \<Rightarrow> nat \<Rightarrow> bool" where
  "free_run m p n e \<longleftrightarrow> p + n \<le> e \<and> (\<forall>q. p \<le> q \<and> q < p + n \<longrightarrow> \<not> allocated_in_map m q)"

lemma free_runI:
  "p + n \<le> e \<Longrightarrow> (\<And>q. p \<le> q \<Longrightarrow> q < p + n \<Longrightarrow> \<not> allocated_in_map m q) \<Longrightarrow> free_run m p n e"
  by (simp add: free_run_def)

lemma run_from_spec:
  assumes "run_from m e nn p = (nn', p', b)" and "1 \<le> nn"
  shows "nn' = nn - int (p' - p) \<and> 1 \<le> nn' \<and>
         (\<forall>q. p \<le> q \<and> q < p' \<longrightarrow> \<not> allocated_in_map m q) \<and> (p' \<le> e \<or> p' = p) \<and>
         (b \<longrightarrow> 1 < nn' \<and> p' < e \<and> allocated_in_map m p') \<and>
         (\<not> b \<longrightarrow> nn' = 1 \<or> e \<le> p')"
  using assms
proof (induction m e nn p rule: run_from.induct)
  case (1 m e nn p)
  show ?case
  proof (cases "nn > 1 \<and> p < e")
    case True
    show ?thesis
    proof (cases "allocated_in_map m p")
      case al: True
      from 1(2) [unfolded run_from.simps [of m e nn p]] True al
      have "nn' = nn" "p' = p" b by auto
      with True al show ?thesis by auto
    next
      case fr: False
      from 1(2) [unfolded run_from.simps [of m e nn p]] True fr
      have eq: "run_from m e (nn - 1) (Suc p) = (nn', p', b)" by simp
      from eq have ge: "Suc p \<le> p'" by (rule run_from_ge)
      have "1 \<le> nn - 1" using True by simp
      from 1(1) [OF True fr eq this]
      have IH: "nn' = nn - 1 - int (p' - Suc p) \<and> 1 \<le> nn' \<and>
         (\<forall>q. Suc p \<le> q \<and> q < p' \<longrightarrow> \<not> allocated_in_map m q) \<and> (p' \<le> e \<or> p' = Suc p) \<and>
         (b \<longrightarrow> 1 < nn' \<and> p' < e \<and> allocated_in_map m p') \<and> (\<not> b \<longrightarrow> nn' = 1 \<or> e \<le> p')" .
      have "\<forall>q. p \<le> q \<and> q < p' \<longrightarrow> \<not> allocated_in_map m q"
        using IH fr by (metis Suc_leI le_neq_implies_less)
      with IH ge True show ?thesis by auto
    qed
  next
    case False
    from 1(2) [unfolded run_from.simps [of m e nn p]] False
    have "nn' = nn" "p' = p" "\<not> b" by auto
    with False 1(3) show ?thesis by auto
  qed
qed

lemma no_run_through:
  assumes "allocated_in_map m q" and "p \<le> q" and "q < p + n"
  shows "\<not> free_run m p n e"
  using assms by (auto simp: free_run_def)

text \<open>First fit: the search returns the least start of a free run, and fails only without one.\<close>

definition first_fit :: "bitmap \<Rightarrow> nat \<Rightarrow> nat \<Rightarrow> nat \<Rightarrow> nat option \<Rightarrow> bool" where
  "first_fit m e n p res \<longleftrightarrow>
     (case res of
        Some r \<Rightarrow> p \<le> r \<and> free_run m r n e \<and> (\<forall>r'. p \<le> r' \<and> r' < r \<longrightarrow> \<not> free_run m r' n e)
      | None \<Rightarrow> \<forall>r. p \<le> r \<longrightarrow> \<not> free_run m r n e)"

lemma first_fit_extend:
  assumes ff: "first_fit m e n q res" and "p \<le> q"
    and none: "\<And>r. p \<le> r \<Longrightarrow> r < q \<Longrightarrow> \<not> free_run m r n e"
  shows "first_fit m e n p res"
proof (cases res)
  case None
  with ff none show ?thesis by (auto simp: first_fit_def) (metis linorder_not_less)
next
  case (Some r)
  with ff have "q \<le> r" "free_run m r n e" "\<And>r'. q \<le> r' \<Longrightarrow> r' < r \<Longrightarrow> \<not> free_run m r' n e"
    by (auto simp: first_fit_def)
  with Some none \<open>p \<le> q\<close> show ?thesis
    by (auto simp: first_fit_def) (metis linorder_not_less)
qed

lemma first_fit_unique:
  assumes "first_fit m e n p res" and "first_fit m e n p res'"
  shows "res = res'"
proof (cases res; cases res')
  fix r r' assume "res = Some r" "res' = Some r'"
  with assms show ?thesis by (auto simp: first_fit_def) (metis nat_neq_iff)
qed (use assms in \<open>auto simp: first_fit_def\<close>)

lemma find_run_first_fit:
  assumes "1 \<le> n"
  shows "first_fit m e n p (find_run m e (int n) p)"
  using assms
proof (induction m e "int n" p rule: find_run.induct)
  case (1 m e p)
  show ?case
  proof (cases "p < e")
    case False
    then have "find_run m e (int n) p = None" by (subst find_run.simps) simp
    with False 1(3) show ?thesis by (auto simp: first_fit_def free_run_def)
  next
    case lt: True
    show ?thesis
    proof (cases "allocated_in_map m p")
      case al: True
      have eq: "find_run m e (int n) p = find_run m e (int n) (Suc p)"
        using lt al by (subst find_run.simps) simp
      have nr: "\<not> free_run m p n e" using no_run_through [OF al, of p n e] 1(3) by simp
      have "first_fit m e n (Suc p) (find_run m e (int n) (Suc p))"
        using 1(2) [OF lt] al 1(3) by simp
      then show ?thesis
        unfolding eq by (rule first_fit_extend) (use nr in \<open>auto simp: less_Suc_eq_le dest: le_antisym\<close>)
    next
      case fr: False
      obtain nn np b where rf: "run_from m e (int n) (Suc p) = (nn, np, b)"
        by (metis prod_cases3)
      have ge: "Suc p \<le> np" using rf by (rule run_from_ge)
      have n1: "1 \<le> int n" using 1(3) by simp
      note sp = run_from_spec [OF rf n1]
      show ?thesis
      proof (cases "nn = 1")
        case True
        with sp have nb: "\<not> b" by auto
        have eq: "find_run m e (int n) p = Some p"
          using lt fr rf True nb by (subst find_run.simps) simp
        from sp True ge have np: "np = p + n" by linarith
        have "free_run m p n e"
        proof (rule free_runI)
          show "p + n \<le> e" using sp np lt by linarith
          fix q assume "p \<le> q" "q < p + n"
          then show "\<not> allocated_in_map m q"
            using sp np fr by (metis Suc_leI le_neq_implies_less)
        qed
        then show ?thesis by (auto simp: eq first_fit_def)
      next
        case False
        define p' where "p' = (if b then np else p)"
        have eq: "find_run m e (int n) p = find_run m e (int n) (Suc p')"
          using lt fr rf False by (subst find_run.simps) (simp add: p'_def)
        have pp: "p \<le> p'" using ge by (simp add: p'_def)
        have lt_n: "np < p + n" using sp False ge by linarith
        have none: "\<not> free_run m r n e" if "p \<le> r" "r < Suc p'" for r
        proof (cases b)
          case True
          have "r \<le> np" using that True by (simp add: p'_def)
          moreover have "allocated_in_map m np" using sp True by blast
          ultimately show ?thesis
            using no_run_through [of m np r n e] that(1) lt_n by linarith
        next
          case b: False
          then have "r = p" using that by (simp add: p'_def)
          moreover have "e \<le> np" using sp False b by blast
          ultimately show ?thesis using lt_n by (simp add: free_run_def)
        qed
        have "first_fit m e n (Suc p') (find_run m e (int n) (Suc p'))"
          using 1(1) [OF lt fr rf [symmetric] refl p'_def False] 1(3) by simp
        then show ?thesis
          unfolding eq by (rule first_fit_extend) (use pp none in auto)
      qed
    qed
  qed
qed

lemma find_run_SomeD:
  assumes "find_run m e n p = Some r" and "1 \<le> n"
  shows "p \<le> r" and "free_run m r (nat n) e"
proof -
  from assms(2) have "first_fit m e (nat n) p (find_run m e (int (nat n)) p)"
    by (intro find_run_first_fit) simp
  with assms show "p \<le> r" "free_run m r (nat n) e" by (auto simp: first_fit_def)
qed

lemma next_free_spec:
  "p \<le> next_free s p \<and> (\<forall>q. p \<le> q \<and> q < next_free s p \<longrightarrow> allocated_in_map (alloc_bitmap s) q)"
proof (induction s p rule: next_free.induct)
  case (1 s p)
  show ?case
  proof (cases "p < end_alloc_page s \<and> allocated_in_map (alloc_bitmap s) p")
    case True
    then have eq: "next_free s p = next_free s (Suc p)" by (subst next_free.simps) simp
    from 1 True have "Suc p \<le> next_free s (Suc p)"
      and "\<And>q. Suc p \<le> q \<Longrightarrow> q < next_free s (Suc p) \<Longrightarrow> allocated_in_map (alloc_bitmap s) q"
      by auto
    with True show ?thesis unfolding eq by (metis Suc_leD Suc_leI le_neq_implies_less)
  next
    case False
    then have "next_free s p = p" by (subst next_free.simps) auto
    then show ?thesis by auto
  qed
qed


section \<open>The pool of free pages\<close>

definition mm_free :: "mm \<Rightarrow> nat set" where
  "mm_free s = {p. first_alloc_page s \<le> p \<and> p < end_alloc_page s
                   \<and> \<not> allocated_in_map (alloc_bitmap s) p}"

lemma finite_mm_free [simp]: "finite (mm_free s)"
  by (rule finite_subset [of _ "{..<end_alloc_page s}"]) (auto simp: mm_free_def)

text \<open>
  The invariant of the pool. The region boundaries are ordered, the hints lie in their
  regions, the counter counts the free pages (as a word), and no free page of the small region
  lies below its hint, so the hint is only an optimisation of the search.
\<close>

definition mm_inv :: "mm \<Rightarrow> bool" where
  "mm_inv s \<longleftrightarrow>
     first_alloc_page s \<le> first_free_page s \<and> first_alloc_page s \<le> first_bulk_page s \<and>
     first_bulk_page s \<le> end_alloc_page s \<and> first_bulk_page s \<le> first_free_bulk_page s \<and>
     num_free_pages s = of_nat (card (mm_free s)) \<and>
     (\<forall>p \<in> mm_free s. p < first_bulk_page s \<longrightarrow> first_free_page s \<le> p)"

text \<open>The same hint property for the bulk region, which not every operation keeps.\<close>

definition bulk_hint :: "mm \<Rightarrow> bool" where
  "bulk_hint s \<longleftrightarrow> (\<forall>p \<in> mm_free s. first_bulk_page s \<le> p \<longrightarrow> first_free_bulk_page s \<le> p)"

lemma take_pages_simps [simp]:
  "alloc_bitmap (take_pages b p n s) = map_alloc (alloc_bitmap s) p (nat n)"
  "first_alloc_page (take_pages b p n s) = first_alloc_page s"
  "end_alloc_page (take_pages b p n s) = end_alloc_page s"
  "max_end_alloc_page (take_pages b p n s) = max_end_alloc_page s"
  "first_bulk_page (take_pages b p n s) = first_bulk_page s"
  "num_free_pages (take_pages b p n s) = num_free_pages s - of_int n"
  "memory_hole_list (take_pages b p n s) = memory_hole_list s"
  "in_increase_memory (take_pages b p n s) = in_increase_memory s"
  "first_free_page (take_pages b p n s) =
     (if \<not> b \<and> p = first_free_page s then next_free s (p + nat n) else first_free_page s)"
  "first_free_bulk_page (take_pages b p n s) =
     (if b \<and> p = first_free_bulk_page s then next_free s (p + nat n) else first_free_bulk_page s)"
  "num_free_bulk_pages (take_pages b p n s) =
     (if b then num_free_bulk_pages s - of_int n else num_free_bulk_pages s)"
  by (simp_all add: take_pages_def Let_def)

lemma mm_free_take: "mm_free (take_pages b p n s) = mm_free s - {p..<p + nat n}"
  by (auto simp: mm_free_def map_alloc_iff)

lemma of_nat_card_diff:
  assumes "finite F" and "{p..<p + k} \<subseteq> F"
  shows "(of_nat (card (F - {p..<p + k})) :: 'a::len word) = of_nat (card F) - of_nat k"
proof -
  have "card (F - {p..<p + k}) = card F - k"
    using assms by (simp add: card_Diff_subset)
  moreover have "k \<le> card F"
    using card_mono [OF assms] by simp
  ultimately show ?thesis by (simp add: of_nat_diff)
qed

lemma next_free_le:
  assumes "q \<in> mm_free s" and "p \<le> q" shows "next_free s p \<le> q"
  using next_free_spec [of p s] assms by (auto simp: mm_free_def)

lemma of_int_nat: "1 \<le> n \<Longrightarrow> (of_int n :: 'a::ring_1) = of_nat (nat n)"
  by simp

text \<open>Taking a free run keeps the invariant and both hints.\<close>

lemma take_pages_inv [guk_inv]:
  assumes inv: "mm_inv s" and n: "1 \<le> n" and run: "{p..<p + nat n} \<subseteq> mm_free s"
    and reg: "if b then first_free_bulk_page s \<le> p else first_free_page s \<le> p"
  shows "mm_inv (take_pages b p n s)"
proof -
  have cnt: "num_free_pages s - of_int n = (of_nat (card (mm_free s - {p..<p + nat n})) :: u64)"
    using inv of_nat_card_diff [OF finite_mm_free run, where 'a = 64] of_int_nat [OF n, where 'a = "64 word"]
    by (simp add: mm_inv_def)
  have nf: "p + nat n \<le> next_free s (p + nat n)" using next_free_spec by blast
  have small: "first_free_page (take_pages b p n s) \<le> q"
    if "q \<in> mm_free s - {p..<p + nat n}" "q < first_bulk_page s" for q
  proof -
    have "first_free_page s \<le> q" using inv that by (auto simp: mm_inv_def)
    moreover have "next_free s (p + nat n) \<le> q" if "p = first_free_page s"
      using that \<open>first_free_page s \<le> q\<close> \<open>q \<in> _\<close> by (intro next_free_le) auto
    ultimately show ?thesis by simp
  qed
  have "num_free_pages (take_pages b p n s) = of_nat (card (mm_free (take_pages b p n s)))"
    unfolding mm_free_take take_pages_simps by (rule cnt)
  moreover have "first_alloc_page s \<le> first_free_page (take_pages b p n s)"
    "first_bulk_page s \<le> first_free_bulk_page (take_pages b p n s)"
    using inv nf reg by (auto simp: mm_inv_def)
  ultimately show ?thesis
    using inv small unfolding mm_inv_def mm_free_take by simp
qed

lemma take_pages_bulk_hint [guk_inv]:
  assumes "bulk_hint s"
  shows "bulk_hint (take_pages b p n s)"
proof -
  have "first_free_bulk_page (take_pages b p n s) \<le> q"
    if "q \<in> mm_free s - {p..<p + nat n}" "first_bulk_page s \<le> q" for q
  proof -
    have h: "first_free_bulk_page s \<le> q" using assms that by (auto simp: bulk_hint_def)
    moreover have "next_free s (p + nat n) \<le> q" if "p = first_free_bulk_page s"
      using that h \<open>q \<in> _\<close> by (intro next_free_le) auto
    ultimately show ?thesis by simp
  qed
  then show ?thesis unfolding bulk_hint_def mm_free_take by simp
qed

section \<open>Addresses and page numbers\<close>

lemma virt_to_pfn_to_virt [simp]:
  assumes "p < 2 ^ 52"
  shows "virt_to_pfn v (pfn_to_virt v p) = p"
proof -
  have "p * 2 ^ 12 < 2 ^ 64" using assms by simp
  then have "unat (push_bit 12 (of_nat p :: u64)) = p * 2 ^ 12"
    by (simp add: push_bit_eq_mult unat_word_ariths unat_of_nat mult.commute)
  then have "unat (drop_bit 12 (push_bit 12 (of_nat p :: u64))) = p"
    by (simp add: drop_bit_eq_div unat_div)
  then show ?thesis by (simp add: virt_to_pfn_def pfn_to_virt_def)
qed

section \<open>Allocation\<close>

text \<open>One round of the outer loop, by the outcome of the search.\<close>

definition region_search :: "bool \<Rightarrow> int \<Rightarrow> mm \<Rightarrow> nat option" where
  "region_search b n s =
     find_run (alloc_bitmap s) (if b then end_alloc_page s else first_bulk_page s) n
       (if b then first_free_bulk_page s else first_free_page s)"

lemma allocate_loop_found:
  assumes "region_search b n s = Some p" and "pfn_to_virt v p \<noteq> 0"
  shows "allocate_loop v inc n b s = Some (Inr (take_pages b p n s, pfn_to_virt v p))"
  using assms unfolding region_search_def
  by (subst allocate_loop.simps) (simp add: word_neq_0_conv)

lemma allocate_loop_small:
  assumes "region_search False n s = None"
  shows "allocate_loop v inc n False s = allocate_loop v inc n True s"
  using assms unfolding region_search_def by (subst allocate_loop.simps) simp

lemma allocate_loop_grow:
  assumes "region_search True n s = None" and "inc n s = Inr (t, rc)"
  shows "allocate_loop v inc n True s =
           (if rc = 0 then Some (Inr (t, 0)) else allocate_loop v inc n True t)"
  using assms unfolding region_search_def by (subst allocate_loop.simps) simp

lemma region_search_free:
  assumes "mm_inv s" and "region_search b n s = Some p" and "1 \<le> n"
  shows "{p..<p + nat n} \<subseteq> mm_free s" and "p + nat n \<le> end_alloc_page s"
    and "if b then first_free_bulk_page s \<le> p else first_free_page s \<le> p"
proof -
  define e where "e = (if b then end_alloc_page s else first_bulk_page s)"
  define h where "h = (if b then first_free_bulk_page s else first_free_page s)"
  have "find_run (alloc_bitmap s) e (int (nat n)) h = Some p"
    using assms(2,3) by (simp add: region_search_def e_def h_def)
  then have fr: "h \<le> p" "free_run (alloc_bitmap s) p (nat n) e"
    using find_run_SomeD assms(3) by auto
  have he: "first_alloc_page s \<le> h" "e \<le> end_alloc_page s"
    using assms(1) by (auto simp: mm_inv_def h_def e_def)
  show "{p..<p + nat n} \<subseteq> mm_free s" "p + nat n \<le> end_alloc_page s"
    using fr he by (auto simp: mm_free_def free_run_def)
  show "if b then first_free_bulk_page s \<le> p else first_free_page s \<le> p"
    using fr(1) by (auto simp: h_def split: if_splits)
qed

text \<open>The pages a request of each kind is served from first.\<close>

definition region_start :: "bool \<Rightarrow> mm \<Rightarrow> nat" where
  "region_start b s = (if b then first_bulk_page s else first_alloc_page s)"

definition region_end :: "bool \<Rightarrow> mm \<Rightarrow> nat" where
  "region_end b s = (if b then end_alloc_page s else first_bulk_page s)"

text \<open>
  The first page a request can be given: the small region is searched from its start in effect,
  the bulk region from its hint.
\<close>

definition search_start :: "bool \<Rightarrow> mm \<Rightarrow> nat" where
  "search_start b s = (if b then first_free_bulk_page s else first_alloc_page s)"

lemma region_search_from:
  assumes inv: "mm_inv s" and n: "1 \<le> n"
    and run: "free_run (alloc_bitmap s) p (nat n) (region_end b s)" "search_start b s \<le> p"
    and least: "\<forall>r. search_start b s \<le> r \<and> r < p \<longrightarrow> \<not> free_run (alloc_bitmap s) r (nat n) (region_end b s)"
  shows "region_search b n s = Some p"
proof -
  define h where "h = (if b then first_free_bulk_page s else first_free_page s)"
  have reg: "first_alloc_page s \<le> search_start b s" "region_end b s \<le> end_alloc_page s" "search_start b s \<le> h"
    using inv by (auto simp: mm_inv_def search_start_def region_end_def h_def)
  have "p + nat n \<le> region_end b s" using run(1) by (simp add: free_run_def)
  then have "p \<in> mm_free s" "p < region_end b s"
    using run reg n by (auto simp: mm_free_def free_run_def)
  then have "h \<le> p"
    using inv run(2) by (auto simp: mm_inv_def h_def region_end_def search_start_def split: if_splits)
  then have "first_fit (alloc_bitmap s) (region_end b s) (nat n) h (Some p)"
    using run least reg(3) by (auto simp: first_fit_def)
  moreover have "first_fit (alloc_bitmap s) (region_end b s) (nat n) h
      (find_run (alloc_bitmap s) (region_end b s) (int (nat n)) h)"
    using n by (intro find_run_first_fit) simp
  ultimately show ?thesis
    using first_fit_unique n by (auto simp: region_search_def region_end_def h_def)
qed

text \<open>With exact hints no run starts below the start of the search.\<close>

lemma region_below_start:
  assumes "mm_inv s" and "bulk_hint s" and "1 \<le> n" and "region_start b s \<le> r"
    and "free_run (alloc_bitmap s) r (nat n) (region_end b s)"
  shows "search_start b s \<le> r"
proof -
  have "r + nat n \<le> region_end b s" using assms(5) by (simp add: free_run_def)
  then have "r \<in> mm_free s \<or> \<not> b"
    using assms by (auto simp: mm_free_def free_run_def mm_inv_def region_start_def region_end_def)
  then show ?thesis using assms(2,4) by (auto simp: bulk_hint_def search_start_def region_start_def)
qed

text \<open>
  C3. First fit. A small request (below \<open>BULK_ALLOCATION\<close> pages) that the small region can
  serve gets the lowest run of \<open>n\<close> free pages of that region, although the search starts at a
  hint. A bulk request that can be served at or above \<open>first_free_bulk_page\<close> gets the lowest run
  from there; that is the lowest run of the bulk region when no free page lies below this hint
  (\<open>bulk_hint\<close>), which allocation keeps but which the return of small runs to the bulk region
  and ballooning do not. Exactly the pages of the run leave the free pages, \<open>num_free_pages\<close> falls
  by \<open>n\<close>, \<open>num_free_bulk_pages\<close> falls by \<open>n\<close> for a bulk request and stays otherwise, and the
  invariant holds again.
\<close>

theorem allocate_first_fit:
  assumes "mm_inv s" and "1 \<le> n"
    and "free_run (alloc_bitmap s) p (nat n) (region_end (is_bulk n) s)"
    and "search_start (is_bulk n) s \<le> p"
    and "\<forall>r. search_start (is_bulk n) s \<le> r \<and> r < p \<longrightarrow>
             \<not> free_run (alloc_bitmap s) r (nat n) (region_end (is_bulk n) s)"
    and "pfn_to_virt v p \<noteq> 0"
  shows "\<exists>t. allocate_pages v inc False n s = Some (Inr (t, pfn_to_virt v p)) \<and>
             mm_free t = mm_free s - {p..<p + nat n} \<and>
             num_free_pages t = num_free_pages s - of_int n \<and>
             num_free_bulk_pages t = (if is_bulk n then num_free_bulk_pages s - of_int n else num_free_bulk_pages s) \<and>
             mm_inv t \<and>
             (bulk_hint s \<longrightarrow> bulk_hint t \<and>
                (\<forall>r. region_start (is_bulk n) s \<le> r \<and> r < p \<longrightarrow>
                     \<not> free_run (alloc_bitmap s) r (nat n) (region_end (is_bulk n) s)))"
proof -
  have f: "region_search (is_bulk n) n s = Some p" using assms(1-5) by (intro region_search_from)
  note r = region_search_free [OF assms(1) f assms(2)]
  have "\<not> free_run (alloc_bitmap s) r (nat n) (region_end (is_bulk n) s)"
    if "bulk_hint s" "region_start (is_bulk n) s \<le> r" "r < p" for r
    using region_below_start [OF assms(1) that(1) assms(2) that(2)] assms(5) that(3) by blast
  then show ?thesis
    using allocate_loop_found [OF f assms(6)] take_pages_inv [OF assms(1,2) r(1,3)] take_pages_bulk_hint [of s]
    by (intro exI [of _ "take_pages (is_bulk n) p n s"]) (auto simp: allocate_pages_def mm_free_take)
qed

text \<open>A pool of eight free pages, for the concrete instances below.\<close>

definition sample_pool :: mm where
  "sample_pool = \<lparr>alloc_bitmap = map_free (\<lambda>_. - 1) 2 8, first_alloc_page = 2, end_alloc_page = 10,
     max_end_alloc_page = 10, first_free_page = 2, first_bulk_page = 10, first_free_bulk_page = 10,
     num_free_pages = 8, num_free_bulk_pages = 0, memory_hole_list = [], in_increase_memory = False\<rparr>"

lemma sample_allocated [simp]:
  "allocated_in_map (alloc_bitmap sample_pool) p \<longleftrightarrow> \<not> (2 \<le> p \<and> p < 10)"
proof -
  have "allocated_in_map (\<lambda>_. - 1) p" by (simp add: allocated_iff_bit)
  then show ?thesis by (simp add: sample_pool_def map_free_iff)
qed

lemma sample_fields [simp]:
  "first_alloc_page sample_pool = 2" "end_alloc_page sample_pool = 10" "max_end_alloc_page sample_pool = 10"
  "first_free_page sample_pool = 2" "first_bulk_page sample_pool = 10" "first_free_bulk_page sample_pool = 10"
  "num_free_pages sample_pool = 8" "memory_hole_list sample_pool = []"
  by (simp_all add: sample_pool_def)

lemma sample_free [simp]: "mm_free sample_pool = {2..<10}"
  by (auto simp: mm_free_def)

lemma sample_inv [simp]: "mm_inv sample_pool" "bulk_hint sample_pool"
  by (simp_all add: mm_inv_def bulk_hint_def)

theorem allocate_first_fit_witness:
  "\<exists>t. allocate_pages 0 (\<lambda>n s. Inr (s, 0)) False 3 sample_pool = Some (Inr (t, pfn_to_virt 0 2)) \<and>
       mm_free t = {5..<10} \<and> num_free_pages t = 5 \<and> bulk_hint t"
proof -
  have "\<not> is_bulk 3" by (simp add: is_bulk_def BULK_ALLOCATION_def)
  moreover have "{2..<10} - {2..<2 + nat 3} = {5::nat..<10}" by auto
  moreover have "pfn_to_virt 0 2 \<noteq> 0" by (simp add: pfn_to_virt_def)
  ultimately show ?thesis
    using allocate_first_fit [of sample_pool 3 2 0 "\<lambda>n s. Inr (s, 0)"]
    by (auto simp: free_run_def search_start_def region_end_def)
qed

section \<open>Deallocation\<close>

lemma deallocate_free:
  assumes "deallocate_pages v False (pfn_to_virt v p) n s = Inr t" and "p < 2 ^ 52" and "1 \<le> n"
    and "first_alloc_page s \<le> p" and "p + nat n \<le> end_alloc_page s"
  shows "mm_free t = mm_free s \<union> {p..<p + nat n}"
  using assms
  by (auto simp: deallocate_pages_def Let_def mm_free_def map_free_iff split: if_splits)

lemma deallocate_inv [guk_inv]:
  assumes d: "deallocate_pages v False (pfn_to_virt v p) n s = Inr t" and p: "p < 2 ^ 52" and n: "1 \<le> n"
    and reg: "first_alloc_page s \<le> p" "p + nat n \<le> end_alloc_page s"
    and held: "mm_free s \<inter> {p..<p + nat n} = {}"
    and bulk: "is_bulk n \<longrightarrow> first_bulk_page s \<le> p" and inv: "mm_inv s"
  shows "mm_inv t"
proof -
  note free = deallocate_free [OF d p n reg]
  have "card (mm_free t) = card (mm_free s) + nat n"
    unfolding free using card_Un_disjoint [OF finite_mm_free finite_atLeastLessThan held] by simp
  moreover have "num_free_pages t = num_free_pages s + of_nat (nat n)"
    using d n by (auto simp: deallocate_pages_def Let_def split: if_splits)
  moreover have "num_free_pages s = of_nat (card (mm_free s))" using inv by (simp add: mm_inv_def)
  ultimately have cnt: "num_free_pages t = of_nat (card (mm_free t))" by simp
  have small: "first_free_page t \<le> q" if "q \<in> mm_free t" "q < first_bulk_page s" for q
  proof (cases "q \<in> mm_free s")
    case True
    then have "first_free_page s \<le> q" using inv that by (auto simp: mm_inv_def)
    then show ?thesis using d by (auto simp: deallocate_pages_def Let_def split: if_splits)
  next
    case False
    then have "p \<le> q" using that free by auto
    moreover have "\<not> is_bulk n" using bulk that calculation by auto
    ultimately show ?thesis using d p by (auto simp: deallocate_pages_def Let_def split: if_splits)
  qed
  have "first_alloc_page t = first_alloc_page s" "end_alloc_page t = end_alloc_page s"
    "first_bulk_page t = first_bulk_page s" "first_alloc_page s \<le> first_free_page t"
    "first_bulk_page s \<le> first_free_bulk_page t"
    using d p reg bulk inv by (auto simp: deallocate_pages_def Let_def mm_inv_def split: if_splits)
  then show ?thesis
    using inv cnt small by (simp add: mm_inv_def)
qed

text \<open>
  C18. Deallocation gives back exactly the pages it is handed: \<open>n\<close> held pages at the address
  of page \<open>p\<close> become free, nothing else changes, the counter follows and the invariant holds.
\<close>

theorem deallocate_pages_correct:
  assumes "mm_inv s" and "1 \<le> n" and "p < 2 ^ 52"
    and "first_alloc_page s \<le> p" and "p + nat n \<le> end_alloc_page s"
    and "mm_free s \<inter> {p..<p + nat n} = {}" and "is_bulk n \<longrightarrow> first_bulk_page s \<le> p"
  shows "\<exists>t. deallocate_pages v False (pfn_to_virt v p) n s = Inr t \<and>
             mm_free t = mm_free s \<union> {p..<p + nat n} \<and>
             num_free_pages t = num_free_pages s + of_int n \<and> mm_inv t"
proof -
  obtain t where t: "deallocate_pages v False (pfn_to_virt v p) n s = Inr t"
    by (simp add: deallocate_pages_def Let_def)
  moreover have "num_free_pages t = num_free_pages s + of_int n"
    using t by (auto simp: deallocate_pages_def Let_def split: if_splits)
  ultimately show ?thesis
    using deallocate_free [OF t assms(3,2,4,5)] deallocate_inv [OF t assms(3,2,4-7,1)] by blast
qed

theorem deallocate_pages_correct_witness:
  "\<exists>t. deallocate_pages 0 False (pfn_to_virt 0 2) 3 (take_pages False 2 3 sample_pool) = Inr t \<and>
       mm_free t = {2..<10}"
proof -
  have "mm_inv (take_pages False 2 3 sample_pool)" by (rule take_pages_inv) auto
  moreover have "mm_free (take_pages False 2 3 sample_pool) = {5..<10}" by (auto simp: mm_free_take)
  moreover have "\<not> is_bulk 3" by (simp add: is_bulk_def BULK_ALLOCATION_def)
  moreover have "{5..<10} \<inter> {2..<5} = ({} :: nat set)" "{5..<10} \<union> {2..<5} = {2::nat..<10}" by auto
  ultimately show ?thesis
    using deallocate_pages_correct [of "take_pages False 2 3 sample_pool" 3 2 0] by auto
qed

text \<open>The run a request is given without ballooning, and whether it is counted as bulk pages.\<close>

definition served_from :: "int \<Rightarrow> mm \<Rightarrow> (bool \<times> nat) option" where
  "served_from n s =
     (case region_search (is_bulk n) n s of
        Some p \<Rightarrow> Some (is_bulk n, p)
      | None \<Rightarrow> if is_bulk n then None else map_option (Pair True) (region_search True n s))"

lemma served_from_search:
  assumes "served_from n s = Some (b, p)"
  shows "region_search b n s = Some p" and "is_bulk n \<longrightarrow> b"
    and "pfn_to_virt v p \<noteq> 0 \<Longrightarrow>
         allocate_pages v inc False n s = Some (Inr (take_pages b p n s, pfn_to_virt v p))"
proof -
  show s: "region_search b n s = Some p" and b: "is_bulk n \<longrightarrow> b"
    using assms by (auto simp: served_from_def split: option.splits if_splits)
  assume v: "pfn_to_virt v p \<noteq> 0"
  show "allocate_pages v inc False n s = Some (Inr (take_pages b p n s, pfn_to_virt v p))"
  proof (cases "b = is_bulk n")
    case True
    then show ?thesis using allocate_loop_found [OF s v] by (simp add: allocate_pages_def)
  next
    case False
    then have "region_search False n s = None" "b" "\<not> is_bulk n"
      using assms b by (auto simp: served_from_def split: option.splits if_splits)
    then show ?thesis using allocate_loop_found [OF s v] allocate_loop_small by (simp add: allocate_pages_def)
  qed
qed

text \<open>
  C19. Round trip, for a request that the pool serves without ballooning, from the region of its
  kind or, for a small request, from the bulk region once the small one is exhausted: pages
  obtained from the allocator and given back with the same count leave the set of free pages
  and \<open>num_free_pages\<close> as they were before the allocation. So does \<open>num_free_bulk_pages\<close>, except
  that a small request served from the bulk region lowers it by \<open>n\<close> for good.
\<close>

theorem allocate_deallocate:
  assumes "mm_inv s" and "1 \<le> n" and "served_from n s = Some (b, p)" and "end_alloc_page s \<le> 2 ^ 52"
    and "pfn_to_virt v p \<noteq> 0"
  shows "\<exists>t u. allocate_pages v inc False n s = Some (Inr (t, pfn_to_virt v p)) \<and>
               deallocate_pages v False (pfn_to_virt v p) n t = Inr u \<and>
               mm_free u = mm_free s \<and> num_free_pages u = num_free_pages s \<and> mm_inv u \<and>
               num_free_bulk_pages u =
                 (if b = is_bulk n then num_free_bulk_pages s else num_free_bulk_pages s - of_int n)"
proof -
  note f = served_from_search [OF assms(3)]
  define t where "t = take_pages b p n s"
  note r = region_search_free [OF assms(1) f(1) assms(2)]
  have t: "mm_inv t" using take_pages_inv [OF assms(1,2) r(1,3)] by (simp add: t_def)
  have al: "allocate_pages v inc False n s = Some (Inr (t, pfn_to_virt v p))"
    using f(3) [OF assms(5)] by (simp add: t_def)
  have p: "p < 2 ^ 52" using r(2) assms(2,4) by linarith
  have reg: "first_alloc_page t \<le> p" "p + nat n \<le> end_alloc_page t"
    and bulk: "is_bulk n \<longrightarrow> first_bulk_page t \<le> p"
    using r assms(1) f(2) by (auto simp: t_def mm_inv_def split: if_splits)
  have ft: "mm_free t = mm_free s - {p..<p + nat n}" by (simp add: t_def mm_free_take)
  obtain u where u: "deallocate_pages v False (pfn_to_virt v p) n t = Inr u"
    by (simp add: deallocate_pages_def Let_def)
  have "num_free_pages u = num_free_pages t + of_int n"
    "num_free_bulk_pages u = (if is_bulk n then num_free_bulk_pages t + of_int n else num_free_bulk_pages t)"
    using u by (auto simp: deallocate_pages_def Let_def split: if_splits)
  then have "num_free_pages u = num_free_pages s"
    "num_free_bulk_pages u = (if b = is_bulk n then num_free_bulk_pages s else num_free_bulk_pages s - of_int n)"
    using f(2) by (auto simp: t_def)
  moreover have "mm_free u = mm_free s"
    unfolding deallocate_free [OF u p assms(2) reg] ft using r(1) by blast
  moreover have "mm_inv u" using deallocate_inv [OF u p assms(2) reg _ bulk t] ft by blast
  ultimately show ?thesis using al u by blast
qed

lemma sample_search: "served_from 3 sample_pool = Some (False, 2)"
proof -
  have "\<not> is_bulk 3" by (simp add: is_bulk_def BULK_ALLOCATION_def)
  moreover have "region_search False 3 sample_pool = Some 2"
    by (rule region_search_from) (auto simp: free_run_def search_start_def region_end_def)
  ultimately show ?thesis by (simp add: served_from_def)
qed

text \<open>The same pool with a small region of two pages, where three pages come from the bulk region.\<close>

definition sample_spill :: mm where
  "sample_spill = sample_pool\<lparr>first_bulk_page := 4, first_free_bulk_page := 4, num_free_bulk_pages := 6\<rparr>"

lemma sample_spill_inv: "mm_inv sample_spill"
proof -
  have "mm_free sample_spill = mm_free sample_pool" by (simp add: mm_free_def sample_spill_def)
  then show ?thesis by (simp add: mm_inv_def) (simp add: sample_spill_def)
qed

lemma sample_spill_search: "served_from 3 sample_spill = Some (True, 4)"
proof -
  have "find_run (alloc_bitmap sample_pool) 4 3 2 = None"
    by (simp add: find_run.simps run_from.simps)
  then have "region_search False 3 sample_spill = None"
    by (simp add: region_search_def sample_spill_def)
  moreover have "region_search True 3 sample_spill = Some 4"
    by (rule region_search_from [OF sample_spill_inv])
       (auto simp: free_run_def search_start_def region_end_def sample_spill_def)
  moreover have "\<not> is_bulk 3" by (simp add: is_bulk_def BULK_ALLOCATION_def)
  ultimately show ?thesis by (simp add: served_from_def)
qed

theorem allocate_deallocate_witness:
  "(\<exists>t u. allocate_pages 0 (\<lambda>n s. Inr (s, 0)) False 3 sample_pool = Some (Inr (t, pfn_to_virt 0 2)) \<and>
          deallocate_pages 0 False (pfn_to_virt 0 2) 3 t = Inr u \<and> mm_free u = {2..<10}) \<and>
   (\<exists>t u. allocate_pages 0 (\<lambda>n s. Inr (s, 0)) False 3 sample_spill = Some (Inr (t, pfn_to_virt 0 4)) \<and>
          deallocate_pages 0 False (pfn_to_virt 0 4) 3 t = Inr u \<and> mm_free u = {2..<10} \<and>
          num_free_bulk_pages u = 3)"
proof
  have b: "\<not> is_bulk 3" by (simp add: is_bulk_def BULK_ALLOCATION_def)
  have v: "pfn_to_virt 0 2 \<noteq> 0" "pfn_to_virt 0 4 \<noteq> 0" by (simp_all add: pfn_to_virt_def)
  show "\<exists>t u. allocate_pages 0 (\<lambda>n s. Inr (s, 0)) False 3 sample_pool = Some (Inr (t, pfn_to_virt 0 2)) \<and>
          deallocate_pages 0 False (pfn_to_virt 0 2) 3 t = Inr u \<and> mm_free u = {2..<10}"
    using allocate_deallocate [OF sample_inv(1) _ sample_search, of 0 "\<lambda>n s. Inr (s, 0)"] v by auto
  have m: "mm_free sample_spill = {2..<10}" using sample_free by (simp add: mm_free_def sample_spill_def)
  show "\<exists>t u. allocate_pages 0 (\<lambda>n s. Inr (s, 0)) False 3 sample_spill = Some (Inr (t, pfn_to_virt 0 4)) \<and>
          deallocate_pages 0 False (pfn_to_virt 0 4) 3 t = Inr u \<and> mm_free u = {2..<10} \<and>
          num_free_bulk_pages u = 3"
    using allocate_deallocate [OF sample_spill_inv _ sample_spill_search, of 0 "\<lambda>n s. Inr (s, 0)"] v b m
    by (auto simp: sample_spill_def)
qed

end
