(* ===== verification/Guk_Balloon.thy ===== *)
theory Guk_Balloon
  imports Guk_Pages
begin

text \<open>
  Memory ballooning of \<open>mm.c\<close>: the list of holes in the physical address space, growing and
  shrinking the page pool, and the initialisation of the allocator.

  \<open>increase_reservation\<close> and \<open>decrease_reservation\<close>, which ask Xen for frames and edit
  the page tables, are arguments of the operations.
\<close>

section \<open>Ballooning\<close>

fun can_increase :: "memory_hole list \<Rightarrow> nat \<Rightarrow> nat" where
  "can_increase [] n = 0"
| "can_increase (h # hs) n =
     (let hole = end_pfn h - start_pfn h
      in if hole \<ge> n then n else can_increase hs (n - hole))"

fun memory_hole_add :: "memory_hole \<Rightarrow> memory_hole list \<Rightarrow> memory_hole list" where
  "memory_hole_add new [] = [new]"
| "memory_hole_add new (h # hs) =
     (if start_pfn h > start_pfn new then new # h # hs else h # memory_hole_add new hs)"

definition current_reservation :: "mm \<Rightarrow> int" where
  "current_reservation s =
     int (max_end_alloc_page s)
     - (\<Sum>h \<leftarrow> memory_hole_list s. int (end_pfn h) - int (start_pfn h))"

text \<open>
  What \<open>increase_memory_holding_lock\<close> records when \<open>increase_reservation\<close> has populated the
  first \<open>rc\<close> pages of the first hole.
\<close>

definition fill_hole :: "memory_hole \<Rightarrow> int \<Rightarrow> mm \<Rightarrow> mm" where
  "fill_hole hole rc s =
     s\<lparr>alloc_bitmap := map_free (alloc_bitmap s) (start_pfn hole) (nat rc),
       end_alloc_page :=
         (if start_pfn hole + nat rc > end_alloc_page s
          then start_pfn hole + nat rc else end_alloc_page s),
       num_free_pages := num_free_pages s + of_int rc,
       num_free_bulk_pages := num_free_bulk_pages s + of_int rc,
       memory_hole_list :=
         (if int (end_pfn hole - start_pfn hole) = rc then tl (memory_hole_list s)
          else hole\<lparr>start_pfn := start_pfn hole + nat rc\<rparr> # tl (memory_hole_list s))\<rparr>"

text \<open>
  The loop of \<open>increase_memory_holding_lock\<close>; \<open>ir\<close> is \<open>increase_reservation\<close>, which may
  allocate page table frames and so change the pool. The head of an empty hole list is not a
  hole: reading it is modelled as a fault, which \<open>can_increase\<close> excludes.
\<close>

function increase_loop ::
  "(nat \<Rightarrow> memory_hole \<Rightarrow> mm \<Rightarrow> mm \<times> int) \<Rightarrow> nat \<Rightarrow> int \<Rightarrow> mm \<Rightarrow> guk_stop + mm \<times> int"
where
  "increase_loop ir n result s =
     (if n > 0
      then (case memory_hole_list s of
              [] \<Rightarrow> Inl FAULT
            | hole # _ \<Rightarrow>
                let hole_size = end_pfn hole - start_pfn hole;
                    nn = (if hole_size \<le> n then hole_size else n);
                    (s1, rc) = ir nn hole s
                in if rc > 0
                   then increase_loop ir (n - nat rc) (result + rc) (fill_hole hole rc s1)
                   else Inr (s1, result))
      else Inr (s, result))"
  by pat_completeness auto
termination by (relation "measure (\<lambda>(ir, n, result, s). n)") auto

declare increase_loop.simps [simp del]

definition increase_memory_holding_lock ::
  "(nat \<Rightarrow> memory_hole \<Rightarrow> mm \<Rightarrow> mm \<times> int) \<Rightarrow> nat \<Rightarrow> mm \<Rightarrow> guk_stop + mm \<times> int"
where
  "increase_memory_holding_lock ir n s =
     (if in_increase_memory s then Inr (s\<lparr>in_increase_memory := False\<rparr>, 0)
      else let s0 = s\<lparr>in_increase_memory := True\<rparr>
           in res_bind
                (if can_increase (memory_hole_list s0) n \<noteq> 0
                 then increase_loop ir n 0 s0 else Inr (s0, 0))
                (\<lambda>(s', result). Inr (s'\<lparr>in_increase_memory := False\<rparr>, result)))"

definition increase_page_pool ::
  "(nat \<Rightarrow> memory_hole \<Rightarrow> mm \<Rightarrow> mm \<times> int) \<Rightarrow> nat \<Rightarrow> mm \<Rightarrow> guk_stop + mm \<times> int"
where
  "increase_page_pool ir n s = increase_memory_holding_lock ir n s"

text \<open>
  Scanning the bulk region downwards. The page number is an \<open>unsigned long\<close>; decrementing it
  below zero makes the next bitmap access fault, so that is what the model does.
\<close>

function free_down :: "bitmap \<Rightarrow> nat \<Rightarrow> nat \<Rightarrow> nat \<Rightarrow> guk_stop + nat \<times> nat" where
  "free_down m first_bulk page n =
     (if \<not> allocated_in_map m page \<and> page \<ge> first_bulk
      then if page = 0 then Inl FAULT else free_down m first_bulk (page - 1) (Suc n)
      else Inr (page, n))"
  by pat_completeness auto
termination by (relation "measure (\<lambda>(m, f, page, n). page)") auto

declare free_down.simps [simp del]

lemma free_down_le: "free_down m f p n = Inr (p', n') \<Longrightarrow> p' \<le> p"
proof (induction m f p n rule: free_down.induct)
  case (1 m f p n)
  then show ?case by (subst (asm) (2) free_down.simps) (force split: if_splits)
qed

function decreaseable_loop :: "bitmap \<Rightarrow> nat \<Rightarrow> nat \<Rightarrow> nat \<Rightarrow> guk_stop + nat" where
  "decreaseable_loop m first_bulk page n =
     (if page \<ge> first_bulk
      then (case (if \<not> allocated_in_map m page then free_down m first_bulk page n
                  else Inr (page, n)) of
              Inl e \<Rightarrow> Inl e
            | Inr (page', n') \<Rightarrow>
                if page' = 0 then Inl FAULT else decreaseable_loop m first_bulk (page' - 1) n')
      else Inr n)"
  by pat_completeness auto
termination
  by (relation "measure (\<lambda>(m, f, page, n). page)")
     (auto split: if_splits dest!: free_down_le)

declare decreaseable_loop.simps [simp del]

definition decreaseable_page_pool :: "mm \<Rightarrow> guk_stop + nat" where
  "decreaseable_page_pool s =
     decreaseable_loop (alloc_bitmap s) (first_bulk_page s) (end_alloc_page s - 1) 0"

text \<open>\<open>guk_decrease_page_pool\<close>, whose inner loop also stops after \<open>n\<close> pages.\<close>

function free_down_upto :: "bitmap \<Rightarrow> nat \<Rightarrow> nat \<Rightarrow> nat \<Rightarrow> nat \<Rightarrow> guk_stop + nat \<times> nat" where
  "free_down_upto m first_bulk n page nn =
     (if \<not> allocated_in_map m page \<and> page \<ge> first_bulk \<and> nn < n
      then if page = 0 then Inl FAULT else free_down_upto m first_bulk n (page - 1) (Suc nn)
      else Inr (page, nn))"
  by pat_completeness auto
termination by (relation "measure (\<lambda>(m, f, n, page, nn). page)") auto

declare free_down_upto.simps [simp del]

text \<open>
  The bookkeeping once \<open>decrease_reservation\<close> has released the \<open>rc\<close> pages of a new hole.
  The hole is added to the list, or merged into the first hole when it ends where that starts.
\<close>

definition record_hole :: "memory_hole \<Rightarrow> int \<Rightarrow> mm \<Rightarrow> mm" where
  "record_hole hole rc s =
     s\<lparr>num_free_pages := num_free_pages s - of_int rc,
       num_free_bulk_pages := num_free_bulk_pages s - of_int rc,
       end_alloc_page :=
         (if end_alloc_page s = end_pfn hole then end_alloc_page s - nat rc else end_alloc_page s),
       alloc_bitmap := map_alloc (alloc_bitmap s) (start_pfn hole) (nat rc),
       memory_hole_list :=
         (case memory_hole_list s of
            [] \<Rightarrow> memory_hole_add hole []
          | h # hs \<Rightarrow>
              if end_pfn hole \<noteq> start_pfn h then memory_hole_add hole (h # hs)
              else h\<lparr>start_pfn := start_pfn hole\<rparr> # hs)\<rparr>"

text \<open>
  \<open>xm\<close> is the \<open>xmalloc\<close> of the hole record (false when it returns null, which the code then
  dereferences), \<open>fr\<close> the \<open>free\<close> of it, \<open>dr\<close> is \<open>decrease_reservation\<close>, which stops the
  domain when Xen does not release all pages. The loop is given fuel; \<open>end_alloc_page\<close>
  rounds are enough since every round lowers \<open>page\<close>.
\<close>

fun decrease_loop ::
  "(mm \<Rightarrow> mm \<times> bool) \<Rightarrow> (mm \<Rightarrow> mm) \<Rightarrow> (memory_hole \<Rightarrow> mm \<Rightarrow> guk_stop + mm \<times> int) \<Rightarrow> nat
   \<Rightarrow> nat \<Rightarrow> nat \<Rightarrow> int \<Rightarrow> mm \<Rightarrow> (guk_stop + mm \<times> int) option"
where
  "decrease_loop xm fr dr 0 page n rc s =
     (if page \<ge> first_bulk_page s \<and> n > 0 then None else Some (Inr (s, rc)))"
| "decrease_loop xm fr dr (Suc fuel) page n rc s =
     (if page \<ge> first_bulk_page s \<and> n > 0
      then if \<not> allocated_in_map (alloc_bitmap s) page
           then (case free_down_upto (alloc_bitmap s) (first_bulk_page s) n page 0 of
                   Inl e \<Rightarrow> Some (Inl e)
                 | Inr (page', nn) \<Rightarrow>
                     let (s1, got) = xm s in
                     if \<not> got then Some (Inl FAULT)
                     else let hole = \<lparr>start_pfn = page' + 1, end_pfn = page + 1\<rparr> in
                          (case dr hole s1 of
                             Inl e \<Rightarrow> Some (Inl e)
                           | Inr (s2, rc') \<Rightarrow>
                               let s3 = (if rc' > 0
                                         then let t = record_hole hole rc' s2
                                              in if memory_hole_list s2 \<noteq> [] \<and>
                                                    end_pfn hole = start_pfn (hd (memory_hole_list s2))
                                                 then fr t else t
                                         else fr s2)
                               in if page' = 0 then Some (Inl FAULT)
                                  else decrease_loop xm fr dr fuel (page' - 1) (n - nn) rc' s3))
           else if page = 0 then Some (Inl FAULT)
                else decrease_loop xm fr dr fuel (page - 1) n rc s
      else Some (Inr (s, rc)))"

definition decrease_page_pool ::
  "(mm \<Rightarrow> mm \<times> bool) \<Rightarrow> (mm \<Rightarrow> mm) \<Rightarrow> (memory_hole \<Rightarrow> mm \<Rightarrow> guk_stop + mm \<times> int) \<Rightarrow> nat
   \<Rightarrow> mm \<Rightarrow> (guk_stop + mm \<times> int) option"
where
  "decrease_page_pool xm fr dr n s =
     decrease_loop xm fr dr (end_alloc_page s) (end_alloc_page s - 1) n 0 s"

section \<open>Initialisation\<close>

text \<open>
  \<open>mem\<close> is the memory found at the bitmap's address, \<open>xen_max\<close> the result of
  \<open>xen_maximum_reservation\<close>, \<open>opt\<close> that of \<open>num_option\<close> for the small percentage.
\<close>

definition init_page_allocator :: "bitmap \<Rightarrow> nat \<Rightarrow> int \<Rightarrow> nat \<Rightarrow> nat \<Rightarrow> mm" where
  "init_page_allocator mem xen_max opt min_pfn max_pfn =
     (let bitmap_pages = xen_max div BITS_PER_PAGE;
          first = min_pfn + bitmap_pages;
          nfree = (of_nat max_pfn - of_nat first :: u64);
          small_pct = (if opt < 0 then DEFAULT_SMALL_PERCENTAGE else opt);
          bulk0 = first + xen_max * nat small_pct div 100;
          bulk = (if bulk0 > max_pfn then max_pfn else bulk0);
          cleared = (\<lambda>i. if i < bitmap_pages * 512 then - 1 else mem i)
      in \<lparr>alloc_bitmap = map_free cleared first (unat nfree),
          first_alloc_page = first,
          end_alloc_page = max_pfn,
          max_end_alloc_page = xen_max,
          first_free_page = first,
          first_bulk_page = bulk,
          first_free_bulk_page = bulk,
          num_free_pages = nfree,
          num_free_bulk_pages = of_nat max_pfn - of_nat bulk,
          memory_hole_list = [],
          in_increase_memory = False\<rparr>)"

definition round_pgup :: "nat \<Rightarrow> nat" where
  "round_pgup n = (n + 4095) div 4096 * 4096"

text \<open>
  The table of machine frames moves to a larger area when the domain may grow; \<open>mem\<close> is the
  content of the new area.
\<close>

definition resize_phys_to_machine_mapping_table ::
  "u64 \<Rightarrow> (int \<Rightarrow> mm \<Rightarrow> guk_stop + mm \<times> int) \<Rightarrow> (mm \<Rightarrow> mm \<times> bool) \<Rightarrow> (nat \<Rightarrow> u64)
   \<Rightarrow> (nat \<Rightarrow> u64) \<Rightarrow> mm \<Rightarrow> (guk_stop + mm \<times> (nat \<Rightarrow> u64)) option"
where
  "resize_phys_to_machine_mapping_table v inc xm mem p2m s =
     (case (if max_end_alloc_page s > end_alloc_page s
            then (case allocate_pages v inc False (int (round_pgup (max_end_alloc_page s * 8) div 4096)) s of
                    None \<Rightarrow> None
                  | Some (Inl e) \<Rightarrow> Some (Inl e)
                  | Some (Inr (s1, r)) \<Rightarrow>
                      if r = 0 then Some (Inl CRASH)
                      else Some (Inr (s1, \<lambda>i. if i < end_alloc_page s1 then p2m i else mem i)))
            else Some (Inr (s, p2m))) of
        None \<Rightarrow> None
      | Some (Inl e) \<Rightarrow> Some (Inl e)
      | Some (Inr (s1, p2m')) \<Rightarrow>
          let (s2, got) = xm s1 in
          if \<not> got then Some (Inl FAULT)
          else Some (Inr (s2\<lparr>memory_hole_list :=
                 \<lparr>start_pfn = end_alloc_page s2, end_pfn = max_end_alloc_page s2\<rparr>
                 # memory_hole_list s2\<rparr>, p2m')))"

section \<open>Ballooning keeps the pool consistent\<close>

definition hole_pages :: "mm \<Rightarrow> nat" where
  "hole_pages s = (\<Sum>h \<leftarrow> memory_hole_list s. end_pfn h - start_pfn h)"

text \<open>
  Holes are ordered and disjoint, lie in the bulk part of the address space, and appear
  allocated in the bitmap, as do the pages past the end of the pool.
\<close>

definition holes_ok :: "mm \<Rightarrow> bool" where
  "holes_ok s \<longleftrightarrow> end_alloc_page s \<le> max_end_alloc_page s \<and>
     sorted_wrt (\<lambda>a b. end_pfn a \<le> start_pfn b) (memory_hole_list s) \<and>
     (\<forall>h \<in> set (memory_hole_list s).
        first_bulk_page s \<le> start_pfn h \<and> start_pfn h \<le> end_pfn h \<and>
        (start_pfn h = end_pfn h \<longrightarrow> end_pfn h = max_end_alloc_page s) \<and> end_pfn h \<le> max_end_alloc_page s \<and>
        (\<forall>p. start_pfn h \<le> p \<and> p < end_pfn h \<longrightarrow> allocated_in_map (alloc_bitmap s) p)) \<and>
     (\<forall>p. end_alloc_page s \<le> p \<and> p < max_end_alloc_page s \<longrightarrow> allocated_in_map (alloc_bitmap s) p)"

definition pool_inv :: "mm \<Rightarrow> bool" where
  "pool_inv s \<longleftrightarrow> mm_inv s \<and> holes_ok s"

text \<open>
  The contract of \<open>increase_reservation\<close>: it populates at most the pages it was asked for,
  and the only thing it does to the pool is allocate pages (for page tables).
\<close>

definition same_shape :: "mm \<Rightarrow> mm \<Rightarrow> bool" where
  "same_shape s t \<longleftrightarrow>
     first_alloc_page t = first_alloc_page s \<and> end_alloc_page t = end_alloc_page s \<and>
     max_end_alloc_page t = max_end_alloc_page s \<and> first_bulk_page t = first_bulk_page s \<and>
     memory_hole_list t = memory_hole_list s \<and>
     (\<forall>p. allocated_in_map (alloc_bitmap s) p \<longrightarrow> allocated_in_map (alloc_bitmap t) p)"

definition reservation_ok :: "(nat \<Rightarrow> memory_hole \<Rightarrow> mm \<Rightarrow> mm \<times> int) \<Rightarrow> bool" where
  "reservation_ok ir \<longleftrightarrow>
     (\<forall>n h s t rc. ir n h s = (t, rc) \<longrightarrow>
        rc \<le> int n \<and> same_shape s t \<and> (mm_inv s \<longrightarrow> mm_inv t))"

lemma reservation_pool_inv:
  assumes "reservation_ok ir" and "ir n h s = (t, rc)" and "pool_inv s"
  shows "pool_inv t" and "rc \<le> int n" and "same_shape s t"
proof -
  show sh: "same_shape s t" and "rc \<le> int n"
    using assms(1,2) unfolding reservation_ok_def by blast+
  have "mm_inv t" using assms unfolding reservation_ok_def pool_inv_def by blast
  moreover have "holes_ok t"
    using sh assms(3) unfolding pool_inv_def holes_ok_def same_shape_def by simp
  ultimately show "pool_inv t" by (simp add: pool_inv_def)
qed

lemma fill_hole_free:
  assumes "holes_ok s" and "memory_hole_list s = h # hs"
    and "0 < rc" and "rc \<le> int (end_pfn h - start_pfn h)" and "mm_inv s"
  shows "mm_free (fill_hole h rc s) = mm_free s \<union> {start_pfn h..<start_pfn h + nat rc}"
    and "mm_free s \<inter> {start_pfn h..<start_pfn h + nat rc} = {}"
proof -
  have h: "first_bulk_page s \<le> start_pfn h" "end_pfn h \<le> max_end_alloc_page s"
    "\<And>p. start_pfn h \<le> p \<Longrightarrow> p < end_pfn h \<Longrightarrow> allocated_in_map (alloc_bitmap s) p"
    and tail: "\<And>p. end_alloc_page s \<le> p \<Longrightarrow> p < max_end_alloc_page s \<Longrightarrow> allocated_in_map (alloc_bitmap s) p"
    using assms(1,2) by (auto simp: holes_ok_def)
  have le: "start_pfn h + nat rc \<le> end_pfn h" using assms(3,4) by linarith
  have fb: "first_alloc_page s \<le> first_bulk_page s" using assms(5) by (simp add: mm_inv_def)
  show "mm_free (fill_hole h rc s) = mm_free s \<union> {start_pfn h..<start_pfn h + nat rc}"
  proof (rule set_eqI)
    fix p
    show "p \<in> mm_free (fill_hole h rc s) \<longleftrightarrow> p \<in> mm_free s \<union> {start_pfn h..<start_pfn h + nat rc}"
    proof (cases "start_pfn h \<le> p \<and> p < start_pfn h + nat rc")
      case True
      with h(1) fb show ?thesis by (simp add: mm_free_def fill_hole_def map_free_iff)
    next
      case False
      have "p < end_alloc_page s" if "p < start_pfn h + nat rc" "\<not> allocated_in_map (alloc_bitmap s) p"
        using that tail [of p] le h(2) by linarith
      with False show ?thesis by (auto simp: mm_free_def fill_hole_def map_free_iff)
    qed
  qed
  show "mm_free s \<inter> {start_pfn h..<start_pfn h + nat rc} = {}"
    using h le by (auto simp: mm_free_def)
qed

lemma fill_hole_mm_inv:
  assumes "holes_ok s" "memory_hole_list s = h # hs" "0 < rc" "rc \<le> int (end_pfn h - start_pfn h)"
    and inv: "mm_inv s"
  shows "mm_inv (fill_hole h rc s)"
proof -
  note free = fill_hole_free [OF assms]
  have fb: "first_bulk_page s \<le> start_pfn h" using assms(1,2) by (auto simp: holes_ok_def)
  have "card (mm_free (fill_hole h rc s)) = card (mm_free s) + nat rc"
    using card_Un_disjoint [OF finite_mm_free finite_atLeastLessThan free(2)]
    unfolding free(1) by simp
  moreover have "num_free_pages (fill_hole h rc s) = num_free_pages s + of_nat (nat rc)"
    using \<open>0 < rc\<close> by (simp add: fill_hole_def)
  moreover have "num_free_pages s = of_nat (card (mm_free s))"
    using inv by (simp add: mm_inv_def)
  ultimately have "num_free_pages (fill_hole h rc s) = of_nat (card (mm_free (fill_hole h rc s)))"
    by simp
  moreover have "\<forall>p \<in> mm_free (fill_hole h rc s). p < first_bulk_page s \<longrightarrow> first_free_page s \<le> p"
    using inv fb unfolding free(1) mm_inv_def by auto
  ultimately show ?thesis
    using inv unfolding mm_inv_def by (auto simp: fill_hole_def)
qed

lemma fill_hole_holes_ok:
  assumes ok: "holes_ok s" and hl: "memory_hole_list s = h # hs"
    and rc: "0 < rc" "rc \<le> int (end_pfn h - start_pfn h)"
  shows "holes_ok (fill_hole h rc s)"
proof -
  define k where "k = nat rc"
  have k: "0 < k" "k \<le> end_pfn h - start_pfn h" using rc by (auto simp: k_def)
  have h: "first_bulk_page s \<le> start_pfn h" "start_pfn h \<le> end_pfn h" "end_pfn h \<le> max_end_alloc_page s"
    and sorted: "\<forall>g \<in> set hs. end_pfn h \<le> start_pfn g" "sorted_wrt (\<lambda>a b. end_pfn a \<le> start_pfn b) hs"
    using ok hl by (auto simp: holes_ok_def)
  have al: "allocated_in_map (alloc_bitmap (fill_hole h rc s)) p \<longleftrightarrow>
            allocated_in_map (alloc_bitmap s) p \<and> \<not> (start_pfn h \<le> p \<and> p < start_pfn h + k)" for p
    by (auto simp: fill_hole_def map_free_iff k_def)
  have holes: "memory_hole_list (fill_hole h rc s) = hs \<or>
               k < end_pfn h - start_pfn h \<and> memory_hole_list (fill_hole h rc s) = h\<lparr>start_pfn := start_pfn h + k\<rparr> # hs"
    using hl rc by (auto simp: fill_hole_def k_def)
  have ep: "end_alloc_page (fill_hole h rc s) = max (start_pfn h + k) (end_alloc_page s)"
    by (auto simp: fill_hole_def k_def)
  have rest: "first_bulk_page (fill_hole h rc s) = first_bulk_page s"
    "max_end_alloc_page (fill_hole h rc s) = max_end_alloc_page s" by (simp_all add: fill_hole_def)
  have each: "first_bulk_page s \<le> start_pfn g \<and> start_pfn g \<le> end_pfn g \<and>
        (start_pfn g = end_pfn g \<longrightarrow> end_pfn g = max_end_alloc_page s) \<and> end_pfn g \<le> max_end_alloc_page s \<and>
        (\<forall>p. start_pfn g \<le> p \<and> p < end_pfn g \<longrightarrow> allocated_in_map (alloc_bitmap (fill_hole h rc s)) p)"
    if "g \<in> set hs \<or> k < end_pfn h - start_pfn h \<and> g = h\<lparr>start_pfn := start_pfn h + k\<rparr>" for g
    using that
  proof
    assume g: "g \<in> set hs"
    then have "end_pfn h \<le> start_pfn g" using sorted(1) by blast
    with g k ok hl show ?thesis by (auto simp: holes_ok_def al)
  next
    assume "k < end_pfn h - start_pfn h \<and> g = h\<lparr>start_pfn := start_pfn h + k\<rparr>"
    with h k ok hl show ?thesis by (auto simp: holes_ok_def al)
  qed
  have "\<forall>p. end_alloc_page (fill_hole h rc s) \<le> p \<and> p < max_end_alloc_page s \<longrightarrow>
            allocated_in_map (alloc_bitmap (fill_hole h rc s)) p"
    using ok by (auto simp: holes_ok_def al ep)
  moreover have "sorted_wrt (\<lambda>a b. end_pfn a \<le> start_pfn b) (memory_hole_list (fill_hole h rc s))"
    using holes sorted by auto
  moreover have "g \<in> set hs \<or> k < end_pfn h - start_pfn h \<and> g = h\<lparr>start_pfn := start_pfn h + k\<rparr>"
    if "g \<in> set (memory_hole_list (fill_hole h rc s))" for g using that holes by auto
  moreover have "end_alloc_page (fill_hole h rc s) \<le> max_end_alloc_page s"
    using ok h k by (simp add: ep holes_ok_def)
  ultimately show ?thesis
    unfolding holes_ok_def rest using each by blast
qed

lemma fill_hole_pages:
  assumes "memory_hole_list s = h # hs" "0 < rc" "rc \<le> int (end_pfn h - start_pfn h)"
  shows "hole_pages (fill_hole h rc s) + nat rc = hole_pages s"
  using assms by (auto simp: hole_pages_def fill_hole_def)

text \<open>The pages in use: allocated pages of the pool that are not in a hole.\<close>

definition in_hole :: "mm \<Rightarrow> nat \<Rightarrow> bool" where
  "in_hole s p \<longleftrightarrow> (\<exists>h \<in> set (memory_hole_list s). start_pfn h \<le> p \<and> p < end_pfn h)"

definition mm_used :: "mm \<Rightarrow> nat set" where
  "mm_used s = {p. first_alloc_page s \<le> p \<and> p < end_alloc_page s
                   \<and> allocated_in_map (alloc_bitmap s) p \<and> \<not> in_hole s p}"

lemma same_shape_used: "same_shape s t \<Longrightarrow> mm_used s \<subseteq> mm_used t"
  by (auto simp: same_shape_def mm_used_def in_hole_def)

lemma fill_hole_used:
  assumes "memory_hole_list s = h # hs" and "0 < rc" and "rc \<le> int (end_pfn h - start_pfn h)"
  shows "mm_used s \<subseteq> mm_used (fill_hole h rc s)"
proof
  fix p assume p: "p \<in> mm_used s"
  have "start_pfn h + nat rc \<le> end_pfn h" using assms by linarith
  with p assms(1) have "\<not> (start_pfn h \<le> p \<and> p < start_pfn h + nat rc)"
    by (auto simp: mm_used_def in_hole_def)
  moreover have "\<not> in_hole (fill_hole h rc s) p"
    using p assms(1) by (auto simp: mm_used_def in_hole_def fill_hole_def split: if_splits)
  ultimately show "p \<in> mm_used (fill_hole h rc s)"
    using p by (auto simp: mm_used_def fill_hole_def map_free_iff)
qed

text \<open>
  The loop never reads past the last hole when the holes hold enough pages, adds at most the
  pages asked for, and takes exactly what it adds from the holes.
\<close>

lemma increase_loop_inv:
  assumes "reservation_ok ir" and "pool_inv s" and "n \<le> hole_pages s"
  shows "\<exists>t r. increase_loop ir n res s = Inr (t, res + int r) \<and> r \<le> n \<and> pool_inv t \<and>
               hole_pages t + r = hole_pages s \<and> max_end_alloc_page t = max_end_alloc_page s \<and>
               first_alloc_page t = first_alloc_page s \<and> first_bulk_page t = first_bulk_page s \<and> mm_used s \<subseteq> mm_used t"
  using assms(2,3)
proof (induction n arbitrary: res s rule: less_induct)
  case (less n)
  show ?case
  proof (cases "n = 0")
    case True
    then have "increase_loop ir n res s = Inr (s, res + int 0)" by (subst increase_loop.simps) simp
    with less.prems True show ?thesis by fastforce
  next
    case n0: False
    with less.prems(2) obtain h hs where hl: "memory_hole_list s = h # hs"
      by (cases "memory_hole_list s") (auto simp: hole_pages_def)
    define nn where "nn = (if end_pfn h - start_pfn h \<le> n then end_pfn h - start_pfn h else n)"
    obtain s1 rc where ir: "ir nn h s = (s1, rc)" by (metis surj_pair)
    have step: "increase_loop ir n res s =
        (if rc > 0 then increase_loop ir (n - nat rc) (res + rc) (fill_hole h rc s1) else Inr (s1, res))"
      using n0 hl ir by (subst increase_loop.simps) (simp add: nn_def Let_def)
    note c = reservation_pool_inv [OF assms(1) ir less.prems(1)]
    have s1: "memory_hole_list s1 = h # hs" "max_end_alloc_page s1 = max_end_alloc_page s"
      "hole_pages s1 = hole_pages s" "first_alloc_page s1 = first_alloc_page s"
      "first_bulk_page s1 = first_bulk_page s"
      using c(3) hl by (simp_all add: same_shape_def hole_pages_def)
    show ?thesis
    proof (cases "rc > 0")
      case False
      with step c(1) s1 same_shape_used [OF c(3)] show ?thesis
        by (intro exI [of _ s1] exI [of _ 0]) simp
    next
      case True
      have rc: "rc \<le> int (end_pfn h - start_pfn h)" "nat rc \<le> n"
        using c(2) by (auto simp: nn_def split: if_splits)
      have us: "mm_used s \<subseteq> mm_used (fill_hole h rc s1)"
        using same_shape_used [OF c(3)] fill_hole_used [OF s1(1) True rc(1)] by blast
      have inv': "pool_inv (fill_hole h rc s1)"
        using c(1) s1(1) True rc(1) fill_hole_mm_inv fill_hole_holes_ok unfolding pool_inv_def by blast
      have hp: "hole_pages (fill_hole h rc s1) + nat rc = hole_pages s"
        using fill_hole_pages [OF s1(1) True rc(1)] s1(3) by simp
      have "n - nat rc < n" "n - nat rc \<le> hole_pages (fill_hole h rc s1)"
        using n0 True hp less.prems(2) by auto
      from less.IH [OF this(1) inv' this(2), of "res + rc"] obtain t r where
        tr: "increase_loop ir (n - nat rc) (res + rc) (fill_hole h rc s1) = Inr (t, res + rc + int r)"
        "r \<le> n - nat rc" "pool_inv t" "hole_pages t + r = hole_pages (fill_hole h rc s1)"
        "max_end_alloc_page t = max_end_alloc_page (fill_hole h rc s1)"
        "first_alloc_page t = first_alloc_page (fill_hole h rc s1)"
        "first_bulk_page t = first_bulk_page (fill_hole h rc s1)"
        "mm_used (fill_hole h rc s1) \<subseteq> mm_used t" by blast
      moreover have "max_end_alloc_page (fill_hole h rc s1) = max_end_alloc_page s"
        "first_alloc_page (fill_hole h rc s1) = first_alloc_page s"
        "first_bulk_page (fill_hole h rc s1) = first_bulk_page s"
        using s1(2,4,5) by (simp_all add: fill_hole_def)
      moreover have "nat rc + r \<le> n" "mm_used s \<subseteq> mm_used t"
        using tr(2,8) rc(2) us by auto
      ultimately show ?thesis using True hp
        by (intro exI [of _ t] exI [of _ "nat rc + r"]) (simp add: step)
    qed
  qed
qed

lemma can_increase_iff:
  "can_increase hs n > 0 \<longleftrightarrow> 0 < n \<and> n \<le> (\<Sum>h \<leftarrow> hs. end_pfn h - start_pfn h)"
  by (induction hs n rule: can_increase.induct) (auto simp: Let_def)

lemma pool_inv_flag [simp]: "pool_inv (s\<lparr>in_increase_memory := b\<rparr>) = pool_inv s"
  by (simp add: pool_inv_def mm_inv_def holes_ok_def mm_free_def)

lemma views_flag [simp]:
  "mm_used (s\<lparr>in_increase_memory := b\<rparr>) = mm_used s"
  "hole_pages (s\<lparr>in_increase_memory := b\<rparr>) = hole_pages s"
  by (simp_all add: mm_used_def in_hole_def hole_pages_def)

lemma increase_memory_inv:
  assumes "reservation_ok ir" and "pool_inv s"
  shows "\<exists>t r. increase_memory_holding_lock ir n s = Inr (t, int r) \<and> r \<le> n \<and> pool_inv t \<and>
               hole_pages t + r = hole_pages s \<and> max_end_alloc_page t = max_end_alloc_page s \<and>
               first_alloc_page t = first_alloc_page s \<and> first_bulk_page t = first_bulk_page s \<and> mm_used s \<subseteq> mm_used t"
proof (cases "\<not> in_increase_memory s \<and> can_increase (memory_hole_list s) n > 0")
  case True
  define s0 where "s0 = s\<lparr>in_increase_memory := True\<rparr>"
  have "n \<le> hole_pages s0" using True by (simp add: can_increase_iff hole_pages_def s0_def)
  moreover have "pool_inv s0" using assms(2) by (simp add: s0_def)
  ultimately obtain t r where "increase_loop ir n 0 s0 = Inr (t, 0 + int r)" "r \<le> n" "pool_inv t"
    "hole_pages t + r = hole_pages s0" "max_end_alloc_page t = max_end_alloc_page s0"
    "first_alloc_page t = first_alloc_page s0" "first_bulk_page t = first_bulk_page s0" "mm_used s0 \<subseteq> mm_used t"
    using increase_loop_inv [OF assms(1), of s0 n 0] by blast
  with True show ?thesis
    by (intro exI [of _ "t\<lparr>in_increase_memory := False\<rparr>"] exI [of _ r])
       (simp add: increase_memory_holding_lock_def s0_def)
next
  case False
  with assms(2) show ?thesis
    by (intro exI [of _ "s\<lparr>in_increase_memory := False\<rparr>"] exI [of _ 0])
       (auto simp: increase_memory_holding_lock_def)
qed

section \<open>Allocation with a pool that can grow\<close>

lemma take_pages_holes_ok [guk_inv]: "holes_ok s \<Longrightarrow> holes_ok (take_pages b p n s)"
  by (simp add: holes_ok_def map_alloc_iff)

lemma take_pages_used:
  assumes "{p..<p + nat n} \<subseteq> mm_free s" and "holes_ok s"
  shows "mm_used (take_pages b p n s) = mm_used s \<union> {p..<p + nat n}"
    and "mm_used s \<inter> {p..<p + nat n} = {}"
proof -
  have "\<not> in_hole s q" if "q \<in> mm_free s" for q
    using that assms(2) by (auto simp: mm_free_def in_hole_def holes_ok_def)
  then show "mm_used (take_pages b p n s) = mm_used s \<union> {p..<p + nat n}"
    using assms(1) by (auto simp: mm_used_def in_hole_def map_alloc_iff mm_free_def)
  show "mm_used s \<inter> {p..<p + nat n} = {}"
    using assms(1) by (auto simp: mm_used_def mm_free_def)
qed

text \<open>
  What every allocation promises: a null result, or pages that nobody holds, for a bulk request
  pages of the bulk region.
\<close>

definition allocated_fresh :: "u64 \<Rightarrow> int \<Rightarrow> mm \<Rightarrow> mm \<Rightarrow> u64 \<Rightarrow> bool" where
  "allocated_fresh v n s t r \<longleftrightarrow>
     (r = 0 \<and> mm_used s \<subseteq> mm_used t) \<or>
     (\<exists>p. r = pfn_to_virt v p \<and> p + nat n \<le> end_alloc_page t \<and> (is_bulk n \<longrightarrow> first_bulk_page t \<le> p) \<and>
          {p..<p + nat n} \<inter> mm_used s = {} \<and> mm_used s \<union> {p..<p + nat n} \<subseteq> mm_used t)"

lemma allocated_fresh_found:
  assumes "pool_inv s" and "region_search b n s = Some p" and "1 \<le> n" and "is_bulk n \<longrightarrow> b"
  shows "pool_inv (take_pages b p n s)" and "allocated_fresh v n s (take_pages b p n s) (pfn_to_virt v p)"
proof -
  have inv: "mm_inv s" "holes_ok s" using assms(1) by (simp_all add: pool_inv_def)
  note f = region_search_free [OF inv(1) assms(2,3)]
  show "pool_inv (take_pages b p n s)"
    using take_pages_inv [OF inv(1) assms(3) f(1,3)] take_pages_holes_ok [OF inv(2)]
    by (simp add: pool_inv_def)
  show "allocated_fresh v n s (take_pages b p n s) (pfn_to_virt v p)"
    unfolding allocated_fresh_def using f(2,3) take_pages_used [OF f(1) inv(2)] inv(1) assms(4)
    by (intro disjI2 exI [of _ p]) (auto simp: mm_inv_def split: if_splits)
qed

lemma allocated_fresh_mono:
  "allocated_fresh v n s' t r \<Longrightarrow> mm_used s \<subseteq> mm_used s' \<Longrightarrow> allocated_fresh v n s t r"
  unfolding allocated_fresh_def by blast

lemma allocate_loop_bulk:
  assumes ir: "reservation_ok ir" and n: "1 \<le> n"
    and v: "\<forall>p. lo \<le> p \<and> p < hi \<longrightarrow> pfn_to_virt v p \<noteq> 0"
    and "pool_inv s" and "lo \<le> first_alloc_page s" and "max_end_alloc_page s \<le> hi"
  shows "\<exists>t r. allocate_loop v (\<lambda>k. increase_memory_holding_lock ir (nat k)) n True s = Some (Inr (t, r))
               \<and> pool_inv t \<and> allocated_fresh v n s t r \<and>
               first_alloc_page t = first_alloc_page s \<and> max_end_alloc_page t = max_end_alloc_page s \<and>
               first_bulk_page t = first_bulk_page s"
  using assms(4-6)
proof (induction "hole_pages s" arbitrary: s rule: less_induct)
  case less
  show ?case
  proof (cases "region_search True n s")
    case (Some p)
    have "p + nat n \<le> end_alloc_page s" "end_alloc_page s \<le> max_end_alloc_page s"
      using region_search_free(2) [OF _ Some n] less.prems(1) by (simp_all add: pool_inv_def holes_ok_def)
    moreover have "first_alloc_page s \<le> p"
      using region_search_free(3) [OF _ Some n] less.prems(1) by (simp add: pool_inv_def mm_inv_def)
    ultimately have "lo \<le> p" "p < hi" using less.prems(2,3) n by linarith+
    with v allocate_loop_found [OF Some] allocated_fresh_found [OF less.prems(1) Some n] take_pages_simps(5)
    show ?thesis by auto
  next
    case None
    obtain t r where t: "increase_memory_holding_lock ir (nat n) s = Inr (t, int r)" "pool_inv t"
      "hole_pages t + r = hole_pages s" "max_end_alloc_page t = max_end_alloc_page s"
      "first_alloc_page t = first_alloc_page s" "first_bulk_page t = first_bulk_page s" "mm_used s \<subseteq> mm_used t"
      using increase_memory_inv [OF ir less.prems(1), of "nat n"] by blast
    show ?thesis
    proof (cases "r = 0")
      case True
      with allocate_loop_grow [OF None, of "\<lambda>k. increase_memory_holding_lock ir (nat k)"] t
      show ?thesis by (auto simp: allocated_fresh_def)
    next
      case False
      from False t less have "\<exists>t' r'. allocate_loop v (\<lambda>k. increase_memory_holding_lock ir (nat k)) n True t
          = Some (Inr (t', r')) \<and> pool_inv t' \<and> allocated_fresh v n t t' r' \<and>
          first_alloc_page t' = first_alloc_page t \<and> max_end_alloc_page t' = max_end_alloc_page t \<and>
          first_bulk_page t' = first_bulk_page t" by (intro less.hyps) auto
      with False allocate_loop_grow [OF None, of "\<lambda>k. increase_memory_holding_lock ir (nat k)"] t
      show ?thesis by (auto intro: allocated_fresh_mono)
    qed
  qed
qed

section \<open>The initial pool\<close>

lemma init_free:
  assumes "min_pfn + xen_max div BITS_PER_PAGE \<le> max_pfn" and "max_pfn < 2 ^ 64"
  shows "mm_free (init_page_allocator mem xen_max opt min_pfn max_pfn)
           = {min_pfn + xen_max div BITS_PER_PAGE..<max_pfn}"
proof -
  define first where "first = min_pfn + xen_max div BITS_PER_PAGE"
  have "unat (of_nat max_pfn - of_nat first :: u64) = max_pfn - first"
    using assms by (intro unat_of_nat_diff) (simp_all add: first_def)
  then show ?thesis
    using assms by (auto simp: init_page_allocator_def Let_def mm_free_def map_free_iff first_def)
qed

lemma init_mm_inv:
  assumes "min_pfn + xen_max div BITS_PER_PAGE \<le> max_pfn" and "max_pfn < 2 ^ 64"
  shows "mm_inv (init_page_allocator mem xen_max opt min_pfn max_pfn)"
    and "bulk_hint (init_page_allocator mem xen_max opt min_pfn max_pfn)"
proof -
  note free = init_free [OF assms, of mem opt]
  show "mm_inv (init_page_allocator mem xen_max opt min_pfn max_pfn)"
    unfolding mm_inv_def free using assms(1)
    by (simp add: init_page_allocator_def Let_def of_nat_diff)
  show "bulk_hint (init_page_allocator mem xen_max opt min_pfn max_pfn)"
    unfolding bulk_hint_def free by (simp add: init_page_allocator_def Let_def)
qed

text \<open>
  The bitmap is cleared to allocated for whole bitmap pages only; past them the bits are those
  the memory held.
\<close>

lemma init_tail:
  assumes "min_pfn + xen_max div BITS_PER_PAGE \<le> max_pfn" and "max_pfn < 2 ^ 64" and "max_pfn \<le> p"
  shows "allocated_in_map (alloc_bitmap (init_page_allocator mem xen_max opt min_pfn max_pfn)) p \<longleftrightarrow>
         p < xen_max div BITS_PER_PAGE * BITS_PER_PAGE \<or> allocated_in_map mem p"
proof -
  have "p div 64 < xen_max div BITS_PER_PAGE * 512 \<longleftrightarrow> p < xen_max div BITS_PER_PAGE * BITS_PER_PAGE"
    by (simp add: BITS_PER_PAGE_def div_less_iff_less_mult mult.assoc)
  then have "allocated_in_map (\<lambda>i. if i < xen_max div BITS_PER_PAGE * 512 then - 1 else mem i) p \<longleftrightarrow>
      p < xen_max div BITS_PER_PAGE * BITS_PER_PAGE \<or> allocated_in_map mem p"
    by (auto simp: allocated_iff_bit)
  moreover have "unat (of_nat max_pfn - of_nat (min_pfn + xen_max div BITS_PER_PAGE) :: u64)
        = max_pfn - (min_pfn + xen_max div BITS_PER_PAGE)"
    using assms(1,2) by (rule unat_of_nat_diff)
  ultimately show ?thesis
    using assms(1,3) by (simp add: init_page_allocator_def Let_def map_free_iff)
qed

lemma init_holes_ok:
  assumes "min_pfn + xen_max div BITS_PER_PAGE \<le> max_pfn" and "max_pfn < 2 ^ 64" and "max_pfn \<le> xen_max"
  shows "holes_ok (init_page_allocator mem xen_max opt min_pfn max_pfn) \<longleftrightarrow>
         (\<forall>p. max_pfn \<le> p \<and> p < xen_max \<and> xen_max div BITS_PER_PAGE * BITS_PER_PAGE \<le> p \<longrightarrow>
              allocated_in_map mem p)"
proof -
  have f: "end_alloc_page (init_page_allocator mem xen_max opt min_pfn max_pfn) = max_pfn"
    "max_end_alloc_page (init_page_allocator mem xen_max opt min_pfn max_pfn) = xen_max"
    "memory_hole_list (init_page_allocator mem xen_max opt min_pfn max_pfn) = []"
    by (simp_all add: init_page_allocator_def Let_def)
  show ?thesis
    unfolding holes_ok_def f using assms(3) init_tail [OF assms(1,2)] by (auto simp: not_less)
qed

section \<open>Shrinking the pool\<close>

text \<open>The free pages of the bulk region, below a bound.\<close>

definition bulk_free :: "bitmap \<Rightarrow> nat \<Rightarrow> nat \<Rightarrow> nat set" where
  "bulk_free m f e = {p. f \<le> p \<and> p < e \<and> \<not> allocated_in_map m p}"

lemma bulk_free_finite [simp]: "finite (bulk_free m f e)"
  by (rule finite_subset [of _ "{..<e}"]) (auto simp: bulk_free_def)

lemma bulk_free_Suc:
  "bulk_free m f (Suc p) =
     (if f \<le> p \<and> \<not> allocated_in_map m p then insert p (bulk_free m f p) else bulk_free m f p)"
  by (auto simp: bulk_free_def less_Suc_eq)

lemma card_bulk_free_Suc:
  "card (bulk_free m f (Suc p)) =
     (if f \<le> p \<and> \<not> allocated_in_map m p then Suc (card (bulk_free m f p)) else card (bulk_free m f p))"
proof -
  have "p \<notin> bulk_free m f p" by (simp add: bulk_free_def)
  then show ?thesis by (simp add: bulk_free_Suc)
qed

lemma bulk_free_below: "p < f \<Longrightarrow> bulk_free m f (Suc p) = {}"
  by (auto simp: bulk_free_def)

lemma free_down_spec:
  assumes "2 \<le> f"
  shows "\<exists>p' n'. free_down m f p n = Inr (p', n') \<and> p' \<le> p \<and>
           (p' < f \<or> allocated_in_map m p') \<and>
           (f \<le> p \<longrightarrow> f \<le> Suc p') \<and>
           n' + card (bulk_free m f (Suc p')) = n + card (bulk_free m f (Suc p))"
proof (induction p arbitrary: n)
  case 0
  with assms show ?case by (subst free_down.simps) (simp add: bulk_free_below)
next
  case (Suc p)
  show ?case
  proof (cases "\<not> allocated_in_map m (Suc p) \<and> f \<le> Suc p")
    case True
    then have eq: "free_down m f (Suc p) n = free_down m f p (Suc n)"
      by (subst free_down.simps) simp
    from Suc [of "Suc n"] obtain p' n' where p: "free_down m f p (Suc n) = Inr (p', n')" "p' \<le> p"
      "p' < f \<or> allocated_in_map m p'" "f \<le> p \<longrightarrow> f \<le> Suc p'"
      "n' + card (bulk_free m f (Suc p')) = Suc n + card (bulk_free m f (Suc p))" by blast
    have "f \<le> Suc p'"
    proof (cases "f \<le> p")
      case False
      with True have "p < f" by simp
      then have "free_down m f p (Suc n) = Inr (p, Suc n)" by (subst free_down.simps) simp
      with p True show ?thesis by simp
    qed (use p in simp)
    with p True show ?thesis
      by (simp add: eq card_bulk_free_Suc [of m f "Suc p"])
  next
    case False
    then have "free_down m f (Suc p) n = Inr (Suc p, n)" by (subst free_down.simps) auto
    with False show ?thesis by auto
  qed
qed

lemma decreaseable_loop_spec:
  assumes f: "2 \<le> f" and "f \<le> Suc (Suc p)"
  shows "decreaseable_loop m f p n = Inr (n + card (bulk_free m f (Suc p)))"
  using assms(2)
proof (induction p arbitrary: n rule: less_induct)
  case (less p)
  show ?case
  proof (cases "f \<le> p")
    case False
    then show ?thesis by (subst decreaseable_loop.simps) (simp add: bulk_free_below)
  next
    case fp: True
    obtain p' n' where d: "(if \<not> allocated_in_map m p then free_down m f p n else Inr (p, n)) = Inr (p', n')"
      and le: "p' \<le> p" "f \<le> Suc p'" and st: "p' < f \<or> allocated_in_map m p'"
      and cd: "n' + card (bulk_free m f (Suc p')) = n + card (bulk_free m f (Suc p))"
      using free_down_spec [OF f, of m p n] fp by (cases "allocated_in_map m p") auto
    have p0: "p' \<noteq> 0" using le f by simp
    then obtain q where q: "p' = Suc q" using not0_implies_Suc by blast
    have "card (bulk_free m f (Suc p')) = card (bulk_free m f (Suc q))"
      using st by (auto simp: card_bulk_free_Suc [of m f "Suc q"] q)
    moreover have "decreaseable_loop m f p n = decreaseable_loop m f q n'"
      using fp d q by (subst decreaseable_loop.simps) simp
    moreover have "decreaseable_loop m f q n' = Inr (n' + card (bulk_free m f (Suc q)))"
      using less.IH [of q n'] le q by simp
    ultimately show ?thesis using cd by simp
  qed
qed

lemma set_memory_hole_add [simp]: "set (memory_hole_add h hs) = insert h (set hs)"
  by (induction h hs rule: memory_hole_add.induct) auto

lemma sum_memory_hole_add [simp]:
  "(\<Sum>g \<leftarrow> memory_hole_add h hs. f g :: 'a::comm_monoid_add) = f h + (\<Sum>g \<leftarrow> hs. f g)"
  by (induction h hs rule: memory_hole_add.induct) (auto simp: add.left_commute)

text \<open>Adding a hole that overlaps no other keeps the list ordered.\<close>

lemma sorted_memory_hole_add:
  assumes "sorted_wrt (\<lambda>a b. end_pfn a \<le> start_pfn b) hs"
    and "\<forall>g \<in> set hs. end_pfn g \<le> start_pfn h \<or> end_pfn h \<le> start_pfn g"
    and "\<forall>g \<in> set hs. start_pfn g \<le> end_pfn g" and "start_pfn h < end_pfn h"
  shows "sorted_wrt (\<lambda>a b. end_pfn a \<le> start_pfn b) (memory_hole_add h hs)"
  using assms
proof (induction h hs rule: memory_hole_add.induct)
  case (2 new h hs)
  show ?case
  proof (cases "start_pfn h > start_pfn new")
    case True
    then have "end_pfn new \<le> start_pfn h" using 2(3,4) by fastforce
    moreover have "end_pfn new \<le> start_pfn g" if "g \<in> set hs" for g
      using calculation 2(2,4) that by fastforce
    ultimately show ?thesis using True 2(2) by simp
  next
    case False
    then have "end_pfn h \<le> start_pfn new" using 2(3,5) by fastforce
    with False 2 show ?thesis by simp
  qed
qed simp

lemma record_hole_simps [simp]:
  "first_alloc_page (record_hole h rc s) = first_alloc_page s"
  "max_end_alloc_page (record_hole h rc s) = max_end_alloc_page s"
  "first_free_page (record_hole h rc s) = first_free_page s"
  "first_bulk_page (record_hole h rc s) = first_bulk_page s"
  "first_free_bulk_page (record_hole h rc s) = first_free_bulk_page s"
  "num_free_pages (record_hole h rc s) = num_free_pages s - of_int rc"
  "alloc_bitmap (record_hole h rc s) = map_alloc (alloc_bitmap s) (start_pfn h) (nat rc)"
  by (simp_all add: record_hole_def)

text \<open>
  Recording a hole made of free bulk pages removes exactly those pages from the free pages
  and keeps the pool consistent; the pages in use do not change.
\<close>

definition new_hole :: "mm \<Rightarrow> memory_hole \<Rightarrow> bool" where
  "new_hole s h \<longleftrightarrow> first_bulk_page s \<le> start_pfn h \<and> start_pfn h < end_pfn h \<and>
     {start_pfn h..<end_pfn h} \<subseteq> mm_free s"

lemma new_hole_disjoint:
  assumes "holes_ok s" and "new_hole s h" and g: "g \<in> set (memory_hole_list s)"
  shows "end_pfn g \<le> start_pfn h \<or> end_pfn h \<le> start_pfn g"
proof (rule ccontr)
  assume c: "\<not> ?thesis"
  define q where "q = max (start_pfn g) (start_pfn h)"
  have h: "start_pfn h < end_pfn h" "{start_pfn h..<end_pfn h} \<subseteq> mm_free s"
    using assms(2) by (simp_all add: new_hole_def)
  have "end_pfn h - 1 \<in> mm_free s" using h by (intro subsetD [OF h(2)]) auto
  then have "end_pfn h \<le> max_end_alloc_page s" using assms(1) by (auto simp: mm_free_def holes_ok_def)
  then have "start_pfn g < end_pfn g"
    using c g assms(1) unfolding holes_ok_def by (metis le_neq_implies_less linorder_not_le)
  then have "q \<in> mm_free s" "start_pfn g \<le> q" "q < end_pfn g"
    using c h by (auto simp: q_def intro!: subsetD [OF h(2)])
  then show False using assms(1) g by (auto simp: mm_free_def holes_ok_def)
qed

lemma new_hole_le_end:
  assumes "new_hole s h" shows "end_pfn h \<le> end_alloc_page s" and "first_alloc_page s \<le> start_pfn h"
proof -
  have h: "start_pfn h < end_pfn h" "{start_pfn h..<end_pfn h} \<subseteq> mm_free s"
    using assms by (simp_all add: new_hole_def)
  then have "end_pfn h - 1 \<in> mm_free s" "start_pfn h \<in> mm_free s"
    by (auto intro!: subsetD [OF h(2)])
  with h(1) show "end_pfn h \<le> end_alloc_page s" "first_alloc_page s \<le> start_pfn h"
    by (auto simp: mm_free_def)
qed

lemma record_hole_free:
  assumes "new_hole s h" and "rc = int (end_pfn h - start_pfn h)"
  shows "mm_free (record_hole h rc s) = mm_free s - {start_pfn h..<end_pfn h}"
  using assms new_hole_le_end [OF assms(1)]
  by (auto simp: mm_free_def record_hole_def map_alloc_iff new_hole_def)

lemma record_hole_mm_inv [guk_inv]:
  assumes inv: "mm_inv s" and h: "new_hole s h" and rc: "rc = int (end_pfn h - start_pfn h)"
  shows "mm_inv (record_hole h rc s)"
proof -
  define k where "k = end_pfn h - start_pfn h"
  have e: "end_pfn h = start_pfn h + k" using h by (simp add: new_hole_def k_def)
  have "(of_nat (card (mm_free s - {start_pfn h..<start_pfn h + k})) :: u64)
        = of_nat (card (mm_free s)) - of_nat k"
    using h e by (intro of_nat_card_diff) (simp_all add: new_hole_def)
  then have "num_free_pages (record_hole h rc s) = of_nat (card (mm_free (record_hole h rc s)))"
    using inv unfolding record_hole_free [OF h rc] by (simp add: mm_inv_def rc e)
  moreover have "first_bulk_page s \<le> end_alloc_page (record_hole h rc s)"
    using inv h new_hole_le_end [OF h] by (auto simp: record_hole_def mm_inv_def new_hole_def rc)
  ultimately show ?thesis
    using inv unfolding mm_inv_def record_hole_free [OF h rc] by simp
qed

lemma record_hole_list:
  assumes "holes_ok s" and "new_hole s h"
  shows "memory_hole_list (record_hole h rc s) = memory_hole_add h (memory_hole_list s) \<or>
         (\<exists>g gs. memory_hole_list s = g # gs \<and> end_pfn h = start_pfn g \<and>
                 memory_hole_list (record_hole h rc s) = g\<lparr>start_pfn := start_pfn h\<rparr> # gs)"
  by (auto simp: record_hole_def split: list.splits)

lemma record_hole_in_hole:
  assumes "holes_ok s" and "new_hole s h"
  shows "in_hole (record_hole h rc s) p \<longleftrightarrow> in_hole s p \<or> start_pfn h \<le> p \<and> p < end_pfn h"
  using record_hole_list [OF assms, of rc]
proof
  assume "\<exists>g gs. memory_hole_list s = g # gs \<and> end_pfn h = start_pfn g \<and>
            memory_hole_list (record_hole h rc s) = g\<lparr>start_pfn := start_pfn h\<rparr> # gs"
  then obtain g gs where g: "memory_hole_list s = g # gs" "end_pfn h = start_pfn g"
    "memory_hole_list (record_hole h rc s) = g\<lparr>start_pfn := start_pfn h\<rparr> # gs" by blast
  have "start_pfn g \<le> end_pfn g" "start_pfn h < end_pfn h"
    using assms g(1) by (auto simp: holes_ok_def new_hole_def)
  with g show ?thesis by (auto simp: in_hole_def)
qed (auto simp: in_hole_def)

lemma record_hole_used:
  assumes "holes_ok s" and h: "new_hole s h" and rc: "rc = int (end_pfn h - start_pfn h)"
  shows "mm_used (record_hole h rc s) = mm_used s"
proof -
  have free: "p < start_pfn h \<or> end_pfn h \<le> p" if "allocated_in_map (alloc_bitmap s) p" for p
  proof (rule ccontr)
    assume "\<not> ?thesis"
    then have "p \<in> mm_free s" using h by (auto simp: new_hole_def)
    with that show False by (simp add: mm_free_def)
  qed
  have lt: "start_pfn h < end_pfn h" using h by (simp add: new_hole_def)
  have "start_pfn h + nat rc = end_pfn h" using h rc by (auto simp: new_hole_def)
  then have al: "allocated_in_map (alloc_bitmap (record_hole h rc s)) p \<longleftrightarrow>
       start_pfn h \<le> p \<and> p < end_pfn h \<or> allocated_in_map (alloc_bitmap s) p" for p
    by (simp add: map_alloc_iff)
  have ep: "end_alloc_page (record_hole h rc s) =
       (if end_alloc_page s = end_pfn h then start_pfn h else end_alloc_page s)"
    using h rc by (auto simp: record_hole_def new_hole_def)
  show ?thesis
  proof (rule set_eqI)
    fix p
    show "p \<in> mm_used (record_hole h rc s) \<longleftrightarrow> p \<in> mm_used s"
      unfolding mm_used_def mem_Collect_eq al ep record_hole_in_hole [OF assms(1) h] record_hole_simps(1)
      using free [of p] lt new_hole_le_end [OF h] by (cases "end_alloc_page s = end_pfn h") auto
  qed
qed

lemma record_hole_holes_ok [guk_inv]:
  assumes ok: "holes_ok s" and h: "new_hole s h" and rc: "rc = int (end_pfn h - start_pfn h)"
  shows "holes_ok (record_hole h rc s)"
proof -
  have e: "start_pfn h + nat rc = end_pfn h" and h': "start_pfn h < end_pfn h"
    "first_bulk_page s \<le> start_pfn h"
    using h rc by (auto simp: new_hole_def)
  note le = new_hole_le_end [OF h]
  have ep: "end_alloc_page (record_hole h rc s) =
       (if end_alloc_page s = end_pfn h then start_pfn h else end_alloc_page s)"
    using h rc by (auto simp: record_hole_def new_hole_def)
  have al: "allocated_in_map (alloc_bitmap (record_hole h rc s)) p \<longleftrightarrow>
       start_pfn h \<le> p \<and> p < end_pfn h \<or> allocated_in_map (alloc_bitmap s) p" for p
    using e by (simp add: map_alloc_iff)
  have ok': "end_alloc_page s \<le> max_end_alloc_page s"
    "sorted_wrt (\<lambda>a b. end_pfn a \<le> start_pfn b) (memory_hole_list s)"
    "\<And>p. end_alloc_page s \<le> p \<Longrightarrow> p < max_end_alloc_page s \<Longrightarrow> allocated_in_map (alloc_bitmap s) p"
    "\<And>g. g \<in> set (memory_hole_list s) \<Longrightarrow> start_pfn g \<le> end_pfn g"
    using ok by (simp_all add: holes_ok_def)
  note disj = new_hole_disjoint [OF ok h]
  have srt: "sorted_wrt (\<lambda>a b. end_pfn a \<le> start_pfn b) (memory_hole_list (record_hole h rc s))"
    using record_hole_list [OF ok h, of rc]
  proof
    assume "memory_hole_list (record_hole h rc s) = memory_hole_add h (memory_hole_list s)"
    then show ?thesis using sorted_memory_hole_add [OF ok'(2) _ _ h'(1)] disj ok'(4) by simp
  qed (use ok'(2) in auto)
  have each: "first_bulk_page s \<le> start_pfn g \<and> start_pfn g \<le> end_pfn g \<and>
        (start_pfn g = end_pfn g \<longrightarrow> end_pfn g = max_end_alloc_page s) \<and>
        end_pfn g \<le> max_end_alloc_page s"
    if "g \<in> set (memory_hole_list (record_hole h rc s))" for g
    using record_hole_list [OF ok h, of rc]
  proof
    assume "memory_hole_list (record_hole h rc s) = memory_hole_add h (memory_hole_list s)"
    then have "g = h \<or> g \<in> set (memory_hole_list s)" using that by simp
    then show ?thesis using ok ok'(1) h' le(1) by (auto simp: holes_ok_def)
  next
    assume "\<exists>k ks. memory_hole_list s = k # ks \<and> end_pfn h = start_pfn k \<and>
              memory_hole_list (record_hole h rc s) = k\<lparr>start_pfn := start_pfn h\<rparr> # ks"
    then obtain k ks where k: "memory_hole_list s = k # ks" "end_pfn h = start_pfn k"
      "memory_hole_list (record_hole h rc s) = k\<lparr>start_pfn := start_pfn h\<rparr> # ks" by blast
    then have "g = k\<lparr>start_pfn := start_pfn h\<rparr> \<or> g \<in> set (memory_hole_list s)" using that by auto
    then show ?thesis using ok h' k(1,2) by (fastforce simp: holes_ok_def)
  qed
  have hp: "allocated_in_map (alloc_bitmap s) p" if "in_hole s p" for p
    using that ok by (auto simp: in_hole_def holes_ok_def)
  then have inh: "allocated_in_map (alloc_bitmap (record_hole h rc s)) p" if "in_hole (record_hole h rc s) p" for p
    using that unfolding al record_hole_in_hole [OF ok h] by blast
  have tail: "allocated_in_map (alloc_bitmap (record_hole h rc s)) p"
    if "end_alloc_page (record_hole h rc s) \<le> p" "p < max_end_alloc_page s" for p
    using that ok'(3) [of p] unfolding al ep by (cases "p < end_pfn h") (auto split: if_splits)
  show ?thesis
    unfolding holes_ok_def record_hole_simps
    using srt each tail inh ok'(1) le(1) h'(1) by (auto simp: in_hole_def ep)
qed

lemma free_down_upto_spec:
  assumes "2 \<le> f" and "f \<le> Suc p"
  shows "\<exists>p'. free_down_upto m f (k + j) p k = Inr (p', k + (p - p')) \<and> p' \<le> p \<and> p - p' \<le> j \<and> f \<le> Suc p' \<and>
           (\<forall>q. p' < q \<and> q \<le> p \<longrightarrow> \<not> allocated_in_map m q) \<and>
           (p - p' = j \<or> p' < f \<or> allocated_in_map m p')"
  using assms(2)
proof (induction j arbitrary: p k)
  case 0
  have "free_down_upto m f (k + 0) p k = Inr (p, k)" by (subst free_down_upto.simps) simp
  with 0 show ?case by (intro exI [of _ p]) auto
next
  case (Suc j)
  show ?case
  proof (cases "\<not> allocated_in_map m p \<and> f \<le> p")
    case False
    then have "free_down_upto m f (k + Suc j) p k = Inr (p, k)" by (subst free_down_upto.simps) auto
    with False Suc.prems show ?thesis by (intro exI [of _ p]) auto
  next
    case True
    then obtain r where r: "p = Suc r" "f \<le> Suc r" using assms(1) by (cases p) auto
    have eq: "free_down_upto m f (k + Suc j) p k = free_down_upto m f (Suc k + j) r (Suc k)"
      using True r by (subst free_down_upto.simps) simp
    from Suc.IH [OF r(2), of "Suc k"] obtain p' where
      p': "free_down_upto m f (Suc k + j) r (Suc k) = Inr (p', Suc k + (r - p'))" "p' \<le> r" "r - p' \<le> j"
      "f \<le> Suc p'" "\<forall>q. p' < q \<and> q \<le> r \<longrightarrow> \<not> allocated_in_map m q"
      "r - p' = j \<or> p' < f \<or> allocated_in_map m p'" by blast
    moreover have "\<forall>q. p' < q \<and> q \<le> p \<longrightarrow> \<not> allocated_in_map m q"
      using p'(5) True r(1) by (metis le_SucE)
    moreover have "free_down_upto m f (k + Suc j) p k = Inr (p', k + (p - p'))"
      using p'(1,2) r(1) unfolding eq by (simp add: Suc_diff_le)
    ultimately show ?thesis using r(1)
      by (intro exI [of _ p']) (auto simp: Suc_diff_le)
  qed
qed

lemma bulk_free_split:
  assumes "p' \<le> p" and "f \<le> Suc p'" and "\<forall>q. p' < q \<and> q \<le> p \<longrightarrow> \<not> allocated_in_map m q"
  shows "card (bulk_free m f (Suc p)) = (p - p') + card (bulk_free m f (Suc p'))"
proof -
  have "bulk_free m f (Suc p) = {Suc p'..<Suc p} \<union> bulk_free m f (Suc p')"
    using assms by (auto simp: bulk_free_def)
  moreover have "{Suc p'..<Suc p} \<inter> bulk_free m f (Suc p') = {}" by (auto simp: bulk_free_def)
  ultimately show ?thesis by (simp add: card_Un_disjoint)
qed

text \<open>
  The code drops the lock around \<open>xmalloc\<close>, \<open>free\<close> and \<open>decrease_reservation\<close>, which may take or give
  back small pages meanwhile. \<open>bulk_kept s t\<close> says that such a call leaves the bulk region, the
  holes and the bounds as they are; the small region may change.
\<close>

definition bulk_kept :: "mm \<Rightarrow> mm \<Rightarrow> bool" where
  "bulk_kept s t \<longleftrightarrow>
     first_alloc_page t = first_alloc_page s \<and> end_alloc_page t = end_alloc_page s \<and>
     max_end_alloc_page t = max_end_alloc_page s \<and> first_bulk_page t = first_bulk_page s \<and>
     memory_hole_list t = memory_hole_list s \<and> num_free_bulk_pages t = num_free_bulk_pages s \<and>
     (\<forall>p \<ge> first_bulk_page s. allocated_in_map (alloc_bitmap t) p = allocated_in_map (alloc_bitmap s) p) \<and>
     (mm_inv s \<longrightarrow> mm_inv t)"

text \<open>The environment of the loop: allocation and Xen succeed, and the bulk region is left alone.\<close>

definition shrink_env ::
  "(mm \<Rightarrow> mm \<times> bool) \<Rightarrow> (mm \<Rightarrow> mm) \<Rightarrow> (memory_hole \<Rightarrow> mm \<Rightarrow> guk_stop + mm \<times> int) \<Rightarrow> bool"
where
  "shrink_env xm fr dr \<longleftrightarrow>
     (\<forall>s. snd (xm s) \<and> bulk_kept s (fst (xm s))) \<and> (\<forall>s. bulk_kept s (fr s)) \<and>
     (\<forall>h s. \<exists>t. dr h s = Inr (t, int (end_pfn h - start_pfn h)) \<and> bulk_kept s t)"

lemma bulk_kept_refl: "bulk_kept s s"
  by (simp add: bulk_kept_def)

lemma bulk_kept_trans: "bulk_kept s t \<Longrightarrow> bulk_kept t u \<Longrightarrow> bulk_kept s u"
  by (simp add: bulk_kept_def)

text \<open>The free and the used pages of the bulk region.\<close>

definition bulk_pool :: "mm \<Rightarrow> nat set" where
  "bulk_pool s = {p \<in> mm_free s. first_bulk_page s \<le> p}"

definition bulk_used :: "mm \<Rightarrow> nat set" where
  "bulk_used s = {p \<in> mm_used s. first_bulk_page s \<le> p}"

lemma bulk_kept_views:
  assumes "bulk_kept s t"
  shows "bulk_pool t = bulk_pool s" and "bulk_used t = bulk_used s"
    and "bulk_free (alloc_bitmap t) (first_bulk_page t) = bulk_free (alloc_bitmap s) (first_bulk_page s)"
  using assms by (auto simp: bulk_kept_def bulk_pool_def bulk_used_def mm_free_def mm_used_def in_hole_def bulk_free_def fun_eq_iff)

lemma bulk_kept_inv:
  assumes "bulk_kept s t" and "pool_inv s" shows "pool_inv t"
proof -
  have "holes_ok s" "first_bulk_page s \<le> end_alloc_page s"
    using assms(2) by (simp_all add: pool_inv_def mm_inv_def)
  moreover have f: "end_alloc_page t = end_alloc_page s" "max_end_alloc_page t = max_end_alloc_page s"
    "first_bulk_page t = first_bulk_page s" "memory_hole_list t = memory_hole_list s"
    and al: "\<And>p. first_bulk_page s \<le> p \<Longrightarrow> allocated_in_map (alloc_bitmap t) p = allocated_in_map (alloc_bitmap s) p"
    using assms(1) by (simp_all add: bulk_kept_def)
  ultimately have "holes_ok t"
    unfolding holes_ok_def f by (auto simp: al)
  then show ?thesis using assms by (simp add: pool_inv_def bulk_kept_def)
qed

text \<open>One round on a free page: a hole is made of the run found and recorded.\<close>

lemma decrease_loop_step:
  assumes env: "shrink_env xm fr dr"
    and "first_bulk_page s \<le> p" "0 < n" "\<not> allocated_in_map (alloc_bitmap s) p"
    and run: "free_down_upto (alloc_bitmap s) (first_bulk_page s) n p 0 = Inr (Suc q, p - Suc q)" "Suc q < p"
  shows "\<exists>s2 s3. decrease_loop xm fr dr (Suc fuel) p n rc s =
             decrease_loop xm fr dr fuel q (n - (p - Suc q)) (int (p - Suc q)) s3 \<and>
           bulk_kept s s2 \<and>
           bulk_kept (record_hole \<lparr>start_pfn = Suc q + 1, end_pfn = p + 1\<rparr> (int (p - Suc q)) s2) s3"
proof -
  define h where "h = \<lparr>start_pfn = Suc q + 1, end_pfn = p + 1\<rparr>"
  obtain s1 where s1: "xm s = (s1, True)" "bulk_kept s s1"
    using env unfolding shrink_env_def by (metis prod.collapse)
  obtain s2 where s2: "dr h s1 = Inr (s2, int (end_pfn h - start_pfn h))" "bulk_kept s1 s2"
    using env unfolding shrink_env_def by blast
  have rc: "int (end_pfn h - start_pfn h) = int (p - Suc q)" by (simp add: h_def)
  define t where "t = record_hole h (int (p - Suc q)) s2"
  define s3 where "s3 = (if memory_hole_list s2 \<noteq> [] \<and> end_pfn h = start_pfn (hd (memory_hole_list s2)) then fr t else t)"
  have "bulk_kept t s3" using env bulk_kept_refl by (auto simp: s3_def shrink_env_def)
  moreover have "decrease_loop xm fr dr (Suc fuel) p n rc s =
      decrease_loop xm fr dr fuel q (n - (p - Suc q)) (int (p - Suc q)) s3"
    using assms(2-) s1(1) s2(1) by (simp add: Let_def s3_def t_def h_def)
  ultimately show ?thesis
    using bulk_kept_trans [OF s1(2) s2(2)] unfolding t_def h_def by blast
qed

lemma record_hole_bulk_free:
  "q \<le> start_pfn h \<Longrightarrow>
     bulk_free (alloc_bitmap (record_hole h rc s)) f q = bulk_free (alloc_bitmap s) f q"
  by (auto simp: bulk_free_def map_alloc_iff)

text \<open>The state after a loop that started in \<open>s\<close> at page \<open>p\<close> and had \<open>n\<close> pages to release.\<close>

definition released :: "mm \<Rightarrow> nat \<Rightarrow> nat \<Rightarrow> mm \<Rightarrow> bool" where
  "released s p n t \<longleftrightarrow> pool_inv t \<and> bulk_used t = bulk_used s \<and> bulk_pool t \<subseteq> bulk_pool s \<and>
     bulk_pool s - bulk_pool t \<subseteq> bulk_free (alloc_bitmap s) (first_bulk_page s) (Suc p) \<and>
     card (bulk_pool s - bulk_pool t) = min n (card (bulk_free (alloc_bitmap s) (first_bulk_page s) (Suc p))) \<and>
     num_free_bulk_pages t = num_free_bulk_pages s - of_nat (card (bulk_pool s - bulk_pool t)) \<and>
     first_bulk_page t = first_bulk_page s"

lemma released_skip:
  assumes "released s q n t" and "allocated_in_map (alloc_bitmap s) (Suc q)"
  shows "released s (Suc q) n t"
  using assms by (simp add: released_def bulk_free_Suc [of _ _ "Suc q"])

lemma released_nothing:
  assumes "pool_inv s" and "n = 0 \<or> p < first_bulk_page s"
  shows "released s p n s"
  using assms by (auto simp: released_def bulk_free_below)

lemma released_kept:
  assumes "bulk_kept s s'" and "released s' p n t"
  shows "released s p n t"
proof -
  have "num_free_bulk_pages s' = num_free_bulk_pages s" "first_bulk_page s' = first_bulk_page s"
    using assms(1) by (simp_all add: bulk_kept_def)
  with assms(2) show ?thesis unfolding released_def bulk_kept_views [OF assms(1)] by simp
qed

lemma released_step:
  assumes inv: "pool_inv s" and f: "2 \<le> first_bulk_page s" and p: "Suc p \<le> end_alloc_page s" "Suc q < p"
    and q: "first_bulk_page s \<le> Suc (Suc q)" "p - Suc q \<le> n"
    and run: "\<forall>x. Suc q < x \<and> x \<le> p \<longrightarrow> \<not> allocated_in_map (alloc_bitmap s) x"
    and stop: "p - Suc q = n \<or> Suc q < first_bulk_page s \<or> allocated_in_map (alloc_bitmap s) (Suc q)"
    and s1: "s1 = record_hole \<lparr>start_pfn = Suc q + 1, end_pfn = p + 1\<rparr> (int (p - Suc q)) s"
  shows "pool_inv s1" and "released s1 q (n - (p - Suc q)) t \<Longrightarrow> released s p n t"
proof -
  define h where "h = \<lparr>start_pfn = Suc q + 1, end_pfn = p + 1\<rparr>"
  have inv': "mm_inv s" "holes_ok s" using inv by (simp_all add: pool_inv_def)
  have h: "new_hole s h" and rc: "int (p - Suc q) = int (end_pfn h - start_pfn h)"
    using p q run inv'(1) by (auto simp: new_hole_def h_def mm_free_def mm_inv_def)
  have s1h: "s1 = record_hole h (int (end_pfn h - start_pfn h)) s" unfolding s1 h_def [symmetric] rc ..
  note facts = record_hole_mm_inv [OF inv'(1) h refl] record_hole_holes_ok [OF inv'(2) h refl]
    record_hole_used [OF inv'(2) h refl] record_hole_free [OF h refl]
  show "pool_inv s1" using facts(1,2) by (simp add: s1h pool_inv_def)
  define B where "B = bulk_free (alloc_bitmap s) (first_bulk_page s)"
  have fb1: "first_bulk_page s1 = first_bulk_page s" by (simp add: s1h)
  have mf1: "mm_free s1 = mm_free s - {Suc (Suc q)..<Suc p}"
    using facts(4) by (simp add: s1h) (simp add: h_def)
  have fr1: "bulk_pool s1 = bulk_pool s - {Suc (Suc q)..<Suc p}"
    unfolding bulk_pool_def fb1 mf1 by blast
  have us1: "bulk_used s1 = bulk_used s" using facts(3) unfolding bulk_used_def fb1 s1h [symmetric] by simp
  have nb1: "num_free_bulk_pages s1 = num_free_bulk_pages s - of_nat (p - Suc q)"
    by (simp add: s1 record_hole_def)
  have b1: "bulk_free (alloc_bitmap s1) (first_bulk_page s1) (Suc q) = B (Suc q)"
    unfolding s1h B_def record_hole_simps(4) by (rule record_hole_bulk_free) (simp add: h_def)
  have sub: "{Suc (Suc q)..<Suc p} \<subseteq> B (Suc p)" "B (Suc q) \<subseteq> B (Suc p)" "{Suc (Suc q)..<Suc p} \<subseteq> bulk_pool s"
    using run q(1) p h by (auto simp: B_def bulk_free_def new_hole_def h_def bulk_pool_def)
  have cnt: "card (B (Suc p)) = (p - Suc q) + card (B (Suc (Suc q)))"
    unfolding B_def using p q(1) run by (intro bulk_free_split) auto
  have cq: "p - Suc q = n \<or> card (B (Suc (Suc q))) = card (B (Suc q))"
    using stop by (auto simp: B_def card_bulk_free_Suc [of _ _ "Suc q"])
  assume "released s1 q (n - (p - Suc q)) t"
  then have t: "pool_inv t" "bulk_used t = bulk_used s" "bulk_pool t \<subseteq> bulk_pool s1"
    "bulk_pool s1 - bulk_pool t \<subseteq> B (Suc q)"
    "card (bulk_pool s1 - bulk_pool t) = min (n - (p - Suc q)) (card (B (Suc q)))"
    "num_free_bulk_pages t = num_free_bulk_pages s1 - of_nat (card (bulk_pool s1 - bulk_pool t))"
    "first_bulk_page t = first_bulk_page s"
    unfolding released_def us1 fb1 b1 [unfolded fb1] by auto
  have split: "bulk_pool s - bulk_pool t = {Suc (Suc q)..<Suc p} \<union> (bulk_pool s1 - bulk_pool t)"
    using t(3) sub(3) fr1 by auto
  have "finite (bulk_pool s1)" by (simp add: bulk_pool_def)
  then have card: "card (bulk_pool s - bulk_pool t) = (p - Suc q) + card (bulk_pool s1 - bulk_pool t)"
    unfolding split by (subst card_Un_disjoint) (auto simp: fr1)
  then have "card (bulk_pool s - bulk_pool t) = min n (card (B (Suc p)))"
    using t(5) cnt cq q(2) by (auto simp: min_def)
  moreover have "num_free_bulk_pages t = num_free_bulk_pages s - of_nat (card (bulk_pool s - bulk_pool t))"
    unfolding card t(6) nb1 by simp
  moreover have "bulk_pool s - bulk_pool t \<subseteq> B (Suc p)" "bulk_pool t \<subseteq> bulk_pool s"
    unfolding split using t(3,4) sub(1,2) fr1 by auto
  ultimately show "released s p n t"
    using t(1,2,7) unfolding released_def B_def [symmetric] by simp
qed

lemma bulk_kept_run:
  assumes "bulk_kept s s2" and "first_bulk_page s \<le> Suc (Suc q)"
    and run: "\<forall>x. Suc q < x \<and> x \<le> p \<longrightarrow> \<not> allocated_in_map (alloc_bitmap s) x"
    and stop: "k \<or> Suc q < first_bulk_page s \<or> allocated_in_map (alloc_bitmap s) (Suc q)"
  shows "\<forall>x. Suc q < x \<and> x \<le> p \<longrightarrow> \<not> allocated_in_map (alloc_bitmap s2) x"
    and "k \<or> Suc q < first_bulk_page s2 \<or> allocated_in_map (alloc_bitmap s2) (Suc q)"
  using assms by (auto simp: bulk_kept_def not_less)

lemma decrease_loop_spec:
  assumes env: "shrink_env xm fr dr"
    and "pool_inv s" "2 \<le> first_bulk_page s" "first_bulk_page s \<le> Suc (Suc p)"
    and "Suc p \<le> end_alloc_page s" "p < fuel"
  shows "\<exists>t rc'. decrease_loop xm fr dr fuel p n rc s = Some (Inr (t, rc')) \<and> released s p n t"
  using assms(2-)
proof (induction fuel arbitrary: p n rc s)
  case 0
  then show ?case by simp
next
  case (Suc fuel)
  note f = \<open>2 \<le> first_bulk_page s\<close>
  show ?case
  proof (cases "first_bulk_page s \<le> p \<and> 0 < n")
    case False
    then have "decrease_loop xm fr dr (Suc fuel) p n rc s = Some (Inr (s, rc))" by auto
    with False Suc.prems(1) show ?thesis by (auto intro!: released_nothing)
  next
    case go: True
    show ?thesis
    proof (cases "allocated_in_map (alloc_bitmap s) p")
      case True
      obtain q where q: "p = Suc q" using go f by (cases p) auto
      from True go q have "decrease_loop xm fr dr (Suc fuel) p n rc s = decrease_loop xm fr dr fuel q n rc s"
        by simp
      moreover obtain t rc' where "decrease_loop xm fr dr fuel q n rc s = Some (Inr (t, rc'))" "released s q n t"
        using Suc.IH [of s q n rc] Suc.prems q go by auto
      ultimately show ?thesis using released_skip True q by auto
    next
      case fr: False
      obtain p' where p': "free_down_upto (alloc_bitmap s) (first_bulk_page s) n p 0 = Inr (p', p - p')" "p' \<le> p"
        "p - p' \<le> n" "first_bulk_page s \<le> Suc p'"
        "\<forall>q. p' < q \<and> q \<le> p \<longrightarrow> \<not> allocated_in_map (alloc_bitmap s) q"
        "p - p' = n \<or> p' < first_bulk_page s \<or> allocated_in_map (alloc_bitmap s) p'"
        using free_down_upto_spec [OF f, of p "alloc_bitmap s" 0 n] go by auto
      have "p' \<noteq> p" using p'(6) go fr by auto
      with p' f obtain q where q: "p' = Suc q" "Suc q < p" by (cases p') auto
      obtain s2 s3 where st: "decrease_loop xm fr dr (Suc fuel) p n rc s =
          decrease_loop xm fr dr fuel q (n - (p - Suc q)) (int (p - Suc q)) s3" "bulk_kept s s2"
        "bulk_kept (record_hole \<lparr>start_pfn = Suc q + 1, end_pfn = p + 1\<rparr> (int (p - Suc q)) s2) s3"
        using decrease_loop_step [OF env, of s p n q fuel rc] go fr p'(1) q by blast
      define s1 where "s1 = record_hole \<lparr>start_pfn = Suc q + 1, end_pfn = p + 1\<rparr> (int (p - Suc q)) s2"
      have s2: "pool_inv s2" "2 \<le> first_bulk_page s2" "Suc p \<le> end_alloc_page s2" "first_bulk_page s2 \<le> Suc (Suc q)"
        using bulk_kept_inv [OF st(2) Suc.prems(1)] st(2) f p'(4) q \<open>Suc p \<le> end_alloc_page s\<close> by (auto simp: bulk_kept_def)
      have rs: "\<forall>x. Suc q < x \<and> x \<le> p \<longrightarrow> \<not> allocated_in_map (alloc_bitmap s2) x"
        "p - Suc q = n \<or> Suc q < first_bulk_page s2 \<or> allocated_in_map (alloc_bitmap s2) (Suc q)"
        using bulk_kept_run [OF st(2) p'(4) [unfolded q] p'(5,6) [unfolded q]] by blast+
      note rl = released_step [OF s2(1-3) q(2) s2(4) p'(3) [unfolded q] rs s1_def]
      have s1: "pool_inv s1" "Suc q \<le> end_alloc_page s1" "first_bulk_page s1 = first_bulk_page s2"
        using rl(1) s2(3) q by (auto simp: s1_def record_hole_def)
      have s3: "pool_inv s3" "Suc q \<le> end_alloc_page s3" "first_bulk_page s3 = first_bulk_page s2"
        using bulk_kept_inv [OF st(3) [folded s1_def] s1(1)] st(3) [folded s1_def] s1(2,3)
        by (auto simp: bulk_kept_def)
      have "\<exists>t rc'. decrease_loop xm fr dr fuel q (n - (p - Suc q)) (int (p - Suc q)) s3
          = Some (Inr (t, rc')) \<and> released s3 q (n - (p - Suc q)) t"
        by (rule Suc.IH) (use s3 s2 q Suc.prems(5) in auto)
      then obtain t rc' where t: "decrease_loop xm fr dr fuel q (n - (p - Suc q)) (int (p - Suc q)) s3
          = Some (Inr (t, rc'))" "released s3 q (n - (p - Suc q)) t" by blast
      have "released s2 p n t"
        by (rule rl(2) [OF released_kept [OF st(3) [folded s1_def] t(2)]])
      with t(1) st(1) released_kept [OF st(2)] show ?thesis by auto
    qed
  qed
qed

text \<open>The whole of \<open>_allocate_pages\<close>, with the pool growing through \<open>increase_memory_holding_lock\<close>.\<close>

lemma allocate_pages_ok:
  assumes "reservation_ok ir" and "pool_inv s" and "1 \<le> n"
    and "\<forall>p. first_alloc_page s \<le> p \<and> p < max_end_alloc_page s \<longrightarrow> pfn_to_virt v p \<noteq> 0"
  shows "\<exists>t r. allocate_pages v (\<lambda>k. increase_memory_holding_lock ir (nat k)) False n s = Some (Inr (t, r))
               \<and> pool_inv t \<and> allocated_fresh v n s t r \<and>
               first_alloc_page t = first_alloc_page s \<and> max_end_alloc_page t = max_end_alloc_page s \<and>
               first_bulk_page t = first_bulk_page s"
proof -
  note bulk = allocate_loop_bulk [OF assms(1,3,4,2) order_refl order_refl]
  show ?thesis
  proof (cases "is_bulk n \<or> region_search False n s = None")
    case True
    then have "allocate_pages v (\<lambda>k. increase_memory_holding_lock ir (nat k)) False n s =
               allocate_loop v (\<lambda>k. increase_memory_holding_lock ir (nat k)) n True s"
      by (cases "is_bulk n") (auto simp: allocate_pages_def allocate_loop_small)
    with bulk show ?thesis by simp
  next
    case False
    then obtain p where p: "region_search False n s = Some p" "\<not> is_bulk n" by auto
    have inv: "mm_inv s" "end_alloc_page s \<le> max_end_alloc_page s"
      using assms(2) by (simp_all add: pool_inv_def holes_ok_def)
    note r = region_search_free [OF inv(1) p(1) assms(3)]
    have "first_alloc_page s \<le> p" using r(3) inv(1) by (simp add: mm_inv_def)
    moreover have "p < max_end_alloc_page s" using r(2) inv(2) assms(3) by linarith
    ultimately have "pfn_to_virt v p \<noteq> 0" using assms(4) by blast
    then show ?thesis
      using allocate_loop_found [OF p(1)] allocated_fresh_found [OF assms(2) p(1) assms(3)] take_pages_simps(5) p(2)
      by (auto simp: allocate_pages_def)
  qed
qed

section \<open>Properties\<close>

text \<open>
  C9. Allocation of \<open>n\<close> pages always returns, whatever \<open>increase_reservation\<close> grants: the
  outer loop that asks Xen for more memory ends because every successful request uses up
  holes. The result is null or the address of \<open>n\<close> pages inside the pool that nobody held before
  and that are held afterwards; pages in use stay in use, and the pool is consistent again.
\<close>

theorem allocate_pages_total:
  assumes "reservation_ok ir" and "pool_inv s" and "1 \<le> n"
    and "\<forall>p. first_alloc_page s \<le> p \<and> p < max_end_alloc_page s \<longrightarrow> pfn_to_virt v p \<noteq> 0"
  shows "\<exists>t r. allocate_pages v (\<lambda>k. increase_memory_holding_lock ir (nat k)) False n s = Some (Inr (t, r))
               \<and> pool_inv t \<and> allocated_fresh v n s t r"
  using allocate_pages_ok [OF assms] by blast

lemma pfn_to_virt_nonzero:
  assumes "0 < p" and "p < 2 ^ 52" shows "pfn_to_virt 0 p \<noteq> 0"
proof
  assume z: "pfn_to_virt 0 p = 0"
  have "virt_to_pfn 0 (pfn_to_virt 0 p) = p" using assms(2) by (rule virt_to_pfn_to_virt)
  then have "p = 0" unfolding z by (simp add: virt_to_pfn_def)
  with assms(1) show False by simp
qed

text \<open>A pool with one hole of six pages past its end, and a hypervisor that grants every request.\<close>

definition sample_balloon :: mm where
  "sample_balloon = sample_pool\<lparr>max_end_alloc_page := 16, first_bulk_page := 4, first_free_bulk_page := 4,
     memory_hole_list := [\<lparr>start_pfn = 10, end_pfn = 16\<rparr>]\<rparr>"

definition grant_all :: "nat \<Rightarrow> memory_hole \<Rightarrow> mm \<Rightarrow> mm \<times> int" where
  "grant_all n h s = (s, int n)"

lemma grant_all_ok [simp]: "reservation_ok grant_all"
  by (auto simp: reservation_ok_def grant_all_def same_shape_def)

lemma sample_balloon_free [simp]: "mm_free sample_balloon = {2..<10}"
  using sample_free by (simp add: sample_balloon_def mm_free_def)

lemma sample_balloon_bulk [simp]:
  "first_bulk_page sample_balloon = 4" "{p. 2 \<le> p \<and> p < 10 \<and> 4 \<le> p} = {4::nat..<10}"
  by (auto simp: sample_balloon_def)

lemma sample_balloon_inv [simp]: "pool_inv sample_balloon"
proof -
  have "mm_inv sample_balloon" by (simp add: mm_inv_def) (simp add: sample_balloon_def)
  moreover have "holes_ok sample_balloon" by (auto simp: sample_balloon_def holes_ok_def)
  ultimately show ?thesis by (simp add: pool_inv_def)
qed

theorem allocate_pages_total_witness:
  "\<exists>t r. allocate_pages 0 (\<lambda>k. increase_memory_holding_lock grant_all (nat k)) False 9 sample_balloon
         = Some (Inr (t, r)) \<and> pool_inv t"
proof -
  have "pfn_to_virt 0 p \<noteq> 0" if "2 \<le> p" "p < 16" for p
    using that by (intro pfn_to_virt_nonzero) auto
  then show ?thesis
    using allocate_pages_total [OF grant_all_ok sample_balloon_inv, of 9 0]
    by (auto simp: sample_balloon_def)
qed

lemma current_reservation_holes:
  assumes "holes_ok s"
  shows "current_reservation s = int (max_end_alloc_page s) - int (hole_pages s)"
proof -
  have sum: "(\<Sum>h \<leftarrow> hs. int (end_pfn h) - int (start_pfn h)) = int (\<Sum>h \<leftarrow> hs. end_pfn h - start_pfn h)"
    if "\<forall>h \<in> set hs. start_pfn h \<le> end_pfn h" for hs
    using that by (induction hs) auto
  have "\<forall>h \<in> set (memory_hole_list s). start_pfn h \<le> end_pfn h"
    using assms by (simp add: holes_ok_def)
  then show ?thesis unfolding current_reservation_def hole_pages_def by (simp only: sum)
qed

text \<open>
  C20. Growing the pool by \<open>n\<close> pages never runs past the list of holes, adds at most \<open>n\<close> pages,
  raises the reported reservation by exactly the number it returns, and keeps the pool
  consistent; when the holes hold fewer than \<open>n\<close> pages it adds nothing.
\<close>

theorem increase_page_pool_correct:
  assumes "reservation_ok ir" and "pool_inv s"
  shows "\<exists>t r. increase_page_pool ir n s = Inr (t, r) \<and> 0 \<le> r \<and> r \<le> int n \<and> pool_inv t \<and>
               current_reservation t = current_reservation s + r \<and> mm_used s \<subseteq> mm_used t \<and>
               (hole_pages s < n \<longrightarrow> r = 0)"
proof -
  obtain t r where t: "increase_memory_holding_lock ir n s = Inr (t, int r)" "r \<le> n" "pool_inv t"
    "hole_pages t + r = hole_pages s" "max_end_alloc_page t = max_end_alloc_page s" "mm_used s \<subseteq> mm_used t"
    using increase_memory_inv [OF assms, of n] by blast
  have "current_reservation t = current_reservation s + int r"
    using t(3-5) assms(2) by (simp add: pool_inv_def current_reservation_holes)
  moreover have "r = 0" if "hole_pages s < n"
  proof -
    have "\<not> 0 < can_increase (memory_hole_list s) n"
      using that unfolding can_increase_iff hole_pages_def by simp
    then have "increase_memory_holding_lock ir n s = Inr (s\<lparr>in_increase_memory := False\<rparr>, 0)"
      by (simp add: increase_memory_holding_lock_def)
    with t(1) show ?thesis by simp
  qed
  ultimately show ?thesis using t by (auto simp: increase_page_pool_def)
qed

theorem increase_page_pool_correct_witness:
  "\<exists>t r. increase_page_pool grant_all 4 sample_balloon = Inr (t, r) \<and> pool_inv t \<and> 0 \<le> r \<and> r \<le> 4"
  using increase_page_pool_correct [OF grant_all_ok sample_balloon_inv, of 4] by auto

text \<open>
  C21. The number of pages that could be released is the number of free pages of the bulk
  region.
\<close>

theorem decreaseable_page_pool_exact:
  assumes "mm_inv s" and "2 \<le> first_bulk_page s"
  shows "decreaseable_page_pool s = Inr (card {p \<in> mm_free s. first_bulk_page s \<le> p})"
proof -
  have b: "first_bulk_page s \<le> end_alloc_page s" "first_alloc_page s \<le> first_bulk_page s"
    using assms(1) by (simp_all add: mm_inv_def)
  then have "{p \<in> mm_free s. first_bulk_page s \<le> p} =
      bulk_free (alloc_bitmap s) (first_bulk_page s) (Suc (end_alloc_page s - 1))"
    using assms(2) by (auto simp: mm_free_def bulk_free_def)
  then show ?thesis
    using decreaseable_loop_spec [OF assms(2), of "end_alloc_page s - 1"] b assms(2)
    by (simp add: decreaseable_page_pool_def)
qed

theorem decreaseable_page_pool_exact_witness: "decreaseable_page_pool sample_balloon = Inr 6"
  using decreaseable_page_pool_exact [of sample_balloon] sample_balloon_inv by (simp add: pool_inv_def)

text \<open>
  C22. Shrinking the pool by \<open>n\<close> pages, when the allocation of the hole records succeeds, Xen takes
  every page back, and the calls made with the lock dropped (\<open>xmalloc\<close>, \<open>free\<close>,
  \<open>decrease_reservation\<close>) may take and give back small pages but leave the bulk region alone: it
  ends, releases free bulk pages only and exactly as many as possible (\<open>n\<close>, or all there are),
  leaves the bulk pages in use alone, lowers \<open>num_free_bulk_pages\<close> by the number released, and
  keeps the pool and its ordered list of holes consistent.
\<close>

theorem decrease_page_pool_correct:
  assumes "shrink_env xm fr dr" and "pool_inv s" and "2 \<le> first_bulk_page s"
  shows "\<exists>t rc. decrease_page_pool xm fr dr n s = Some (Inr (t, rc)) \<and> pool_inv t \<and>
            bulk_used t = bulk_used s \<and> bulk_pool t \<subseteq> bulk_pool s \<and>
            card (bulk_pool s - bulk_pool t) = min n (card (bulk_pool s)) \<and>
            num_free_bulk_pages t = num_free_bulk_pages s - of_nat (min n (card (bulk_pool s)))"
proof -
  have b: "first_bulk_page s \<le> end_alloc_page s" "first_alloc_page s \<le> first_bulk_page s"
    using assms(2) by (simp_all add: mm_inv_def pool_inv_def)
  obtain t rc where t: "decrease_loop xm fr dr (end_alloc_page s) (end_alloc_page s - 1) n 0 s = Some (Inr (t, rc))"
    "released s (end_alloc_page s - 1) n t"
    using decrease_loop_spec [OF assms, of "end_alloc_page s - 1" "end_alloc_page s" n 0] b assms(3) by auto
  have "bulk_pool s = bulk_free (alloc_bitmap s) (first_bulk_page s) (Suc (end_alloc_page s - 1))"
    using b assms(3) by (auto simp: mm_free_def bulk_free_def bulk_pool_def)
  then show ?thesis
    using t by (auto simp: released_def decrease_page_pool_def)
qed

text \<open>
  An environment whose \<open>xmalloc\<close> takes the first free page of the small region, if there is one,
  and whose other calls leave the pool alone.
\<close>

definition take_small :: "mm \<Rightarrow> mm \<times> bool" where
  "take_small s = ((case region_search False 1 s of
                      Some p \<Rightarrow> if mm_inv s then take_pages False p 1 s else s
                    | None \<Rightarrow> s), True)"

lemma take_small_kept: "bulk_kept s (fst (take_small s))"
proof (cases "region_search False 1 s")
  case None
  then show ?thesis by (simp add: take_small_def bulk_kept_refl)
next
  case (Some p)
  show ?thesis
  proof (cases "mm_inv s")
    case True
    note r = region_search_free [OF True Some]
    have "free_run (alloc_bitmap s) p 1 (first_bulk_page s)"
      using Some find_run_SomeD [of "alloc_bitmap s" "first_bulk_page s" 1] by (simp add: region_search_def)
    then have "p < first_bulk_page s" by (simp add: free_run_def)
    with True Some take_pages_inv [OF True _ r(1)] r(3) show ?thesis
      by (auto simp: take_small_def bulk_kept_def map_alloc_iff)
  qed (simp add: take_small_def Some bulk_kept_refl)
qed

lemma sample_shrink_env: "shrink_env take_small (\<lambda>s. s) (\<lambda>h s. Inr (s, int (end_pfn h - start_pfn h)))"
  using take_small_kept bulk_kept_refl by (simp add: shrink_env_def) (simp add: take_small_def)

theorem decrease_page_pool_correct_witness:
  "\<exists>t rc. decrease_page_pool take_small (\<lambda>s. s)
            (\<lambda>h s. Inr (s, int (end_pfn h - start_pfn h))) 4 sample_balloon = Some (Inr (t, rc)) \<and>
          pool_inv t \<and> card ({4..<10} - bulk_pool t) = 4"
proof -
  have "bulk_pool sample_balloon = {4..<10}" by (auto simp: bulk_pool_def)
  then show ?thesis
    using decrease_page_pool_correct [OF sample_shrink_env sample_balloon_inv, of 4] by auto
qed

text \<open>
  C23. Whatever the memory held, the initial pool counts and frees exactly the pages from the end of
  the bitmap to \<open>max_pfn\<close> and its hints are exact. The pages from there to the maximal
  reservation are marked allocated, as the comment in \<open>init_page_allocator\<close> wants, exactly when
  the bitmap covers them or the memory behind it happened to hold ones: the number of bitmap pages
  is rounded down, so that unless the maximal reservation is a multiple of \<open>BITS_PER_PAGE\<close> the last
  pages have their bits outside the bitmap, in the first page handed out, and the pool is consistent
  only if those bits are set.
\<close>

theorem init_page_allocator_correct:
  assumes "min_pfn + xen_max div BITS_PER_PAGE \<le> max_pfn" and "max_pfn < 2 ^ 64" and "max_pfn \<le> xen_max"
  shows "mm_inv (init_page_allocator mem xen_max opt min_pfn max_pfn) \<and>
         bulk_hint (init_page_allocator mem xen_max opt min_pfn max_pfn) \<and>
         mm_free (init_page_allocator mem xen_max opt min_pfn max_pfn)
           = {min_pfn + xen_max div BITS_PER_PAGE..<max_pfn} \<and>
         (pool_inv (init_page_allocator mem xen_max opt min_pfn max_pfn) \<longleftrightarrow>
          (\<forall>p. max_pfn \<le> p \<and> p < xen_max \<and> xen_max div BITS_PER_PAGE * BITS_PER_PAGE \<le> p \<longrightarrow>
               allocated_in_map mem p))"
  using init_mm_inv [OF assms(1,2)] init_free [OF assms(1,2)] init_holes_ok [OF assms]
  by (simp add: pool_inv_def)

text \<open>
  A maximal reservation of two full bitmap pages, and one of half a bitmap page, whose pool is
  inconsistent when the memory held zeroes.
\<close>

theorem init_page_allocator_correct_witness:
  "pool_inv (init_page_allocator (\<lambda>_. 0) 65536 (- 1) 10 4000) \<and>
   mm_free (init_page_allocator (\<lambda>_. 0) 65536 (- 1) 10 4000) = {12..<4000} \<and>
   \<not> pool_inv (init_page_allocator (\<lambda>_. 0) 16384 (- 1) 10 4000)"
proof -
  have "\<not> allocated_in_map (\<lambda>_. 0) 4000" by (simp add: allocated_iff_bit)
  then have "\<not> pool_inv (init_page_allocator (\<lambda>_. 0) 16384 (- 1) 10 4000)"
    using init_page_allocator_correct [of 10 16384 4000 "\<lambda>_. 0" "- 1"] by (auto simp: BITS_PER_PAGE_def)
  then show ?thesis
    using init_page_allocator_correct [of 10 65536 4000 "\<lambda>_. 0" "- 1"] by (auto simp: BITS_PER_PAGE_def)
qed

end
