(* ===== verification/Guk_Gnttab.thy ===== *)
theory Guk_Gnttab
  imports Guk_Freelist
begin

text \<open>
  The grant table of \<open>gnttab.c\<close>: handing out and taking back grant references, suspending and
  resuming. The layout and the flag bits of a grant entry are part of the Xen interface and
  not of these sources: they are the fields of \<open>gnttab_abi\<close>, an argument of the operations.
  The table is shared with other domains; where the code retries a compare-and-exchange, the
  values it observes there are an argument.
\<close>

unbundle bit_operations_syntax

section \<open>State\<close>

record gnttab_abi =
  sizeof_entry :: nat
  GTF_permit_access :: u16
  GTF_accept_transfer :: u16
  GTF_readonly :: u16
  GTF_reading :: u16
  GTF_writing :: u16
  GTF_transfer_committed :: u16
  GTF_transfer_completed :: u16

record grant_entry =
  flags :: u16
  domid :: u16
  frame :: u32

record gnttab =
  gnttab_table :: "nat \<Rightarrow> grant_entry"
  gnttab_list :: "nat \<Rightarrow> nat"
  num_free :: int
  gnttab_suspended :: int

definition NR_RESERVED_ENTRIES :: nat where
  "NR_RESERVED_ENTRIES = 8"

definition NR_GRANT_FRAMES :: nat where
  "NR_GRANT_FRAMES = 4"

definition NR_GRANT_ENTRIES :: "gnttab_abi \<Rightarrow> nat" where
  "NR_GRANT_ENTRIES abi = NR_GRANT_FRAMES * 4096 div sizeof_entry abi"

section \<open>The free list\<close>

definition put_free_entry :: "nat \<Rightarrow> gnttab \<Rightarrow> gnttab" where
  "put_free_entry ref s =
     (let s1 = s\<lparr>gnttab_list := (gnttab_list s)(ref := gnttab_list s 0)\<rparr>;
          s2 = s1\<lparr>gnttab_list := (gnttab_list s1)(0 := ref)\<rparr>
      in s2\<lparr>num_free := num_free s2 + 1\<rparr>)"

definition get_free_entry :: "gnttab \<Rightarrow> guk_stop + nat \<times> gnttab" where
  "get_free_entry s =
     (let ref = gnttab_list s 0;
          s1 = s\<lparr>gnttab_list := (gnttab_list s)(0 := gnttab_list s ref), num_free := num_free s - 1\<rparr>
      in if num_free s1 < 0 then Inl BUG else Inr (ref, s1))"

section \<open>Granting and revoking\<close>

definition gnttab_grant_access ::
  "gnttab_abi \<Rightarrow> u16 \<Rightarrow> u64 \<Rightarrow> u16 \<Rightarrow> gnttab \<Rightarrow> guk_stop + nat \<times> gnttab" where
  "gnttab_grant_access abi d fr readonly s =
     res_bind (get_free_entry s) (\<lambda>(ref, s1).
       let e = (gnttab_table s1 ref)\<lparr>frame := ucast fr, domid := d,
                  flags := GTF_permit_access abi OR readonly * GTF_readonly abi\<rparr>
       in Inr (ref, s1\<lparr>gnttab_table := (gnttab_table s1)(ref := e)\<rparr>))"

definition gnttab_grant_transfer ::
  "gnttab_abi \<Rightarrow> u16 \<Rightarrow> u64 \<Rightarrow> gnttab \<Rightarrow> guk_stop + nat \<times> gnttab" where
  "gnttab_grant_transfer abi d pfn s =
     res_bind (get_free_entry s) (\<lambda>(ref, s1).
       let e = (gnttab_table s1 ref)\<lparr>frame := ucast pfn, domid := d, flags := GTF_accept_transfer abi\<rparr>
       in Inr (ref, s1\<lparr>gnttab_table := (gnttab_table s1)(ref := e)\<rparr>))"

text \<open>
  The loop of \<open>gnttab_end_access\<close>. \<open>nflags\<close> is the last value seen, \<open>seen\<close> what the following
  compare-and-exchanges find in the entry; the exchange succeeds when it finds the expected
  value. The result says whether the grant was revoked; \<open>None\<close> is a loop still running when
  the observations end.
\<close>

fun end_access_loop :: "gnttab_abi \<Rightarrow> u16 \<Rightarrow> u16 list \<Rightarrow> bool option" where
  "end_access_loop abi nflags seen =
     (if nflags AND (GTF_reading abi OR GTF_writing abi) \<noteq> 0 then Some False
      else (case seen of
              [] \<Rightarrow> None
            | v # vs \<Rightarrow> if v = nflags then Some True else end_access_loop abi v vs))"

declare end_access_loop.simps [simp del]

definition gnttab_end_access :: "gnttab_abi \<Rightarrow> nat \<Rightarrow> u16 \<Rightarrow> u16 list \<Rightarrow> gnttab \<Rightarrow> (int \<times> gnttab) option" where
  "gnttab_end_access abi ref first_seen seen s =
     (case end_access_loop abi first_seen seen of
        None \<Rightarrow> None
      | Some False \<Rightarrow> Some (0, s)
      | Some True \<Rightarrow>
          let e = (gnttab_table s ref)\<lparr>flags := 0\<rparr>
          in Some (1, put_free_entry ref (s\<lparr>gnttab_table := (gnttab_table s)(ref := e)\<rparr>)))"

text \<open>
  \<open>gnttab_end_transfer\<close>: \<open>seen\<close> alternates what the read and what the compare-and-exchange of
  each round find; once a transfer is committed, the reads wait for its completion. The frame
  is the one found in the entry after that.
\<close>

fun wait_completed :: "gnttab_abi \<Rightarrow> u16 \<Rightarrow> u16 list \<Rightarrow> bool" where
  "wait_completed abi fl seen =
     (if fl AND GTF_transfer_completed abi \<noteq> 0 then True
      else (case seen of [] \<Rightarrow> False | v # vs \<Rightarrow> wait_completed abi v vs))"

declare wait_completed.simps [simp del]

fun end_transfer_loop :: "gnttab_abi \<Rightarrow> u16 list \<Rightarrow> bool option" where
  "end_transfer_loop abi [] = None"
| "end_transfer_loop abi (fl # seen) =
     (if fl AND GTF_transfer_committed abi = 0
      then (case seen of
              [] \<Rightarrow> None
            | v # vs \<Rightarrow> if v = fl then Some False else end_transfer_loop abi vs)
      else if wait_completed abi fl seen then Some True else None)"

definition gnttab_end_transfer ::
  "gnttab_abi \<Rightarrow> nat \<Rightarrow> u16 list \<Rightarrow> u32 \<Rightarrow> gnttab \<Rightarrow> (u64 \<times> gnttab) option" where
  "gnttab_end_transfer abi ref seen fr s =
     (case end_transfer_loop abi seen of
        None \<Rightarrow> None
      | Some False \<Rightarrow>
          let e = (gnttab_table s ref)\<lparr>flags := 0\<rparr>
          in Some (0, put_free_entry ref (s\<lparr>gnttab_table := (gnttab_table s)(ref := e)\<rparr>))
      | Some True \<Rightarrow> Some (ucast fr, put_free_entry ref s))"

text \<open>\<open>page\<close> is what \<open>alloc_page\<close> returns and \<open>mfn_of\<close> the translation \<open>virt_to_mfn\<close>.\<close>

definition gnttab_alloc_and_grant ::
  "gnttab_abi \<Rightarrow> (u64 \<Rightarrow> u64) \<Rightarrow> u64 \<Rightarrow> gnttab \<Rightarrow> guk_stop + (nat \<times> u64) \<times> gnttab" where
  "gnttab_alloc_and_grant abi mfn_of page s =
     res_bind (gnttab_grant_access abi 0 (mfn_of page) 0 s) (\<lambda>(gref, s1). Inr ((gref, page), s1))"

definition gnttabop_error :: "string list \<Rightarrow> 16 word \<Rightarrow> string" where
  "gnttabop_error msgs status =
     (let st = - status
      in if sint st < 0 \<or> sint st \<ge> int (length msgs) then ''bad status'' else msgs ! nat (sint st))"

section \<open>Initialisation, suspend and resume\<close>

text \<open>
  \<open>rc\<close> is the result of the hypercall that sets up the table. The second component of
  \<open>gnttab_suspend\<close> and \<open>gnttab_resume\<close> lists the mapping updates asked from Xen, as page index
  and page table entry; \<open>frames\<close> are the frames the setup reports.
\<close>

definition init_frames :: "gnttab_abi \<Rightarrow> int \<Rightarrow> gnttab \<Rightarrow> int \<times> gnttab" where
  "init_frames abi rc s = (rc, fold put_free_entry [NR_RESERVED_ENTRIES..<NR_GRANT_ENTRIES abi] s)"

definition gnttab_suspend :: "gnttab \<Rightarrow> gnttab \<times> (nat \<times> u64) list" where
  "gnttab_suspend s =
     (s\<lparr>gnttab_suspended := gnttab_suspended s + 1\<rparr>, map (\<lambda>i. (i, 0)) [0..<NR_GRANT_FRAMES])"

definition gnttab_resume ::
  "gnttab_abi \<Rightarrow> u64 \<Rightarrow> int \<Rightarrow> (nat \<Rightarrow> u64) \<Rightarrow> gnttab \<Rightarrow> guk_stop + gnttab \<times> (nat \<times> u64) list" where
  "gnttab_resume abi l1_prot rc frames s =
     (if gnttab_suspended s \<noteq> 1 then Inl BUG
      else let (_, s1) = init_frames abi rc s
           in Inr (s1\<lparr>gnttab_suspended := gnttab_suspended s1 - 1\<rparr>,
                   map (\<lambda>i. (i, push_bit 12 (frames i) OR l1_prot)) [0..<NR_GRANT_FRAMES]))"

section \<open>The free list is an array free list\<close>

definition get_free_opt :: "gnttab \<Rightarrow> (nat \<times> gnttab) option" where
  "get_free_opt s = (case get_free_entry s of Inl _ \<Rightarrow> None | Inr r \<Rightarrow> Some r)"

interpretation gt: array_freelist gnttab_list get_free_opt put_free_entry
  by unfold_locales
     (auto simp: get_free_opt_def get_free_entry_def put_free_entry_def Let_def split: if_splits)

text \<open>
  \<open>gnttab_inv abi U s\<close>: the references \<open>U\<close> are handed out, the other unreserved ones are on the
  free list, and \<open>num_free\<close> is its length.
\<close>

definition gnttab_inv :: "gnttab_abi \<Rightarrow> nat set \<Rightarrow> gnttab \<Rightarrow> bool" where
  "gnttab_inv abi U s \<longleftrightarrow>
     (\<exists>xs. fl_repr (gnttab_list s) xs \<and> num_free s = int (length xs) \<and>
           set xs \<union> U = {NR_RESERVED_ENTRIES..<NR_GRANT_ENTRIES abi} \<and> set xs \<inter> U = {})"

lemma gnttab_inv_owned:
  "gnttab_inv abi U s \<Longrightarrow> gt.owned s U {NR_RESERVED_ENTRIES..<NR_GRANT_ENTRIES abi}"
  by (auto simp: gnttab_inv_def gt.owned_def)

lemma put_free_num [simp]: "num_free (put_free_entry i s) = num_free s + 1"
  "gnttab_table (put_free_entry i s) = gnttab_table s"
  "gnttab_suspended (put_free_entry i s) = gnttab_suspended s"
  by (simp_all add: put_free_entry_def Let_def)

lemma get_free_entry_Inr:
  assumes "gnttab_inv abi U s" and "U \<noteq> {NR_RESERVED_ENTRIES..<NR_GRANT_ENTRIES abi}"
  shows "\<exists>ref s'. get_free_entry s = Inr (ref, s') \<and> ref \<notin> U \<and>
           NR_RESERVED_ENTRIES \<le> ref \<and> ref < NR_GRANT_ENTRIES abi \<and>
           gnttab_table s' = gnttab_table s \<and> gnttab_inv abi (insert ref U) s'"
proof -
  from assms obtain x xs where xs: "fl_repr (gnttab_list s) (x # xs)" "num_free s = int (length (x # xs))"
    "set (x # xs) \<union> U = {NR_RESERVED_ENTRIES..<NR_GRANT_ENTRIES abi}" "set (x # xs) \<inter> U = {}"
    unfolding gnttab_inv_def by (metis list.exhaust list.set(1) Un_empty_left)
  define s' where "s' = s\<lparr>gnttab_list := (gnttab_list s)(0 := gnttab_list s x), num_free := num_free s - 1\<rparr>"
  have get: "get_free_entry s = Inr (x, s')"
    using xs(2) fl_repr_pop(1) [OF xs(1)] by (simp add: get_free_entry_def Let_def s'_def)
  have "x \<notin> set xs" using xs(1) by (simp add: fl_repr_def)
  then have "gnttab_inv abi (insert x U) s'"
    unfolding gnttab_inv_def using xs fl_repr_pop(2) [OF xs(1)]
    by (intro exI [of _ xs]) (auto simp: s'_def)
  moreover have "x \<in> {NR_RESERVED_ENTRIES..<NR_GRANT_ENTRIES abi}" "x \<notin> U" using xs(3,4) by auto
  ultimately show ?thesis using get by (auto simp: s'_def)
qed

lemma get_free_entry_BUG:
  assumes "gnttab_inv abi {NR_RESERVED_ENTRIES..<NR_GRANT_ENTRIES abi} s"
  shows "get_free_entry s = Inl BUG"
proof -
  define D where "D = {NR_RESERVED_ENTRIES..<NR_GRANT_ENTRIES abi}"
  from assms [unfolded gnttab_inv_def, folded D_def]
  obtain xs where xs: "num_free s = int (length xs)" "set xs \<union> D = D" "set xs \<inter> D = {}"
    by (elim exE conjE)
  from xs(2) have "set xs \<subseteq> D" by (rule subset_Un_eq [THEN iffD2])
  with xs(3) have "set xs = {}" by (simp add: Int_absorb2)
  with xs(1) have "num_free s = 0" by simp
  then show ?thesis by (simp add: get_free_entry_def Let_def)
qed

lemma put_free_entry_inv:
  assumes "gnttab_inv abi U s" and "ref \<in> U"
  shows "gnttab_inv abi (U - {ref}) (put_free_entry ref s)"
proof -
  from assms(1) obtain xs where xs: "fl_repr (gnttab_list s) xs" "num_free s = int (length xs)"
    "set xs \<union> U = {NR_RESERVED_ENTRIES..<NR_GRANT_ENTRIES abi}" "set xs \<inter> U = {}"
    by (auto simp: gnttab_inv_def)
  have ref: "ref \<noteq> 0" "ref \<notin> set xs"
    using assms(2) xs(3,4) by (auto simp: NR_RESERVED_ENTRIES_def)
  show ?thesis
    unfolding gnttab_inv_def using gt.put_repr [OF xs(1) ref] xs(2-4) assms(2)
    by (intro exI [of _ "ref # xs"]) auto
qed

lemma gnttab_inv_table [simp]: "gnttab_inv abi U (s\<lparr>gnttab_table := t\<rparr>) = gnttab_inv abi U s"
  by (simp add: gnttab_inv_def)

section \<open>Properties\<close>

text \<open>
  C24. Granting access hands out a reference that is not in use and not reserved, fills exactly
  that entry of the table (frame, domain, flags, in an entry no one else holds), and leaves
  every other entry alone; it stops with \<open>BUG\<close> exactly when every reference is in use.
\<close>

theorem gnttab_grant_access_fresh:
  assumes "gnttab_inv abi U s"
  shows "if U = {NR_RESERVED_ENTRIES..<NR_GRANT_ENTRIES abi}
         then gnttab_grant_access abi d fr ro s = Inl BUG
         else \<exists>ref s'. gnttab_grant_access abi d fr ro s = Inr (ref, s') \<and> ref \<notin> U \<and>
                NR_RESERVED_ENTRIES \<le> ref \<and> ref < NR_GRANT_ENTRIES abi \<and> gnttab_inv abi (insert ref U) s' \<and>
                gnttab_table s' ref = (gnttab_table s ref)\<lparr>flags := GTF_permit_access abi OR ro * GTF_readonly abi,
                                        domid := d, frame := ucast fr\<rparr> \<and>
                (\<forall>r. r \<noteq> ref \<longrightarrow> gnttab_table s' r = gnttab_table s r)"
proof (cases "U = {NR_RESERVED_ENTRIES..<NR_GRANT_ENTRIES abi}")
  case True
  then show ?thesis using get_free_entry_BUG [of abi s] assms by (simp add: gnttab_grant_access_def)
next
  case False
  then show ?thesis
    using get_free_entry_Inr [OF assms False] by (auto simp: gnttab_grant_access_def Let_def)
qed

text \<open>A table of sixteen entries, for the concrete instances below.\<close>

definition small_abi :: gnttab_abi where
  "small_abi = \<lparr>sizeof_entry = 1024, GTF_permit_access = 1, GTF_accept_transfer = 2, GTF_readonly = 4,
     GTF_reading = 8, GTF_writing = 16, GTF_transfer_committed = 4, GTF_transfer_completed = 8\<rparr>"

definition empty_gnttab :: gnttab where
  "empty_gnttab = \<lparr>gnttab_table = (\<lambda>_. \<lparr>flags = 0, domid = 0, frame = 0\<rparr>), gnttab_list = (\<lambda>_. 0),
     num_free = 0, gnttab_suspended = 0\<rparr>"

lemma fold_put_num [simp]: "num_free (fold put_free_entry xs s) = num_free s + int (length xs)"
  by (induction xs arbitrary: s) auto

lemma init_frames_inv:
  assumes "gnttab_list s 0 = 0" and "num_free s = 0"
  shows "gnttab_inv abi {} (snd (init_frames abi rc s))"
proof -
  define xs where "xs = [NR_RESERVED_ENTRIES..<NR_GRANT_ENTRIES abi]"
  have "fl_repr (gnttab_list (fold put_free_entry xs s)) (rev xs @ [])"
    using assms(1) by (intro gt.put_fold_repr fl_repr_empty) (auto simp: xs_def NR_RESERVED_ENTRIES_def)
  then show ?thesis
    unfolding gnttab_inv_def init_frames_def using assms(2)
    by (intro exI [of _ "rev xs"]) (auto simp: xs_def)
qed

lemma empty_inv: "gnttab_inv small_abi {} (snd (init_frames small_abi 0 empty_gnttab))"
  by (rule init_frames_inv) (simp_all add: empty_gnttab_def)

lemma small_entries [simp]: "{NR_RESERVED_ENTRIES..<NR_GRANT_ENTRIES small_abi} = {8..<16}"
  by (simp add: NR_RESERVED_ENTRIES_def NR_GRANT_ENTRIES_def NR_GRANT_FRAMES_def small_abi_def)

theorem gnttab_grant_access_fresh_witness:
  "\<exists>ref s'. gnttab_grant_access small_abi 1 77 0 (snd (init_frames small_abi 0 empty_gnttab)) = Inr (ref, s') \<and>
            gnttab_inv small_abi {ref} s'"
  using gnttab_grant_access_fresh [OF empty_inv, of 1 77 0] by auto

text \<open>
  How the retry loop ends: at the first observation that shows the grant in use, or at the first
  one that the next compare-and-exchange confirms.
\<close>

definition grant_in_use :: "gnttab_abi \<Rightarrow> u16 \<Rightarrow> bool" where
  "grant_in_use abi w \<longleftrightarrow> w AND (GTF_reading abi OR GTF_writing abi) \<noteq> 0"

lemma end_access_loop_first:
  assumes "n \<le> length seen" and "\<forall>i < n. \<not> grant_in_use abi ((v # seen) ! i) \<and> seen ! i \<noteq> (v # seen) ! i"
  shows "(grant_in_use abi ((v # seen) ! n) \<longrightarrow> end_access_loop abi v seen = Some False) \<and>
         (\<not> grant_in_use abi ((v # seen) ! n) \<and> n < length seen \<and> seen ! n = (v # seen) ! n \<longrightarrow>
            end_access_loop abi v seen = Some True) \<and>
         (\<not> grant_in_use abi ((v # seen) ! n) \<and> n = length seen \<longrightarrow> end_access_loop abi v seen = None)"
  using assms
proof (induction n arbitrary: v seen)
  case 0
  then show ?case
    by (subst (1 2 3) end_access_loop.simps) (cases seen, auto simp: grant_in_use_def)
next
  case (Suc n)
  then obtain w ws where seen: "seen = w # ws" by (cases seen) auto
  have "\<not> grant_in_use abi v" "w \<noteq> v" using Suc.prems(2) seen by auto
  then have "end_access_loop abi v seen = end_access_loop abi w ws"
    by (subst end_access_loop.simps) (simp add: grant_in_use_def seen)
  moreover have "\<forall>i < n. \<not> grant_in_use abi ((w # ws) ! i) \<and> ws ! i \<noteq> (w # ws) ! i"
    using Suc.prems(2) seen by auto
  ultimately show ?case using Suc.IH[of ws w] Suc.prems(1) seen by simp blast
qed

text \<open>
  C25. Revoking access looks at the entry until an observation shows the grant in use, and then
  returns 0 without effect, or until the next compare-and-exchange finds the same value again, and
  then returns 1 with the flags of exactly that entry cleared and the reference on the free list;
  a failed exchange makes it look again, and it is still running only if neither has happened yet.
  Here \<open>v\<close> is the first observation, \<open>seen\<close> the following ones and \<open>n\<close> the position of the first
  that decides.
\<close>

theorem gnttab_end_access_correct:
  assumes "gnttab_inv abi U s" and "ref \<in> U" and "n \<le> length seen"
    and "\<forall>i < n. \<not> grant_in_use abi ((v # seen) ! i) \<and> seen ! i \<noteq> (v # seen) ! i"
  shows "(grant_in_use abi ((v # seen) ! n) \<longrightarrow> gnttab_end_access abi ref v seen s = Some (0, s)) \<and>
         (\<not> grant_in_use abi ((v # seen) ! n) \<and> n < length seen \<and> seen ! n = (v # seen) ! n \<longrightarrow>
            (\<exists>t. gnttab_end_access abi ref v seen s = Some (1, t) \<and> gnttab_inv abi (U - {ref}) t \<and>
               gnttab_table t = (gnttab_table s)(ref := (gnttab_table s ref)\<lparr>flags := 0\<rparr>))) \<and>
         (\<not> grant_in_use abi ((v # seen) ! n) \<and> n = length seen \<longrightarrow> gnttab_end_access abi ref v seen s = None)"
proof -
  have "gnttab_inv abi (U - {ref}) (put_free_entry ref (s\<lparr>gnttab_table := t\<rparr>))" for t
    using assms(1,2) by (intro put_free_entry_inv) simp
  then show ?thesis
    using end_access_loop_first[OF assms(3,4)] by (auto simp: gnttab_end_access_def Let_def)
qed

text \<open>
  A run with a failed exchange: the flags change from 1 to 5 before they are found unchanged.
\<close>

theorem gnttab_end_access_correct_witness:
  "\<exists>t. gnttab_end_access small_abi 8 1 [5, 5] (snd (init_frames small_abi 0 empty_gnttab)\<lparr>gnttab_list := (\<lambda>_. 0), num_free := 0\<rparr>)
       = Some (1, t) \<and> flags (gnttab_table t 8) = 0"
proof -
  have "gnttab_inv small_abi {8..<16} (snd (init_frames small_abi 0 empty_gnttab)\<lparr>gnttab_list := (\<lambda>_. 0), num_free := 0\<rparr>)"
    unfolding gnttab_inv_def by (intro exI [of _ "[]"]) (simp add: fl_repr_empty)
  from gnttab_end_access_correct [OF this, of 8 1 "[5, 5]" 1] show ?thesis
    by (auto simp: grant_in_use_def small_abi_def)
qed

text \<open>
  The grant table as a state machine, from its initialisation to the next resume. A state pairs the
  table with the references its clients hold; clients revoke only what they hold.
\<close>

inductive gnt_reach :: "gnttab_abi \<Rightarrow> nat set \<Rightarrow> gnttab \<Rightarrow> bool" for abi where
  gnt_init: "gnttab_list s 0 = 0 \<Longrightarrow> num_free s = 0 \<Longrightarrow> gnt_reach abi {} (snd (init_frames abi rc s))"
| gnt_access: "gnt_reach abi U s \<Longrightarrow> gnttab_grant_access abi d fr ro s = Inr (ref, t) \<Longrightarrow>
     gnt_reach abi (insert ref U) t"
| gnt_transfer: "gnt_reach abi U s \<Longrightarrow> gnttab_grant_transfer abi d pfn s = Inr (ref, t) \<Longrightarrow>
     gnt_reach abi (insert ref U) t"
| gnt_end_access: "gnt_reach abi U s \<Longrightarrow> ref \<in> U \<Longrightarrow> gnttab_end_access abi ref v seen s = Some (r, t) \<Longrightarrow>
     gnt_reach abi (if r = 0 then U else U - {ref}) t"
| gnt_end_transfer: "gnt_reach abi U s \<Longrightarrow> ref \<in> U \<Longrightarrow> gnttab_end_transfer abi ref seen fr s = Some (r, t) \<Longrightarrow>
     gnt_reach abi (U - {ref}) t"
| gnt_suspend: "gnt_reach abi U s \<Longrightarrow> gnt_reach abi U (fst (gnttab_suspend s))"

lemma get_free_entry_insert:
  assumes "gnttab_inv abi U s" and "get_free_entry s = Inr (ref, t)"
  shows "ref \<notin> U \<and> gnttab_inv abi (insert ref U) t"
proof -
  have "U \<noteq> {NR_RESERVED_ENTRIES..<NR_GRANT_ENTRIES abi}"
    using get_free_entry_BUG [of abi s] assms by auto
  from get_free_entry_Inr [OF assms(1) this] assms(2) show ?thesis by auto
qed

lemma gnt_reach_inv: "gnt_reach abi U s \<Longrightarrow> gnttab_inv abi U s"
proof (induction rule: gnt_reach.induct)
  case (gnt_init s rc)
  then show ?case by (rule init_frames_inv)
next
  case (gnt_access U s d fr ro ref t)
  then show ?case
    by (auto simp: gnttab_grant_access_def res_bind_Inr_iff Let_def dest: get_free_entry_insert)
next
  case (gnt_transfer U s d pfn ref t)
  then show ?case
    by (auto simp: gnttab_grant_transfer_def res_bind_Inr_iff Let_def dest: get_free_entry_insert)
next
  case (gnt_end_access U s ref v seen r t)
  then show ?case
    by (auto simp: gnttab_end_access_def Let_def put_free_entry_inv split: option.splits bool.splits)
next
  case (gnt_end_transfer U s ref seen fr r t)
  then show ?case
    by (auto simp: gnttab_end_transfer_def Let_def put_free_entry_inv split: option.splits bool.splits)
next
  case (gnt_suspend U s)
  then show ?case by (simp add: gnttab_suspend_def gnttab_inv_def)
qed

text \<open>
  C4. Over every sequence of grants, transfers, revocations and suspends after the table was
  initialised, and before it is resumed, a reference that is handed out was not held by anyone,
  and the counter of free references is the number of references that are not held. What a resume
  does to the table is the subject of another property below.
\<close>

theorem gnttab_no_double_grant:
  assumes "gnt_reach abi U s"
  shows "(\<forall>d fr ro ref t. gnttab_grant_access abi d fr ro s = Inr (ref, t) \<longrightarrow> ref \<notin> U) \<and>
         (\<forall>d pfn ref t. gnttab_grant_transfer abi d pfn s = Inr (ref, t) \<longrightarrow> ref \<notin> U) \<and>
         num_free s = int (card ({NR_RESERVED_ENTRIES..<NR_GRANT_ENTRIES abi} - U))"
proof -
  define D where "D = {NR_RESERVED_ENTRIES..<NR_GRANT_ENTRIES abi}"
  have inv: "gnttab_inv abi U s" using assms by (rule gnt_reach_inv)
  then obtain xs where xs: "num_free s = int (length xs)" "set xs \<union> U = D" "set xs \<inter> U = {}" "distinct xs"
    unfolding gnttab_inv_def D_def [symmetric] by (auto simp: fl_repr_def)
  have "D - U = set xs" unfolding xs(2) [symmetric] using xs(3) by (simp add: Un_Diff Diff_triv)
  then have "num_free s = int (card (D - U))" using xs(1,4) by (simp add: distinct_card)
  then show ?thesis
    using get_free_entry_insert [OF inv]
    by (auto simp: gnttab_grant_access_def gnttab_grant_transfer_def res_bind_Inr_iff Let_def D_def)
qed

theorem gnttab_no_double_grant_witness:
  "\<exists>r s. gnttab_grant_access small_abi 1 77 0 (snd (init_frames small_abi 0 empty_gnttab)) = Inr (r, s) \<and>
     num_free s = 7 \<and> (\<forall>d fr ro r' t. gnttab_grant_access small_abi d fr ro s = Inr (r', t) \<longrightarrow> r' \<noteq> r)"
proof -
  have reach: "gnt_reach small_abi {} (snd (init_frames small_abi 0 empty_gnttab))"
    by (rule gnt_reach.gnt_init) (simp_all add: empty_gnttab_def)
  obtain r s where g: "gnttab_grant_access small_abi 1 77 0 (snd (init_frames small_abi 0 empty_gnttab)) = Inr (r, s)"
    and r: "8 \<le> r" "r < 16"
    using get_free_entry_Inr [OF gnt_reach_inv [OF reach]]
    by (auto simp: gnttab_grant_access_def Let_def NR_RESERVED_ENTRIES_def NR_GRANT_ENTRIES_def NR_GRANT_FRAMES_def small_abi_def)
  have "card ({8..<16} - {r}) = 7" using r by (simp add: card_Diff_singleton)
  then show ?thesis
    using g gnttab_no_double_grant [OF gnt_reach.gnt_access [OF reach g]]
    by (intro exI [of _ r] exI [of _ s]) auto
qed

text \<open>Refilling a free list that is not empty closes it to a ring.\<close>

lemma ring_not_repr:
  assumes "a 0 \<in> S" and "\<forall>x \<in> S. a x \<in> S" and "0 \<notin> S"
  shows "\<not> fl_repr a xs"
proof -
  have "\<not> fl_chain a h xs" if "h \<in> S" for h
    using that
  proof (induction xs arbitrary: h)
    case Nil
    with assms(3) show ?case by (metis fl_chain.simps(1))
  qed (use assms(2) in auto)
  with assms(1) show ?thesis by (simp add: fl_repr_def)
qed

lemma fold_put_ring:
  assumes "gnttab_list s 0 \<in> S" and "set xs \<subseteq> S" and "0 \<notin> S"
    and "\<forall>x \<in> S. x \<in> set xs \<or> gnttab_list s x \<in> S"
  shows "gnttab_list (fold put_free_entry xs s) 0 \<in> S \<and>
         (\<forall>x \<in> S. gnttab_list (fold put_free_entry xs s) x \<in> S)"
  using assms
proof (induction xs arbitrary: s)
  case (Cons x xs)
  have "x \<noteq> 0" using Cons.prems(2,3) by (metis list.set_intros(1) subsetD)
  then have "gnttab_list (fold put_free_entry xs (put_free_entry x s)) 0 \<in> S \<and>
        (\<forall>y \<in> S. gnttab_list (fold put_free_entry xs (put_free_entry x s)) y \<in> S)"
    using Cons.prems by (intro Cons.IH) (auto simp: gt.arr_put)
  then show ?case by simp
qed simp

lemma fold_put_head: "xs \<noteq> [] \<Longrightarrow> gnttab_list (fold put_free_entry xs s) 0 = last xs"
  by (induction xs rule: rev_induct) (simp_all add: gt.arr_put)

text \<open>
  C26. Resuming puts every unreserved reference on the free list again, also those that are in use
  and those that are still on it. If any was still there, the array is a ring afterwards that no list
  represents; the counter grows by the number of all unreserved references; and the next grant
  hands out the last reference, even if it is in use.
\<close>

theorem gnttab_resume_breaks_list:
  assumes "gnttab_inv abi U s" and "gnttab_suspended s = 1"
    and "NR_RESERVED_ENTRIES < NR_GRANT_ENTRIES abi"
    and "gnttab_resume abi l1 rc frames s = Inr (t, calls)"
  shows "(U \<noteq> {NR_RESERVED_ENTRIES..<NR_GRANT_ENTRIES abi} \<longrightarrow> (\<forall>xs. \<not> fl_repr (gnttab_list t) xs)) \<and>
         num_free t = num_free s + int (NR_GRANT_ENTRIES abi - NR_RESERVED_ENTRIES) \<and>
         (\<forall>d fr ro. \<exists>t'. gnttab_grant_access abi d fr ro t = Inr (NR_GRANT_ENTRIES abi - 1, t'))"
proof -
  define S where "S = {NR_RESERVED_ENTRIES..<NR_GRANT_ENTRIES abi}"
  define xs where "xs = [NR_RESERVED_ENTRIES..<NR_GRANT_ENTRIES abi]"
  obtain ys where ys: "fl_repr (gnttab_list s) ys" "num_free s = int (length ys)" "set ys \<union> U = S" "set ys \<inter> U = {}"
    using assms(1) by (auto simp: gnttab_inv_def S_def)
  have t: "gnttab_list t = gnttab_list (fold put_free_entry xs s)" "num_free t = num_free s + int (length xs)"
    using assms(2,4) by (auto simp: gnttab_resume_def init_frames_def xs_def)
  have "\<not> fl_repr (gnttab_list t) zs" if "U \<noteq> S" for zs
  proof -
    have "ys \<noteq> []" using ys(3) that by auto
    then have "gnttab_list s 0 \<in> S" using ys(1,3) by (cases ys) (auto simp: fl_repr_def)
    then have "gnttab_list t 0 \<in> S \<and> (\<forall>x \<in> S. gnttab_list t x \<in> S)"
      unfolding t(1) by (rule fold_put_ring) (auto simp: S_def xs_def NR_RESERVED_ENTRIES_def)
    moreover have "0 \<notin> S" by (simp add: S_def NR_RESERVED_ENTRIES_def)
    ultimately show ?thesis using ring_not_repr [of "gnttab_list t" S] by blast
  qed
  moreover have "gnttab_list t 0 = NR_GRANT_ENTRIES abi - 1"
    using t(1) fold_put_head [of xs s] assms(3) by (simp add: xs_def)
  moreover have "1 \<le> num_free t" using t(2) ys(2) assms(3) by (simp add: xs_def)
  ultimately show ?thesis using t(2)
    by (simp add: S_def xs_def gnttab_grant_access_def get_free_entry_def Let_def)
qed

text \<open>One reference, the last, is in use when the table is resumed; it is handed out again.\<close>

theorem gnttab_resume_breaks_list_witness:
  "\<exists>s t calls. gnttab_inv small_abi {15} s \<and> gnttab_resume small_abi 0 0 (\<lambda>_. 0) s = Inr (t, calls) \<and>
     num_free t = 15 \<and> (\<forall>xs. \<not> fl_repr (gnttab_list t) xs) \<and> (\<exists>t'. gnttab_grant_access small_abi 1 77 0 t = Inr (15, t'))"
proof -
  define s where "s = (snd (init_frames small_abi 0 empty_gnttab))\<lparr>gnttab_list :=
      gnttab_list (fold put_free_entry [8..<15] empty_gnttab), num_free := 7, gnttab_suspended := 1\<rparr>"
  obtain t calls where t: "gnttab_resume small_abi 0 0 (\<lambda>_. 0) s = Inr (t, calls)"
    by (simp add: gnttab_resume_def init_frames_def s_def)
  have "fl_repr (gnttab_list (fold put_free_entry [8..<15] empty_gnttab)) (rev [8..<15] @ [])"
    by (intro gt.put_fold_repr fl_repr_empty) (auto simp: empty_gnttab_def)
  then have inv: "gnttab_inv small_abi {15} s"
    unfolding gnttab_inv_def small_entries by (intro exI [of _ "rev [8..<15]"]) (auto simp: s_def)
  moreover have "{15 :: nat} \<noteq> {8..<16}" 
  proof
    assume eq: "{15 :: nat} = {8..<16}"
    have "8 \<in> {15 :: nat}" unfolding eq by simp
    then show False by simp
  qed
  ultimately have "num_free t = 15 \<and> (\<forall>xs. \<not> fl_repr (gnttab_list t) xs) \<and> (\<exists>t'. gnttab_grant_access small_abi 1 77 0 t = Inr (15, t'))"
    using gnttab_resume_breaks_list [OF inv _ _ t]
    by (simp add: s_def NR_RESERVED_ENTRIES_def NR_GRANT_ENTRIES_def NR_GRANT_FRAMES_def small_abi_def)
  then show ?thesis using t inv by blast
qed

end
