(* ===== verification/Guk_Strings.thy ===== *)
theory Guk_Strings
  imports Guk_Prelude
begin

text \<open>
  The string library \<open>lib/string.c\<close> and the option parser \<open>num_option\<close> of \<open>kernel.c\<close>.

  Memory is a function from addresses (\<open>nat\<close>) to bytes. Functions that write return the new
  memory; a loop that may run forever on memory without a terminator is a
  \<open>partial_function\<close> and then has the value \<open>None\<close>. A \<open>char\<close> difference assigned to a
  \<open>signed char\<close> is the signed reading of the byte difference.
\<close>

type_synonym mem = "nat \<Rightarrow> u8"

section \<open>Blocks of memory\<close>

fun memcmp :: "mem \<Rightarrow> nat \<Rightarrow> nat \<Rightarrow> nat \<Rightarrow> int" where
  "memcmp m cs ct 0 = 0"
| "memcmp m cs ct (Suc count) =
     (let res = m cs - m ct in if res \<noteq> 0 then sint res else memcmp m (Suc cs) (Suc ct) count)"

fun memcpy :: "mem \<Rightarrow> nat \<Rightarrow> nat \<Rightarrow> nat \<Rightarrow> mem" where
  "memcpy m dest src 0 = m"
| "memcpy m dest src (Suc count) = memcpy (m(dest := m src)) (Suc dest) (Suc src) count"

fun memset :: "mem \<Rightarrow> nat \<Rightarrow> u8 \<Rightarrow> nat \<Rightarrow> mem" where
  "memset m s c 0 = m"
| "memset m s c (Suc count) = memset (m(s := c)) (Suc s) c count"

section \<open>Strings\<close>

fun strncmp :: "mem \<Rightarrow> nat \<Rightarrow> nat \<Rightarrow> nat \<Rightarrow> int" where
  "strncmp m cs ct 0 = 0"
| "strncmp m cs ct (Suc count) =
     (let res = m cs - m ct
      in if res \<noteq> 0 \<or> m cs = 0 then sint res else strncmp m (Suc cs) (Suc ct) count)"

partial_function (option) strcmp :: "mem \<Rightarrow> nat \<Rightarrow> nat \<Rightarrow> int option" where
  "strcmp m cs ct =
     (let res = m cs - m ct
      in if res \<noteq> 0 \<or> m cs = 0 then Some (sint res) else strcmp m (Suc cs) (Suc ct))"

partial_function (option) strcpy :: "mem \<Rightarrow> nat \<Rightarrow> nat \<Rightarrow> mem option" where
  "strcpy m dest src =
     (let c = m src; m' = m(dest := c)
      in if c = 0 then Some m' else strcpy m' (Suc dest) (Suc src))"

fun strncpy :: "mem \<Rightarrow> nat \<Rightarrow> nat \<Rightarrow> nat \<Rightarrow> mem" where
  "strncpy m dest src 0 = m"
| "strncpy m dest src (Suc count) =
     (let c = m src; m' = m(dest := c)
      in if c = 0 then m' else strncpy m' (Suc dest) (Suc src) count)"

fun strnlen :: "mem \<Rightarrow> nat \<Rightarrow> nat \<Rightarrow> nat" where
  "strnlen m s 0 = 0"
| "strnlen m s (Suc count) = (if m s = 0 then 0 else Suc (strnlen m (Suc s) count))"

partial_function (option) strlen_from :: "mem \<Rightarrow> nat \<Rightarrow> nat option" where
  "strlen_from m sc = (if m sc = 0 then Some sc else strlen_from m (Suc sc))"

definition strlen :: "mem \<Rightarrow> nat \<Rightarrow> nat option" where
  "strlen m s = map_option (\<lambda>sc. sc - s) (strlen_from m s)"

definition strcat :: "mem \<Rightarrow> nat \<Rightarrow> nat \<Rightarrow> mem option" where
  "strcat m dest src = Option.bind (strlen_from m dest) (\<lambda>d. strcpy m d src)"

text \<open>The result of \<open>strchr\<close> and \<open>strstr\<close> is the address found, or \<open>None\<close> inside \<open>Some\<close> for null.\<close>

partial_function (option) strchr :: "mem \<Rightarrow> nat \<Rightarrow> u8 \<Rightarrow> nat option option" where
  "strchr m s c =
     (if m s = c then Some (Some s) else if m s = 0 then Some None else strchr m (Suc s) c)"

text \<open>
  \<open>strstr\<close> and \<open>strdup\<close> keep lengths in an \<open>int\<close>: \<open>int_of_size\<close> is the conversion from \<open>size_t\<close> and
  \<open>size_of_int\<close> the one back.
\<close>

definition int_of_size :: "nat \<Rightarrow> int" where
  "int_of_size n = sint (of_nat n :: u32)"

definition size_of_int :: "int \<Rightarrow> nat" where
  "size_of_int i = nat (i mod 2 ^ 64)"

function strstr_loop :: "mem \<Rightarrow> nat \<Rightarrow> nat \<Rightarrow> int \<Rightarrow> int \<Rightarrow> nat option" where
  "strstr_loop m s1 s2 l2 l1 =
     (if l1 \<ge> l2
      then if memcmp m s1 s2 (size_of_int l2) = 0 then Some s1 else strstr_loop m (Suc s1) s2 l2 (l1 - 1)
      else None)"
  by pat_completeness auto
termination by (relation "measure (\<lambda>(m, s1, s2, l2, l1). nat (l1 - l2 + 1))") auto

declare strstr_loop.simps [simp del]

definition strstr :: "mem \<Rightarrow> nat \<Rightarrow> nat \<Rightarrow> nat option option" where
  "strstr m s1 s2 =
     Option.bind (strlen m s2) (\<lambda>n2.
       let l2 = int_of_size n2
       in if l2 = 0 then Some (Some s1)
          else Option.bind (strlen m s1) (\<lambda>n1. Some (strstr_loop m s1 s2 l2 (int_of_size n1))))"

text \<open>\<open>alloc\<close> is \<open>malloc\<close>: the address of the block of the given size, 0 for null.\<close>

definition strdup :: "(nat \<Rightarrow> nat) \<Rightarrow> mem \<Rightarrow> nat \<Rightarrow> (nat \<times> mem) option" where
  "strdup alloc m x =
     Option.bind (strlen m x) (\<lambda>n.
       let l = int_of_size n;
           res = alloc (size_of_int (l + 1))
       in if res = 0 then Some (0, m) else Some (res, memcpy m res x (size_of_int (l + 1))))"

section \<open>Numeric options\<close>

text \<open>The digits of an option value, up to a blank or the end of the command line.\<close>

partial_function (option) num_option_digits :: "mem \<Rightarrow> nat \<Rightarrow> int \<Rightarrow> int option" where
  "num_option_digits m p result =
     (if m p \<noteq> 32 \<and> m p \<noteq> 0
      then num_option_digits m (Suc p) (result * 10 + (sint (m p) - 48)) else Some result)"

definition num_option :: "mem \<Rightarrow> nat \<Rightarrow> nat \<Rightarrow> int option" where
  "num_option m cmd_line opt =
     Option.bind (strstr m cmd_line opt) (\<lambda>found.
       case found of
         None \<Rightarrow> Some (- 1)
       | Some p \<Rightarrow>
           Option.bind (strlen m opt) (\<lambda>l.
             if m (p + l) = 61 then num_option_digits m (p + l + 1) 0 else Some (- 1)))"

section \<open>What memory holds\<close>

text \<open>\<open>bytes_at m p xs\<close>: the bytes \<open>xs\<close> lie at \<open>p\<close>; \<open>cstr m p xs\<close>: so does their terminator.\<close>

fun bytes_at :: "mem \<Rightarrow> nat \<Rightarrow> u8 list \<Rightarrow> bool" where
  "bytes_at m p [] \<longleftrightarrow> True"
| "bytes_at m p (x # xs) \<longleftrightarrow> m p = x \<and> bytes_at m (Suc p) xs"

definition cstr :: "mem \<Rightarrow> nat \<Rightarrow> u8 list \<Rightarrow> bool" where
  "cstr m p xs \<longleftrightarrow> bytes_at m p (xs @ [0]) \<and> 0 \<notin> set xs"

lemma cstr_Nil [simp]: "cstr m p [] \<longleftrightarrow> m p = 0"
  by (simp add: cstr_def)

lemma cstr_Cons [simp]: "cstr m p (x # xs) \<longleftrightarrow> m p = x \<and> x \<noteq> 0 \<and> cstr m (Suc p) xs"
  by (auto simp: cstr_def)

lemma bytes_at_iff: "bytes_at m p xs \<longleftrightarrow> (\<forall>i < length xs. m (p + i) = xs ! i)"
proof (induction xs arbitrary: p)
  case (Cons x xs)
  show ?case
  proof
    assume l: "bytes_at m p (x # xs)"
    show "\<forall>i < length (x # xs). m (p + i) = (x # xs) ! i"
    proof (intro allI impI)
      fix i assume "i < length (x # xs)"
      then show "m (p + i) = (x # xs) ! i" using l Cons.IH by (cases i) auto
    qed
  next
    assume r: "\<forall>i < length (x # xs). m (p + i) = (x # xs) ! i"
    have "m (Suc p + i) = xs ! i" if "i < length xs" for i using r that by (auto dest: spec [of _ "Suc i"])
    moreover have "m p = x" using r by (auto dest: spec [of _ 0])
    ultimately show "bytes_at m p (x # xs)" using Cons.IH by simp
  qed
qed simp

lemma bytes_at_append: "bytes_at m p (xs @ ys) \<longleftrightarrow> bytes_at m p xs \<and> bytes_at m (p + length xs) ys"
  by (induction xs arbitrary: p) auto

lemma bytes_at_cong: "(\<And>i. i < length xs \<Longrightarrow> m (p + i) = m' (p + i)) \<Longrightarrow> bytes_at m p xs = bytes_at m' p xs"
  by (simp add: bytes_at_iff)

lemma cstr_nth: "cstr m p xs \<Longrightarrow> i < length xs \<Longrightarrow> m (p + i) = xs ! i \<and> xs ! i \<noteq> 0"
proof -
  assume "cstr m p xs" "i < length xs"
  moreover from this have "xs ! i \<in> set xs" by simp
  ultimately show ?thesis unfolding cstr_def bytes_at_append by (metis bytes_at_iff)
qed

lemma cstr_end: "cstr m p xs \<Longrightarrow> m (p + length xs) = 0"
  by (simp add: cstr_def bytes_at_append)

section \<open>Functional behaviour\<close>

lemma memcmp_0_iff: "memcmp m cs ct n = 0 \<longleftrightarrow> (\<forall>i < n. m (cs + i) = m (ct + i))"
proof (induction n arbitrary: cs ct)
  case (Suc n)
  have "(\<forall>i < Suc n. m (cs + i) = m (ct + i)) \<longleftrightarrow> m cs = m ct \<and> (\<forall>i < n. m (Suc cs + i) = m (Suc ct + i))"
    by (auto simp: less_Suc_eq_0_disj)
  then show ?case using Suc by (simp add: Let_def)
qed simp

lemma strlen_from_cstr: "cstr m p xs \<Longrightarrow> strlen_from m p = Some (p + length xs)"
proof (induction xs arbitrary: p)
  case Nil
  then show ?case by (subst strlen_from.simps) simp
next
  case (Cons x xs)
  then show ?case by (subst strlen_from.simps) simp
qed

lemma strlen_cstr: "cstr m p xs \<Longrightarrow> strlen m p = Some (length xs)"
  by (simp add: strlen_def strlen_from_cstr)

lemma strnlen_cstr: "cstr m p xs \<Longrightarrow> strnlen m p n = min n (length xs)"
proof (induction n arbitrary: p xs)
  case (Suc n)
  then show ?case by (cases xs) auto
qed simp

lemma memcpy_eq:
  assumes "dest \<le> src \<or> src + n \<le> dest"
  shows "memcpy m dest src n = (\<lambda>a. if dest \<le> a \<and> a < dest + n then m (src + (a - dest)) else m a)"
  using assms
proof (induction n arbitrary: m dest src)
  case (Suc n)
  have "Suc dest \<le> Suc src \<or> Suc src + n \<le> Suc dest" using Suc.prems by linarith
  from Suc.IH [OF this, of "m(dest := m src)"]
  have "memcpy m dest src (Suc n) =
      (\<lambda>a. if Suc dest \<le> a \<and> a < Suc dest + n then (m(dest := m src)) (Suc src + (a - Suc dest))
           else (m(dest := m src)) a)"
    by (simp only: memcpy.simps)
  also have "\<dots> = (\<lambda>a. if dest \<le> a \<and> a < dest + Suc n then m (src + (a - dest)) else m a)"
  proof (rule ext)
    fix a
    consider "a < dest" | "a = dest" | "dest < a \<and> a < dest + Suc n" | "dest + Suc n \<le> a" by linarith
    then show "(if Suc dest \<le> a \<and> a < Suc dest + n then (m(dest := m src)) (Suc src + (a - Suc dest))
                else (m(dest := m src)) a)
             = (if dest \<le> a \<and> a < dest + Suc n then m (src + (a - dest)) else m a)"
      using Suc.prems by cases (auto simp: Suc_diff_Suc)
  qed
  finally show ?case .
qed (auto simp: fun_eq_iff)

lemma memset_eq: "memset m s c n = (\<lambda>a. if s \<le> a \<and> a < s + n then c else m a)"
  by (induction n arbitrary: m s) (auto simp: fun_eq_iff)

lemma strcmp_cstr:
  assumes "cstr m p xs" and "cstr m q ys"
  shows "\<exists>r. strcmp m p q = Some r \<and> (r = 0 \<longleftrightarrow> xs = ys)"
  using assms
proof (induction xs arbitrary: p q ys)
  case Nil
  then show ?case by (cases ys) (subst strcmp.simps, auto simp: Let_def)+
next
  case (Cons x xs)
  show ?case
  proof (cases "m q = x")
    case True
    with Cons.prems obtain zs where ys: "ys = x # zs" "cstr m (Suc q) zs" by (cases ys) auto
    have "strcmp m p q = strcmp m (Suc p) (Suc q)"
      using True Cons.prems by (subst strcmp.simps) (simp add: Let_def)
    with Cons.IH [of "Suc p" "Suc q" zs] Cons.prems ys show ?thesis by auto
  next
    case False
    have "strcmp m p q = Some (sint (x - m q))"
      using False Cons.prems by (subst strcmp.simps) (auto simp: Let_def)
    moreover have "x # xs \<noteq> ys" using False Cons.prems(2) by (cases ys) auto
    ultimately show ?thesis using False by simp
  qed
qed

lemma strcpy_cstr:
  assumes "cstr m src xs" and "dest + length xs < src \<or> src + length xs < dest"
  shows "strcpy m dest src = Some (memcpy m dest src (Suc (length xs)))"
  using assms
proof (induction xs arbitrary: m dest src)
  case Nil
  then show ?case by (subst strcpy.simps) (simp add: Let_def)
next
  case (Cons x xs)
  have "strcpy m dest src = strcpy (m(dest := x)) (Suc dest) (Suc src)"
    using Cons.prems(1) by (subst strcpy.simps) (simp add: Let_def)
  moreover have "m src = x" using Cons.prems(1) by simp
  moreover have "cstr (m(dest := x)) (Suc src) xs"
    using Cons.prems unfolding cstr_def by (auto simp: bytes_at_iff)
  moreover have "Suc dest + length xs < Suc src \<or> Suc src + length xs < Suc dest"
    using Cons.prems(2) by auto
  ultimately show ?case using Cons.IH [of "m(dest := x)" "Suc src" "Suc dest"]
    by (simp only: memcpy.simps list.size add_Suc_right add_0_right)
qed

lemma memcpy_bytes:
  assumes "bytes_at m src xs" and "dest \<le> src \<or> src + length xs \<le> dest"
  shows "bytes_at (memcpy m dest src (length xs)) dest xs"
  using assms(1) unfolding memcpy_eq [OF assms(2)] by (simp add: bytes_at_iff)

text \<open>The first occurrence of one string in another.\<close>

definition occurs_at :: "u8 list \<Rightarrow> u8 list \<Rightarrow> nat \<Rightarrow> bool" where
  "occurs_at xs ys k \<longleftrightarrow> k + length ys \<le> length xs \<and> take (length ys) (drop k xs) = ys"

lemma occurs_at_iff:
  assumes "cstr m p xs" and "cstr m q ys" and "k + length ys \<le> length xs"
  shows "memcmp m (p + k) q (length ys) = 0 \<longleftrightarrow> occurs_at xs ys k"
proof -
  have "m (p + k + i) = xs ! (k + i)" "m (q + i) = ys ! i" if "i < length ys" for i
    using cstr_nth [OF assms(1), of "k + i"] cstr_nth [OF assms(2) that] assms(3) that
    by (auto simp: add.assoc)
  then have "memcmp m (p + k) q (length ys) = 0 \<longleftrightarrow> (\<forall>i < length ys. xs ! (k + i) = ys ! i)"
    by (simp add: memcmp_0_iff)
  also have "\<dots> \<longleftrightarrow> occurs_at xs ys k"
    using assms(3) by (auto simp: occurs_at_def list_eq_iff_nth_eq)
  finally show ?thesis .
qed

lemma int_of_size_small: "n < 2 ^ 31 \<Longrightarrow> int_of_size n = int n"
  by (simp add: int_of_size_def sint_uint uint_nat unat_of_nat take_bit_nat_eq_self signed_take_bit_int_eq_self)

lemma int_of_size_large:
  assumes "2 ^ 31 \<le> n" and "n < 2 ^ 32"
  shows "int_of_size n < 0"
proof -
  have "n div 2 ^ 31 = 1" using assms by (intro div_nat_eqI) simp_all
  then have "bit n 31" by (simp add: bit_iff_odd)
  then have "bit (int n) 31" by (simp add: bit_of_nat_iff_bit)
  moreover have "uint (of_nat n :: u32) = int n" using assms(2) by (simp add: uint_nat unat_of_nat take_bit_nat_eq_self)
  ultimately show ?thesis by (simp add: int_of_size_def sint_uint signed_take_bit_negative_iff)
qed

lemma size_of_int_nat: "n < 2 ^ 31 \<Longrightarrow> size_of_int (int n) = n"
  by (simp add: size_of_int_def)

lemma strstr_loop_spec:
  assumes "cstr m p xs" and "cstr m q ys" and "ys \<noteq> []" and "k \<le> length xs" and "length ys < 2 ^ 31"
  shows "case strstr_loop m (p + k) q (int (length ys)) (int (length xs) - int k) of
           Some a \<Rightarrow> \<exists>j. a = p + j \<and> k \<le> j \<and> occurs_at xs ys j \<and> (\<forall>i. k \<le> i \<and> i < j \<longrightarrow> \<not> occurs_at xs ys i)
         | None \<Rightarrow> \<forall>j. k \<le> j \<longrightarrow> \<not> occurs_at xs ys j"
  using assms(4)
proof (induction "length xs - k" arbitrary: k rule: less_induct)
  case less
  have l2: "0 < length ys" using assms(3) by simp
  show ?case
  proof (cases "length ys \<le> length xs - k")
    case False
    then have "\<not> int (length ys) \<le> int (length xs) - int k" using less.prems by linarith
    then have "strstr_loop m (p + k) q (int (length ys)) (int (length xs) - int k) = None"
      by (subst strstr_loop.simps) simp
    with False show ?thesis by (auto simp: occurs_at_def)
  next
    case True
    then have le: "k + length ys \<le> length xs" "k < length xs" "int (length ys) \<le> int (length xs) - int k"
      using l2 less.prems by linarith+
    have one: "int (length xs) - int k - 1 = int (length xs) - int (Suc k)" by simp
    show ?thesis
    proof (cases "occurs_at xs ys k")
      case True
      then have "strstr_loop m (p + k) q (int (length ys)) (int (length xs) - int k) = Some (p + k)"
        using occurs_at_iff [OF assms(1,2) le(1)] size_of_int_nat [OF assms(5)] \<open>length ys \<le> length xs - k\<close>
        by (subst strstr_loop.simps) (use le(3) in simp)
      with True le show ?thesis by auto
    next
      case no: False
      then have eq: "strstr_loop m (p + k) q (int (length ys)) (int (length xs) - int k)
                 = strstr_loop m (p + Suc k) q (int (length ys)) (int (length xs) - int (Suc k))"
        using occurs_at_iff [OF assms(1,2) le(1)] size_of_int_nat [OF assms(5)] \<open>length ys \<le> length xs - k\<close>
        by (subst strstr_loop.simps) (use le(3) in \<open>simp add: one del: of_nat_Suc\<close>)
      have later: "Suc k \<le> j" if "k \<le> j" "occurs_at xs ys j" for j
        using that no by (cases "j = k") auto
      have "length xs - Suc k < length xs - k" "Suc k \<le> length xs" using le by auto
      note IH = less.hyps [OF this]
      show ?thesis
      proof (cases "strstr_loop m (p + Suc k) q (int (length ys)) (int (length xs) - int (Suc k))")
        case None
        with IH have "\<forall>j. Suc k \<le> j \<longrightarrow> \<not> occurs_at xs ys j" by simp
        with later show ?thesis unfolding eq None by auto
      next
        case (Some a)
        with IH obtain j where "a = p + j" "Suc k \<le> j" "occurs_at xs ys j"
          "\<forall>i. Suc k \<le> i \<and> i < j \<longrightarrow> \<not> occurs_at xs ys i" by auto
        with later show ?thesis unfolding eq Some option.case by (intro exI [of _ j]) auto
      qed
    qed
  qed
qed

lemma sint_diff_neg_iff:
  assumes "uint (x :: u8) < uint y"
  shows "sint (x - y) < 0 \<longleftrightarrow> uint y - uint x \<le> 128"
proof -
  define d where "d = uint x - uint y"
  have "0 \<le> uint x" "uint y < 256" using uint_lt2p [of y] by simp_all
  with assms have d: "- 256 < d" "d < 0" unfolding d_def by linarith+
  have "x - y = word_of_int d" by (simp add: d_def)
  then have s: "sint (x - y) = (d + 128) mod 256 - 128" by (simp add: int_word_sint)
  show ?thesis
  proof (cases "- 128 \<le> d")
    case True
    then have "(d + 128) mod 256 = d + 128" using d by (intro mod_pos_pos_trivial) auto
    with s True d show ?thesis by (simp add: d_def)
  next
    case False
    have "(d + 128) mod 256 = (d + 128 + 256) mod 256" by (rule mod_add_self2 [symmetric])
    also have "\<dots> = d + 384" using d False by (subst mod_pos_pos_trivial) auto
    finally show ?thesis using s False d by (simp add: d_def)
  qed
qed

section \<open>Properties\<close>

text \<open>
  C27. \<open>strlen\<close> returns on every terminated string and gives its length, and \<open>strnlen\<close> gives that
  length cut at the bound.
\<close>

theorem strlen_correct:
  assumes "cstr m p xs"
  shows "strlen m p = Some (length xs) \<and> strnlen m p n = min n (length xs)"
  using assms by (simp add: strlen_cstr strnlen_cstr)

definition hello :: mem where
  "hello = (\<lambda>a. if a < 8 then [72, 105, 0, 72, 105, 33, 0, 0] ! a else 0)"

theorem strlen_correct_witness: "strlen hello 3 = Some 3 \<and> strnlen hello 3 2 = 2"
  using strlen_correct [of hello 3 "[72, 105, 33]" 2] by (simp add: hello_def)

text \<open>
  C28. \<open>strcmp\<close> returns on terminated strings, with 0 exactly for equal strings; \<open>memcmp\<close> gives 0
  exactly for equal blocks.
\<close>

theorem string_compare_zero:
  assumes "cstr m p xs" and "cstr m q ys"
  shows "(\<exists>r. strcmp m p q = Some r \<and> (r = 0 \<longleftrightarrow> xs = ys)) \<and>
         (memcmp m p q n = 0 \<longleftrightarrow> (\<forall>i < n. m (p + i) = m (q + i)))"
  using strcmp_cstr [OF assms] memcmp_0_iff by blast

theorem string_compare_zero_witness: "\<exists>r. strcmp hello 0 3 = Some r \<and> r \<noteq> 0"
  using string_compare_zero [of hello 0 "[72, 105]" 3 "[72, 105, 33]" 0] by (simp add: hello_def)

text \<open>
  The order \<open>memcmp\<close> reports on a smaller first byte is right exactly when the bytes differ
  by at most 128: its result goes through a \<open>signed char\<close>, which reverses the sign of larger
  differences.
\<close>

theorem memcmp_order:
  assumes "uint (m p) < uint (m q)"
  shows "memcmp m p q (Suc n) < 0 \<longleftrightarrow> uint (m q) - uint (m p) \<le> 128"
proof -
  have "m p \<noteq> m q" using assms by auto
  then show ?thesis using sint_diff_neg_iff [OF assms] by (simp add: Let_def)
qed

theorem memcmp_order_witness: "\<not> memcmp (\<lambda>a. if a = 0 then 1 else 200) 0 1 1 < 0"
  using memcmp_order [of "\<lambda>a. if a = 0 then 1 else 200" 0 1 0] by simp

text \<open>
  \<open>strcpy\<close> of a terminated string to a place that does not overlap it returns; afterwards
  the string is at the destination and no byte outside the copied range has changed.
\<close>

theorem strcpy_correct:
  assumes "cstr m src xs" and "dest + length xs < src \<or> src + length xs < dest"
  shows "\<exists>m'. strcpy m dest src = Some m' \<and> cstr m' dest xs \<and>
              (\<forall>a. a < dest \<or> dest + length xs < a \<longrightarrow> m' a = m a)"
proof -
  have ov: "dest \<le> src \<or> src + Suc (length xs) \<le> dest" using assms(2) by linarith
  have "bytes_at m src (xs @ [0])" using assms(1) by (simp add: cstr_def)
  then have "cstr (memcpy m dest src (Suc (length xs))) dest xs"
    using memcpy_bytes [of m src "xs @ [0]" dest] ov assms(1) by (simp add: cstr_def)
  then show ?thesis
    unfolding strcpy_cstr [OF assms] memcpy_eq [OF ov] by simp
qed

theorem strcpy_correct_witness: "\<exists>m'. strcpy hello 20 3 = Some m' \<and> cstr m' 20 [72, 105, 33]"
  using strcpy_correct [of hello 3 "[72, 105, 33]" 20] by (auto simp: hello_def)



end
