(* ===== verification/Guk_Clist.thy ===== *)
theory Guk_Clist
  imports Guk_Prelude
begin

text \<open>
  The intrusive doubly linked lists of \<open>include/list.h\<close>. The heap gives every \<open>list_head\<close>
  address its \<open>next\<close> and \<open>prev\<close>; the operations assign to it in the order of the source.
  \<open>clist h head xs\<close> says that the ring through the head \<open>head\<close> holds the entries \<open>xs\<close>; every
  operation is shown to implement the corresponding operation on HOL lists. The components
  that use these lists (run queues, wait queues, free lists, holes) are modelled on HOL lists.
\<close>

record list_heap =
  lh_next :: "nat \<Rightarrow> nat"
  lh_prev :: "nat \<Rightarrow> nat"

definition INIT_LIST_HEAD :: "nat \<Rightarrow> list_heap \<Rightarrow> list_heap" where
  "INIT_LIST_HEAD p h =
     (let h1 = h\<lparr>lh_next := (lh_next h)(p := p)\<rparr> in h1\<lparr>lh_prev := (lh_prev h1)(p := p)\<rparr>)"

definition list_add_between :: "nat \<Rightarrow> nat \<Rightarrow> nat \<Rightarrow> list_heap \<Rightarrow> list_heap" where
  "list_add_between new p n h =
     (let h1 = h\<lparr>lh_prev := (lh_prev h)(n := new)\<rparr>;
          h2 = h1\<lparr>lh_next := (lh_next h1)(new := n)\<rparr>;
          h3 = h2\<lparr>lh_prev := (lh_prev h2)(new := p)\<rparr>
      in h3\<lparr>lh_next := (lh_next h3)(p := new)\<rparr>)"

definition list_add :: "nat \<Rightarrow> nat \<Rightarrow> list_heap \<Rightarrow> guk_stop + list_heap" where
  "list_add new head h =
     (let h1 = list_add_between new head (lh_next h head) h
      in if lh_next h1 new = new then Inl BUG else Inr h1)"

definition list_add_tail :: "nat \<Rightarrow> nat \<Rightarrow> list_heap \<Rightarrow> guk_stop + list_heap" where
  "list_add_tail new head h =
     (let h1 = list_add_between new (lh_prev h head) head h
      in if lh_next h1 new = new then Inl BUG else Inr h1)"

definition list_del_between :: "nat \<Rightarrow> nat \<Rightarrow> list_heap \<Rightarrow> list_heap" where
  "list_del_between p n h =
     (let h1 = h\<lparr>lh_prev := (lh_prev h)(n := p)\<rparr> in h1\<lparr>lh_next := (lh_next h1)(p := n)\<rparr>)"

definition list_del :: "nat \<Rightarrow> list_heap \<Rightarrow> list_heap" where
  "list_del e h = list_del_between (lh_prev h e) (lh_next h e) h"

definition list_del_init :: "nat \<Rightarrow> list_heap \<Rightarrow> list_heap" where
  "list_del_init e h = INIT_LIST_HEAD e (list_del_between (lh_prev h e) (lh_next h e) h)"

definition list_empty :: "nat \<Rightarrow> list_heap \<Rightarrow> bool" where
  "list_empty head h \<longleftrightarrow> lh_next h head = head"

definition list_splice :: "nat \<Rightarrow> nat \<Rightarrow> list_heap \<Rightarrow> list_heap" where
  "list_splice list head h =
     (let first = lh_next h list
      in if first \<noteq> list
         then let last = lh_prev h list;
                  at = lh_next h head;
                  h1 = h\<lparr>lh_prev := (lh_prev h)(first := head)\<rparr>;
                  h2 = h1\<lparr>lh_next := (lh_next h1)(head := first)\<rparr>;
                  h3 = h2\<lparr>lh_next := (lh_next h2)(last := at)\<rparr>
              in h3\<lparr>lh_prev := (lh_prev h3)(at := last)\<rparr>
         else h)"

text \<open>\<open>list_for_each\<close>: the entries in the order the macro visits them.\<close>

partial_function (option) list_for_each :: "list_heap \<Rightarrow> nat \<Rightarrow> nat \<Rightarrow> nat list option" where
  "list_for_each h head pos =
     (if pos \<noteq> head
      then Option.bind (list_for_each h head (lh_next h pos)) (\<lambda>xs. Some (pos # xs)) else Some [])"

section \<open>The list a ring represents\<close>

fun dseg :: "list_heap \<Rightarrow> nat \<Rightarrow> nat list \<Rightarrow> nat \<Rightarrow> bool" where
  "dseg h a [] b \<longleftrightarrow> lh_next h a = b \<and> lh_prev h b = a"
| "dseg h a (x # xs) b \<longleftrightarrow> lh_next h a = x \<and> lh_prev h x = a \<and> dseg h x xs b"

definition clist :: "list_heap \<Rightarrow> nat \<Rightarrow> nat list \<Rightarrow> bool" where
  "clist h head xs \<longleftrightarrow> distinct (head # xs) \<and> dseg h head xs head"

lemma dseg_append: "dseg h a (xs @ y # ys) b \<longleftrightarrow> dseg h a xs y \<and> dseg h y ys b"
  by (induction xs arbitrary: a) auto

lemma dseg_next_upd [simp]:
  "p \<notin> insert a (set xs) \<Longrightarrow> dseg (h\<lparr>lh_next := (lh_next h)(p := v)\<rparr>) a xs b = dseg h a xs b"
  by (induction xs arbitrary: a) auto

lemma dseg_prev_upd [simp]:
  "p \<notin> insert b (set xs) \<Longrightarrow> dseg (h\<lparr>lh_prev := (lh_prev h)(p := v)\<rparr>) a xs b = dseg h a xs b"
  by (induction xs arbitrary: a) auto

lemma dseg_cong:
  assumes "\<And>p. p \<in> insert a (set xs) \<Longrightarrow> lh_next g p = lh_next h p"
    and "\<And>p. p \<in> insert b (set xs) \<Longrightarrow> lh_prev g p = lh_prev h p"
  shows "dseg g a xs b = dseg h a xs b"
  using assms by (induction xs arbitrary: a) auto

lemma dseg_prev_end: "dseg h a xs b \<Longrightarrow> lh_prev h b = last (a # xs)"
  by (induction xs arbitrary: a) auto

lemma dseg_next_start: "dseg h a xs b \<Longrightarrow> lh_next h a = hd (xs @ [b])"
  by (cases xs) auto

lemma dseg_snoc: "dseg h a (xs @ [y]) b \<longleftrightarrow> dseg h a xs y \<and> lh_next h y = b \<and> lh_prev h b = y"
  by (simp add: dseg_append)

text \<open>Inserting before the end of a segment and taking out of the middle of one.\<close>

lemma dseg_insert:
  assumes "dseg h a xs b" and "distinct (a # xs)" and "b \<notin> set xs" and "new \<notin> {a, b} \<union> set xs"
  shows "dseg (list_add_between new (last (a # xs)) b h) a (xs @ [new]) b"
  using assms
proof (induction xs arbitrary: a)
  case Nil
  then show ?case by (auto simp: list_add_between_def Let_def)
next
  case (Cons x xs)
  have "last (x # xs) \<noteq> a" using Cons.prems(2) by (metis distinct.simps(2) last_in_set list.discI)
  then have "lh_next (list_add_between new (last (x # xs)) b h) a = x"
    "lh_prev (list_add_between new (last (x # xs)) b h) x = a"
    using Cons.prems by (auto simp: list_add_between_def Let_def)
  with Cons show ?case by simp
qed

lemma dseg_insert_frame:
  assumes "new \<notin> {c, d} \<union> set ys" and "p \<notin> insert c (set ys)" and "n \<notin> insert d (set ys)"
  shows "dseg (list_add_between new p n h) c ys d = dseg h c ys d"
  using assms by (intro dseg_cong) (auto simp: list_add_between_def Let_def)

lemma dseg_delete:
  assumes "dseg h a xs e" and "dseg h e ys b" and "distinct (a # xs @ e # ys)" and "b \<notin> set (xs @ e # ys)"
  shows "dseg (list_del_between (last (a # xs)) (hd (ys @ [b])) h) a (xs @ ys) b"
  using assms
proof (induction xs arbitrary: a)
  case Nil
  show ?case
  proof (cases ys)
    case Nil
    then show ?thesis by (simp add: list_del_between_def Let_def)
  next
    case (Cons y zs)
    with Nil.prems have "dseg (list_del_between a y h) y zs b = dseg h y zs b"
      by (intro dseg_cong) (auto simp: list_del_between_def Let_def)
    with Cons Nil.prems show ?thesis by (simp add: list_del_between_def Let_def)
  qed
next
  case (Cons x xs)
  have "last (x # xs) \<noteq> a" "hd (ys @ [b]) \<noteq> x"
    using Cons.prems(3,4) by (auto simp: hd_append split: if_splits dest: last_in_set hd_in_set)
  then have "lh_next (list_del_between (last (x # xs)) (hd (ys @ [b])) h) a = x"
    "lh_prev (list_del_between (last (x # xs)) (hd (ys @ [b])) h) x = a"
    using Cons.prems(1) by (auto simp: list_del_between_def Let_def)
  with Cons show ?case by simp
qed

section \<open>The operations on lists\<close>

lemma clist_init: "clist (INIT_LIST_HEAD p h) p []"
  by (simp add: clist_def INIT_LIST_HEAD_def Let_def)

lemma list_empty_iff: "clist h head xs \<Longrightarrow> list_empty head h \<longleftrightarrow> xs = []"
  by (cases xs) (auto simp: clist_def list_empty_def)

text \<open>\<open>list_add_tail\<close> before the head or before any entry.\<close>

lemma list_add_tail_end:
  assumes "clist h head xs" and "new \<notin> insert head (set xs)"
  shows "\<exists>h'. list_add_tail new head h = Inr h' \<and> clist h' head (xs @ [new])"
proof -
  have d: "dseg h head xs head" "distinct (head # xs)" using assms(1) by (simp_all add: clist_def)
  define h' where "h' = list_add_between new (last (head # xs)) head h"
  have "dseg h' head (xs @ [new]) head"
    unfolding h'_def using d assms(2) by (intro dseg_insert) auto
  moreover from this have "lh_next h' new \<noteq> new" using assms(2) by (auto simp: dseg_snoc)
  ultimately show ?thesis
    using d assms(2) dseg_prev_end [OF d(1)] by (auto simp: list_add_tail_def Let_def h'_def clist_def)
qed

lemma list_add_tail_before:
  assumes "clist h head (xs @ y # ys)" and "new \<notin> insert head (set (xs @ y # ys))"
  shows "\<exists>h'. list_add_tail new y h = Inr h' \<and> clist h' head (xs @ new # y # ys)"
proof -
  have d: "dseg h head xs y" "dseg h y ys head" "distinct (head # xs @ y # ys)"
    using assms(1) by (simp_all add: clist_def dseg_append)
  define h' where "h' = list_add_between new (last (head # xs)) y h"
  have "last (head # xs) \<in> insert head (set xs)" by (cases xs) auto
  then have "last (head # xs) \<notin> insert y (set ys)" using d(3) by auto
  then have "dseg h' y ys head"
    unfolding h'_def using d assms(2) by (subst dseg_insert_frame) auto
  moreover have seg: "dseg h' head (xs @ [new]) y"
    unfolding h'_def using d assms(2) by (intro dseg_insert) auto
  moreover have "lh_next h' new = y" using seg(1) by (simp add: dseg_snoc)
  ultimately show ?thesis
    using d assms(2) dseg_prev_end [OF d(1)]
    by (auto simp: list_add_tail_def Let_def h'_def clist_def dseg_append)
qed

lemma list_add_front:
  assumes "clist h head xs" and "new \<notin> insert head (set xs)"
  shows "\<exists>h'. list_add new head h = Inr h' \<and> clist h' head (new # xs)"
proof (cases xs)
  case Nil
  with list_add_tail_end [OF assms] assms show ?thesis
    by (auto simp: list_add_tail_def list_add_def clist_def)
next
  case (Cons y ys)
  then have "\<exists>h'. list_add_tail new y h = Inr h' \<and> clist h' head ([] @ new # y # ys)"
    using assms by (intro list_add_tail_before) auto
  with Cons assms(1) show ?thesis by (auto simp: list_add_tail_def list_add_def clist_def)
qed

lemma list_del_middle:
  assumes "clist h head (xs @ e # ys)"
  shows "clist (list_del e h) head (xs @ ys)"
proof -
  have d: "dseg h head xs e" "dseg h e ys head" "distinct (head # xs @ e # ys)"
    using assms by (simp_all add: clist_def dseg_append)
  have "dseg (list_del_between (last (head # xs)) (hd (ys @ [head])) h) head (xs @ ys) head"
    using d by (intro dseg_delete) auto
  then show ?thesis
    using d dseg_prev_end [OF d(1)] dseg_next_start [OF d(2)] by (auto simp: clist_def list_del_def)
qed

lemma clist_init_frame: "clist h head xs \<Longrightarrow> p \<notin> insert head (set xs) \<Longrightarrow> clist (INIT_LIST_HEAD p h) head xs"
  unfolding clist_def by (subst dseg_cong) (auto simp: INIT_LIST_HEAD_def Let_def)

lemma list_del_init_middle:
  assumes "clist h head (xs @ e # ys)"
  shows "clist (list_del_init e h) head (xs @ ys) \<and> clist (list_del_init e h) e []"
  using clist_init_frame [OF list_del_middle [OF assms], of e] clist_init [of e] assms
  by (auto simp: list_del_init_def list_del_def clist_def)

lemma list_splice_front:
  assumes "clist h list ys" and "clist h head xs" and "insert list (set ys) \<inter> insert head (set xs) = {}"
  shows "clist (list_splice list head h) head (ys @ xs)"
proof (cases ys rule: rev_cases)
  case Nil
  with assms show ?thesis by (simp add: list_splice_def clist_def)
next
  case (snoc zs z)
  define b where "b = hd (xs @ [head])"
  define f where "f = hd ys"
  have y: "dseg h list (zs @ [z]) list" "distinct (list # zs @ [z])"
    and x: "dseg h head xs head" "distinct (head # xs)" using assms(1,2) snoc by (simp_all add: clist_def)
  have first: "lh_next h list = f" "f \<noteq> list" "f \<in> set ys"
    using dseg_next_start [OF y(1)] y(2) snoc by (auto simp: f_def hd_append)
  have last: "lh_prev h list = z" using y(1) by (simp add: dseg_snoc)
  have at: "lh_next h head = b" "b \<in> insert head (set xs)"
    using dseg_next_start [OF x(1)] by (auto simp: b_def) (metis hd_append hd_in_set list.sel(1))
  define g where "g = h\<lparr>lh_prev := (lh_prev h)(f := head, b := z), lh_next := (lh_next h)(head := f, z := b)\<rparr>"
  have g: "list_splice list head h = g"
    using first last at by (simp add: list_splice_def Let_def g_def)
  have dist: "distinct (head # ys @ xs)" using assms by (auto simp: clist_def)
  have zf: "z \<in> set ys" "f \<in> set ys" using first(3) snoc by auto
  have "dseg g z xs head"
  proof (cases xs)
    case Nil
    then show ?thesis using b_def by (simp add: g_def)
  next
    case (Cons v vs)
    then have "dseg g v vs head = dseg h v vs head"
      using dist zf b_def by (intro dseg_cong) (auto simp: g_def)
    with Cons x(1) b_def show ?thesis by (auto simp: g_def)
  qed
  moreover have "dseg g head zs z"
  proof (cases zs)
    case Nil
    then have "f = z" "b \<noteq> z" using snoc at(2) dist by (auto simp: f_def)
    with Nil dist zf show ?thesis by (auto simp: g_def)
  next
    case (Cons w ws)
    then have fw: "f = w" "b \<notin> set ys" using snoc at(2) dist by (auto simp: f_def)
    have "dseg h w ws z" using y(1) Cons by (simp add: dseg_append)
    moreover have "dseg g w ws z = dseg h w ws z"
      using Cons snoc dist fw by (intro dseg_cong) (auto simp: g_def)
    moreover have "lh_next g head = w" "lh_prev g w = head"
      using Cons snoc dist fw zf by (auto simp: g_def)
    ultimately show ?thesis using Cons by simp
  qed
  ultimately have "dseg g head (zs @ z # xs) head" by (simp add: dseg_append)
  then show ?thesis using dist snoc unfolding g clist_def by simp
qed

lemma list_for_each_dseg: "dseg h a xs head \<Longrightarrow> head \<notin> set xs \<Longrightarrow> list_for_each h head (lh_next h a) = Some xs"
proof (induction xs arbitrary: a)
  case Nil
  then show ?case by (subst list_for_each.simps) simp
next
  case (Cons x xs)
  then show ?case by (subst list_for_each.simps) auto
qed

lemma list_for_each_clist: "clist h head xs \<Longrightarrow> list_for_each h head (lh_next h head) = Some xs"
  by (simp add: clist_def list_for_each_dseg)

section \<open>Queues through a head\<close>

text \<open>
  What the clients of a list rely on when they use it as a queue: entries are added at the
  end, taken out anywhere, and the first is the one added first.
\<close>

locale intrusive_queue =
  fixes repr :: "'h \<Rightarrow> nat \<Rightarrow> nat list \<Rightarrow> bool"
    and enq :: "nat \<Rightarrow> nat \<Rightarrow> 'h \<Rightarrow> guk_stop + 'h"
    and del :: "nat \<Rightarrow> 'h \<Rightarrow> 'h"
    and front :: "'h \<Rightarrow> nat \<Rightarrow> nat"
  assumes repr_enq: "repr h q xs \<Longrightarrow> x \<notin> insert q (set xs) \<Longrightarrow> \<exists>h'. enq x q h = Inr h' \<and> repr h' q (xs @ [x])"
    and repr_del: "repr h q (xs @ x # ys) \<Longrightarrow> repr (del x h) q (xs @ ys)"
    and repr_front: "repr h q (x # xs) \<Longrightarrow> front h q = x"
    and repr_distinct: "repr h q xs \<Longrightarrow> distinct (q # xs)"
begin

fun enq_all :: "nat list \<Rightarrow> nat \<Rightarrow> 'h \<Rightarrow> guk_stop + 'h" where
  "enq_all [] q h = Inr h"
| "enq_all (x # xs) q h = res_bind (enq x q h) (enq_all xs q)"

fun deq_n :: "nat \<Rightarrow> nat \<Rightarrow> 'h \<Rightarrow> nat list \<times> 'h" where
  "deq_n 0 q h = ([], h)"
| "deq_n (Suc n) q h = (let x = front h q; (xs, h') = deq_n n q (del x h) in (x # xs, h'))"

lemma enq_all_repr:
  assumes "repr h q ys" and "distinct xs" and "set xs \<inter> insert q (set ys) = {}"
  shows "\<exists>h'. enq_all xs q h = Inr h' \<and> repr h' q (ys @ xs)"
  using assms
proof (induction xs arbitrary: h ys)
  case (Cons x xs)
  then obtain h1 where h1: "enq x q h = Inr h1" "repr h1 q (ys @ [x])" using repr_enq [of h q ys x] by auto
  have "\<exists>h'. enq_all xs q h1 = Inr h' \<and> repr h' q ((ys @ [x]) @ xs)"
    using Cons.prems h1(2) by (intro Cons.IH) auto
  with h1 show ?case by simp
qed simp

lemma deq_n_repr:
  assumes "repr h q (xs @ ys)"
  shows "\<exists>h'. deq_n (length xs) q h = (xs, h') \<and> repr h' q ys"
  using assms
proof (induction xs arbitrary: h)
  case (Cons x xs)
  have "front h q = x" "repr (del x h) q (xs @ ys)"
    using repr_front [of h q x "xs @ ys"] repr_del [of h q "[]" x "xs @ ys"] Cons.prems by simp_all
  with Cons.IH [of "del x h"] show ?case by auto
qed simp

lemma fifo:
  assumes "repr h q []" and "distinct xs" and "q \<notin> set xs"
  shows "\<exists>h1 h2. enq_all xs q h = Inr h1 \<and> deq_n (length xs) q h1 = (xs, h2) \<and> repr h2 q []"
proof -
  obtain h1 where h1: "enq_all xs q h = Inr h1" "repr h1 q xs"
    using enq_all_repr [OF assms(1,2)] assms(3) by auto
  moreover obtain h2 where "deq_n (length xs) q h1 = (xs, h2)" "repr h2 q []"
    using deq_n_repr [of h1 q xs "[]"] h1(2) by auto
  ultimately show ?thesis by blast
qed

end

interpretation lq: intrusive_queue clist list_add_tail list_del lh_next
proof unfold_locales
  fix h q xs x
  show "clist h q xs \<Longrightarrow> x \<notin> insert q (set xs) \<Longrightarrow> \<exists>h'. list_add_tail x q h = Inr h' \<and> clist h' q (xs @ [x])"
    by (rule list_add_tail_end)
  show "clist h q xs \<Longrightarrow> distinct (q # xs)" by (simp add: clist_def)
next
  fix h q xs x ys
  show "clist h q (xs @ x # ys) \<Longrightarrow> clist (list_del x h) q (xs @ ys)" by (rule list_del_middle)
  show "clist h q (x # xs) \<Longrightarrow> lh_next h q = x" by (simp add: clist_def)
qed

section \<open>Properties\<close>

text \<open>
  C11. The pointer operations implement the list operations, on every ring, the empty one included:
  initialising an entry makes it an empty ring and leaves the ring alone; adding at the head or at
  the tail, adding before an entry \<open>y\<close>, and deleting \<open>y\<close> give rings that hold the lists one expects,
  without tripping the corruption check; a deleted and reinitialised entry is an empty ring of its own;
  splicing another ring puts its entries in front; \<open>list_empty\<close> says whether the ring is
  empty; and iterating over the ring visits its entries in order.
\<close>

theorem list_ops_refine:
  assumes "clist h head zs" and "new \<notin> insert head (set zs)"
  shows "clist (INIT_LIST_HEAD new h) new [] \<and> clist (INIT_LIST_HEAD new h) head zs \<and>
         (\<exists>h'. list_add new head h = Inr h' \<and> clist h' head (new # zs)) \<and>
         (\<exists>h'. list_add_tail new head h = Inr h' \<and> clist h' head (zs @ [new])) \<and>
         (\<forall>xs y ys. zs = xs @ y # ys \<longrightarrow>
            (\<exists>h'. list_add_tail new y h = Inr h' \<and> clist h' head (xs @ new # y # ys)) \<and>
            clist (list_del y h) head (xs @ ys) \<and>
            clist (list_del_init y h) head (xs @ ys) \<and> clist (list_del_init y h) y []) \<and>
         (\<forall>list ls. clist h list ls \<and> insert list (set ls) \<inter> insert head (set zs) = {} \<longrightarrow>
            clist (list_splice list head h) head (ls @ zs)) \<and>
         (list_empty head h \<longleftrightarrow> zs = []) \<and> list_for_each h head (lh_next h head) = Some zs"
proof (intro conjI allI impI)
  fix xs y ys assume zs: "zs = xs @ y # ys"
  have c: "clist h head (xs @ y # ys)" using assms(1) unfolding zs .
  have n: "new \<notin> insert head (set (xs @ y # ys))" using assms(2) unfolding zs .
  show "\<exists>h'. list_add_tail new y h = Inr h' \<and> clist h' head (xs @ new # y # ys)"
    using c n by (rule list_add_tail_before)
  show "clist (list_del y h) head (xs @ ys)" using c by (rule list_del_middle)
  show "clist (list_del_init y h) head (xs @ ys)" "clist (list_del_init y h) y []"
    using list_del_init_middle [OF c] by simp_all
next
  fix list ls assume "clist h list ls \<and> insert list (set ls) \<inter> insert head (set zs) = {}"
  then show "clist (list_splice list head h) head (ls @ zs)" using list_splice_front [OF _ assms(1)] by blast
qed (rule clist_init clist_init_frame [OF assms] list_add_front [OF assms] list_add_tail_end [OF assms]
       list_empty_iff [OF assms(1)] list_for_each_clist [OF assms(1)])+

definition ring_of_two :: list_heap where
  "ring_of_two = \<lparr>lh_next = (\<lambda>p. if p = 1 then 2 else if p = 2 then 3 else 1),
                  lh_prev = (\<lambda>p. if p = 1 then 3 else if p = 3 then 2 else 1)\<rparr>"

theorem list_ops_refine_witness:
  "(\<exists>h'. list_add_tail 9 3 ring_of_two = Inr h' \<and> clist h' 1 [2, 9, 3]) \<and>
   (\<exists>h'. list_add 9 1 (INIT_LIST_HEAD 1 ring_of_two) = Inr h' \<and> clist h' 1 [9])"
proof -
  have c: "clist ring_of_two 1 [2, 3]" and n: "9 \<notin> insert 1 (set [2, 3 :: nat])"
    by (simp_all add: clist_def ring_of_two_def)
  note before = list_ops_refine [OF c n, THEN conjunct2, THEN conjunct2, THEN conjunct2, THEN conjunct2,
    THEN conjunct1, rule_format, of "[2]" 3 "[]", THEN conjunct1]
  have m: "9 \<notin> insert 1 (set ([] :: nat list))" by simp
  note front = list_ops_refine [OF clist_init m, of ring_of_two, THEN conjunct2, THEN conjunct2, THEN conjunct1]
  show ?thesis using before front by simp
qed

text \<open>
  Used through \<open>list_add_tail\<close> and the entry after the head, a list is a first-in first-out
  queue: what was enqueued comes out in the same order and leaves an empty ring.
\<close>

theorem list_fifo:
  assumes "distinct xs" and "q \<notin> set xs"
  shows "\<exists>h1 h2. lq.enq_all xs q (INIT_LIST_HEAD q h) = Inr h1 \<and> lq.deq_n (length xs) q h1 = (xs, h2) \<and>
                 list_empty q h2"
  using lq.fifo [OF clist_init assms] list_empty_iff by blast

theorem list_fifo_witness:
  "\<exists>h1 h2. lq.enq_all [5, 3] 1 (INIT_LIST_HEAD 1 ring_of_two) = Inr h1 \<and>
           lq.deq_n (length [5, 3 :: nat]) 1 h1 = ([5, 3], h2) \<and> list_empty 1 h2"
proof -
  have "distinct [5, 3 :: nat]" "(1 :: nat) \<notin> set [5, 3]" by simp_all
  then show ?thesis by (rule list_fifo)
qed

end
