(* ===== verification/Guk_Xmalloc.thy ===== *)
theory Guk_Xmalloc
  imports Guk_Strings Guk_Balloon
begin

text \<open>
  The memory allocator of \<open>lib/xmalloc.c\<close>: blocks with a header, a first-fit free list, blocks
  of a page split on allocation and merged on release, large requests served in whole pages.

  The struct header has 24 bytes and alignment 8: \<open>__cacheline_aligned\<close> is no attribute in
  these sources (no header defines it), so it only names a variable. The heap keeps what the
  headers hold: the size, and whether the list pointers are set. The page allocator below is
  reached through two arguments, \<open>palloc\<close> and \<open>pfree\<close>; their contract is the locale
  \<open>page_provider\<close>, which the allocator of \<open>mm.c\<close> satisfies.
\<close>

unbundle bit_operations_syntax

record 'p xheap =
  freelist :: "nat list"
  hsize :: "nat \<Rightarrow> nat"
  hlinked :: "nat \<Rightarrow> bool"
  xpages :: 'p

definition sizeof_hdr :: nat where
  "sizeof_hdr = 24"

definition align_up :: "u64 \<Rightarrow> u64 \<Rightarrow> u64" where
  "align_up sz align = (sz + align - 1) AND NOT (align - 1)"

definition maybe_split :: "nat \<Rightarrow> nat \<Rightarrow> nat \<Rightarrow> 'p xheap \<Rightarrow> 'p xheap" where
  "maybe_split hdr sz block st =
     (let leftover = block - sz;
          extra = hdr + sz;
          (sz', st1) =
            (if leftover \<ge> 2 * sizeof_hdr
             then (sz, st\<lparr>hsize := (hsize st)(extra := leftover), freelist := extra # freelist st,
                            hlinked := (hlinked st)(extra := True)\<rparr>)
             else (block, st))
      in st1\<lparr>hsize := (hsize st1)(hdr := sz'), hlinked := (hlinked st1)(hdr := False)\<rparr>)"

definition xmalloc_new_page ::
  "(int \<Rightarrow> 'p \<Rightarrow> guk_stop + nat \<times> 'p) \<Rightarrow> nat \<Rightarrow> 'p xheap \<Rightarrow> guk_stop + nat \<times> 'p xheap" where
  "xmalloc_new_page palloc sz st =
     res_bind (palloc 1 (xpages st)) (\<lambda>(hdr, p).
       let st1 = st\<lparr>xpages := p\<rparr>
       in if hdr = 0 then Inr (0, st1)
          else Inr (hdr + sizeof_hdr, maybe_split hdr sz 4096 st1))"

definition xmalloc_whole_pages ::
  "(int \<Rightarrow> 'p \<Rightarrow> guk_stop + nat \<times> 'p) \<Rightarrow> u64 \<Rightarrow> 'p xheap \<Rightarrow> guk_stop + nat \<times> 'p xheap" where
  "xmalloc_whole_pages palloc sz st =
     (let asize = align_up sz 4096
      in res_bind (palloc (int_of_size (unat (asize div 4096))) (xpages st)) (\<lambda>(hdr, p).
           let st1 = st\<lparr>xpages := p\<rparr>
           in if hdr = 0 then Inr (0, st1)
              else Inr (hdr + sizeof_hdr, st1\<lparr>hsize := (hsize st1)(hdr := unat asize),
                                             hlinked := (hlinked st1)(hdr := False)\<rparr>)))"

definition guk_xmalloc ::
  "(int \<Rightarrow> 'p \<Rightarrow> guk_stop + nat \<times> 'p) \<Rightarrow> bool \<Rightarrow> u64 \<Rightarrow> 'p xheap \<Rightarrow> guk_stop + nat \<times> 'p xheap" where
  "guk_xmalloc palloc in_irq asize st =
     (if in_irq then Inl BUG
      else let sz = align_up (asize + of_nat sizeof_hdr) 8
           in if sz \<ge> 4096 then xmalloc_whole_pages palloc sz st
              else (case find (\<lambda>i. \<not> hsize st i < unat sz) (freelist st) of
                      Some i \<Rightarrow>
                        Inr (i + sizeof_hdr,
                             maybe_split i (unat sz) (hsize st i)
                               (st\<lparr>freelist := remove1 i (freelist st)\<rparr>))
                    | None \<Rightarrow> xmalloc_new_page palloc (unat sz) st))"

text \<open>
  The loop of \<open>guk_xfree\<close> over the free list: a block that ends where the freed one starts, or
  starts where it ends, is taken off the list and joined with it, within one page. \<open>_hdr\<close>
  keeps the address at the start of the round, as in the source.
\<close>

fun merge_loop :: "nat \<Rightarrow> nat list \<Rightarrow> 'p xheap \<Rightarrow> nat \<times> 'p xheap" where
  "merge_loop hdr [] st = (hdr, st)"
| "merge_loop hdr (i # is) st =
     (if i div 4096 \<noteq> hdr div 4096 then merge_loop hdr is st
      else let (hdr', st1) =
                 (if i + hsize st i = hdr
                  then (i, st\<lparr>freelist := remove1 i (freelist st),
                              hsize := (hsize st)(i := hsize st i + hsize st hdr)\<rparr>)
                  else (hdr, st));
               st2 =
                 (if hdr + hsize st1 hdr' = i
                  then st1\<lparr>freelist := remove1 i (freelist st1),
                           hsize := (hsize st1)(hdr' := hsize st1 hdr' + hsize st1 i)\<rparr>
                  else st1)
           in merge_loop hdr' is st2)"

definition guk_xfree ::
  "(nat \<Rightarrow> int \<Rightarrow> 'p \<Rightarrow> guk_stop + 'p) \<Rightarrow> bool \<Rightarrow> nat \<Rightarrow> 'p xheap \<Rightarrow> guk_stop + 'p xheap" where
  "guk_xfree pfree in_irq p st =
     (if in_irq then Inl BUG
      else if p = 0 then Inr st
      else let hdr = p - sizeof_hdr
           in if p div 4096 \<noteq> hdr div 4096 then Inl FAULT
              else if hlinked st hdr then Inl FAULT
              else if hsize st hdr \<ge> 4096
              then res_bind (pfree hdr (int_of_size (hsize st hdr div 4096)) (xpages st)) (\<lambda>q. Inr (st\<lparr>xpages := q\<rparr>))
              else let (hdr', st1) = merge_loop hdr (freelist st) st
                   in if hsize st1 hdr' = 4096
                      then if hdr' mod 4096 \<noteq> 0 then Inl FAULT
                           else res_bind (pfree hdr' 1 (xpages st1)) (\<lambda>q. Inr (st1\<lparr>xpages := q\<rparr>))
                      else Inr (st1\<lparr>freelist := hdr' # freelist st1,
                                    hlinked := (hlinked st1)(hdr' := True)\<rparr>))"

text \<open>
  \<open>guk_xrealloc\<close> also moves the contents; the copy to a null result is a fault. The size of the old
  block is kept in an \<open>int\<close>, which the comparison with a \<open>size_t\<close> and the copy extend again.
\<close>

definition guk_xrealloc ::
  "(int \<Rightarrow> 'p \<Rightarrow> guk_stop + nat \<times> 'p) \<Rightarrow> (nat \<Rightarrow> int \<Rightarrow> 'p \<Rightarrow> guk_stop + 'p) \<Rightarrow> bool \<Rightarrow> nat \<Rightarrow> u64
   \<Rightarrow> mem \<Rightarrow> 'p xheap \<Rightarrow> guk_stop + nat \<times> mem \<times> 'p xheap" where
  "guk_xrealloc palloc pfree in_irq p sz m st =
     (if in_irq then Inl BUG
      else if p = 0 then res_bind (guk_xmalloc palloc in_irq sz st) (\<lambda>(r, st1). Inr (r, m, st1))
      else let psize = int_of_size (hsize st (p - sizeof_hdr) - sizeof_hdr)
           in if size_of_int psize \<ge> unat sz then Inr (p, m, st)
              else res_bind (guk_xmalloc palloc in_irq sz st) (\<lambda>(r, st1).
                     if r = 0 \<and> size_of_int psize > 0 then Inl FAULT
                     else res_bind (guk_xfree pfree in_irq p st1) (\<lambda>st2.
                            Inr (r, memcpy m r p (size_of_int psize), st2))))"

definition guk_xmalloc_array ::
  "(int \<Rightarrow> 'p \<Rightarrow> guk_stop + nat \<times> 'p) \<Rightarrow> bool \<Rightarrow> u64 \<Rightarrow> u64 \<Rightarrow> 'p xheap \<Rightarrow> guk_stop + nat \<times> 'p xheap" where
  "guk_xmalloc_array palloc in_irq sz num st =
     (if sz \<noteq> 0 \<and> num > 0xFFFFFFFF div sz then Inr (0, st)
      else guk_xmalloc palloc in_irq (sz * num) st)"

section \<open>Blocks\<close>

text \<open>The bytes of a block, and the pages they lie in.\<close>

definition ext :: "'p xheap \<Rightarrow> nat \<Rightarrow> nat set" where
  "ext st b = {b..<b + hsize st b}"

definition block_pages :: "'p xheap \<Rightarrow> nat \<Rightarrow> nat set" where
  "block_pages st b = (\<lambda>x. x div 4096) ` ext st b"

text \<open>
  \<open>heap_ok U st L D\<close>: the free blocks, the live blocks \<open>L\<close> and the blocks \<open>D\<close> that are in neither
  state (taken off the list, being freed) are disjoint, lie in the used pages \<open>U\<close>, and
  smaller than a page they do not cross a page boundary; the user address of a block is on the
  page of its header; the list pointers tell free from live.
\<close>

definition block_ok :: "nat set \<Rightarrow> 'p xheap \<Rightarrow> nat \<Rightarrow> bool" where
  "block_ok U st b \<longleftrightarrow>
     0 < b \<and> sizeof_hdr \<le> hsize st b \<and> (b + sizeof_hdr) div 4096 = b div 4096 \<and>
     block_pages st b \<subseteq> U \<and>
     (if hsize st b < 4096 then (b + hsize st b - 1) div 4096 = b div 4096
      else b mod 4096 = 0 \<and> hsize st b mod 4096 = 0)"

definition blocks_ok :: "nat set \<Rightarrow> 'p xheap \<Rightarrow> nat set \<Rightarrow> bool" where
  "blocks_ok U st B \<longleftrightarrow>
     (\<forall>b \<in> B. block_ok U st b) \<and> (\<forall>b \<in> B. \<forall>c \<in> B. b \<noteq> c \<longrightarrow> ext st b \<inter> ext st c = {})"

definition heap_ok :: "nat set \<Rightarrow> 'p xheap \<Rightarrow> nat set \<Rightarrow> nat set \<Rightarrow> bool" where
  "heap_ok U st L D \<longleftrightarrow>
     blocks_ok U st (set (freelist st) \<union> L \<union> D) \<and>
     distinct (freelist st) \<and> set (freelist st) \<inter> L = {} \<and> D \<inter> (set (freelist st) \<union> L) = {} \<and>
     (\<forall>b \<in> set (freelist st). hsize st b < 4096 \<and> hlinked st b) \<and> (\<forall>b \<in> L. \<not> hlinked st b)"

text \<open>No two free blocks of a page are neighbours.\<close>

definition coalesced :: "'p xheap \<Rightarrow> bool" where
  "coalesced st \<longleftrightarrow>
     (\<forall>b \<in> set (freelist st). \<forall>c \<in> set (freelist st). b div 4096 = c div 4096 \<longrightarrow> b + hsize st b \<noteq> c)"

definition free_bytes :: "'p xheap \<Rightarrow> nat set \<Rightarrow> nat set" where
  "free_bytes st D = (\<Union>b \<in> set (freelist st) \<union> D. ext st b)"

lemma block_ok_cong: "hsize st b = hsize st' b \<Longrightarrow> block_ok U st b = block_ok U st' b"
  by (simp add: block_ok_def block_pages_def ext_def)

lemma ext_cong: "hsize st b = hsize st' b \<Longrightarrow> ext st b = ext st' b"
  by (simp add: ext_def)

lemma block_ok_mono: "block_ok U st b \<Longrightarrow> U \<subseteq> V \<Longrightarrow> block_ok V st b"
  by (auto simp: block_ok_def)

lemma blocks_ok_mono: "blocks_ok U st B \<Longrightarrow> U \<subseteq> V \<Longrightarrow> blocks_ok V st B"
  unfolding blocks_ok_def using block_ok_mono by blast

lemma heap_ok_mono: "heap_ok U st L D \<Longrightarrow> U \<subseteq> V \<Longrightarrow> heap_ok V st L D"
  unfolding heap_ok_def using blocks_ok_mono by blast

lemma blocks_ok_fields [simp]:
  "blocks_ok U (st\<lparr>xpages := p\<rparr>) B = blocks_ok U st B"
  "blocks_ok U (st\<lparr>freelist := xs\<rparr>) B = blocks_ok U st B"
  "blocks_ok U (st\<lparr>hlinked := f\<rparr>) B = blocks_ok U st B"
  by (simp_all add: blocks_ok_def block_ok_def block_pages_def ext_def)

lemma heap_ok_pages [simp]: "heap_ok U (st\<lparr>xpages := p\<rparr>) L D = heap_ok U st L D"
  by (simp add: heap_ok_def)

lemma coalesced_pages [simp]: "coalesced (st\<lparr>xpages := p\<rparr>) = coalesced st"
  by (simp add: coalesced_def)

lemma block_in_ext: "block_ok U st b \<Longrightarrow> b \<in> ext st b"
  by (auto simp: block_ok_def ext_def sizeof_hdr_def)

lemma heap_okI:
  assumes "blocks_ok U st (set (freelist st) \<union> L \<union> D)" and "distinct (freelist st)"
    and "\<And>b. b \<in> set (freelist st) \<Longrightarrow> b \<notin> L \<and> b \<notin> D \<and> hsize st b < 4096 \<and> hlinked st b"
    and "\<And>b. b \<in> L \<Longrightarrow> b \<notin> D \<and> \<not> hlinked st b"
  shows "heap_ok U st L D"
  unfolding heap_ok_def using assms by (auto simp del: Un_iff)

lemma heap_okD:
  assumes "heap_ok U st L D"
  shows "blocks_ok U st (set (freelist st) \<union> L \<union> D)" and "distinct (freelist st)"
    and "b \<in> set (freelist st) \<Longrightarrow> b \<notin> L \<and> b \<notin> D \<and> hsize st b < 4096 \<and> hlinked st b"
    and "b \<in> L \<Longrightarrow> b \<notin> D \<and> \<not> hlinked st b"
  using assms unfolding heap_ok_def by auto

text \<open>Detaching a free block, and making a detached block live or free.\<close>

lemma heap_ok_detach:
  assumes ok: "heap_ok U st L D" and i: "i \<in> set (freelist st)"
  shows "heap_ok U (st\<lparr>freelist := remove1 i (freelist st)\<rparr>) L (insert i D)"
proof -
  note d = heap_okD [OF ok]
  have fl: "set (remove1 i (freelist st)) = set (freelist st) - {i}" using d(2) by (rule set_remove1_eq)
  have all: "(set (freelist st) - {i}) \<union> L \<union> insert i D = set (freelist st) \<union> L \<union> D"
    using i by blast
  have "blocks_ok U st (set (remove1 i (freelist st)) \<union> L \<union> insert i D)" unfolding fl all by (rule d(1))
  then show ?thesis
    by (intro heap_okI) (use d(2) d(3) [of i] d(3) d(4) i in \<open>auto simp: fl distinct_remove1\<close>)
qed

lemma heap_ok_live:
  assumes ok: "heap_ok U st L (insert b D)" and "b \<notin> D"
  shows "heap_ok U (st\<lparr>hlinked := (hlinked st)(b := False)\<rparr>) (insert b L) D"
proof -
  note d = heap_okD [OF ok]
  have all: "set (freelist st) \<union> insert b L \<union> D = set (freelist st) \<union> L \<union> insert b D" by blast
  show ?thesis
    by (rule heap_okI) (use d(1,2,3,4) assms(2) in \<open>auto simp: all simp del: Un_iff\<close>)
qed

lemma heap_ok_free:
  assumes ok: "heap_ok U st L (insert b D)" and "b \<notin> D" and "hsize st b < 4096"
  shows "heap_ok U (st\<lparr>freelist := b # freelist st, hlinked := (hlinked st)(b := True)\<rparr>) L D"
proof -
  note d = heap_okD [OF ok]
  have all: "set (b # freelist st) \<union> L \<union> D = set (freelist st) \<union> L \<union> insert b D" by auto
  have "blocks_ok U st (set (b # freelist st) \<union> L \<union> D)" unfolding all by (rule d(1))
  then show ?thesis
    by (intro heap_okI) (use d(2) d(3) d(4) assms(2,3) in auto)
qed

text \<open>Joining two neighbours of a page and cutting a block in two.\<close>

lemma page_span:
  assumes "(b + n - 1) div 4096 = b div (4096::nat)" and "0 < n"
  shows "b mod 4096 + n \<le> 4096"
proof -
  define q r where "q = b div 4096" and "r = b mod 4096"
  obtain k where n: "n = Suc k" using assms(2) gr0_conv_Suc by blast
  have b: "b = q * 4096 + r" by (simp add: q_def r_def)
  have "b + k < (q + 1) * 4096"
    using assms(1) unfolding q_def n by (simp add: div_less_iff_less_mult [symmetric])
  with b have "r + n \<le> 4096" unfolding n by (simp add: algebra_simps)
  then show ?thesis by (simp add: r_def)
qed

lemma page_span_iff:
  assumes "b mod 4096 + n \<le> (4096::nat)" and "0 < n"
  shows "(b + n - 1) div 4096 = b div 4096"
proof -
  define q r where "q = b div 4096" and "r = b mod 4096"
  obtain k where n: "n = Suc k" using assms(2) gr0_conv_Suc by blast
  have b: "b = q * 4096 + r" by (simp add: q_def r_def)
  have "r + k < 4096" using assms(1) by (simp add: r_def n)
  then have "(b + k) div 4096 = q" unfolding b by simp
  then show ?thesis by (simp add: q_def n)
qed

lemma same_page_last:
  assumes "block_ok U st b" and "hsize st b \<le> 4096"
  shows "(b + hsize st b - 1) div 4096 = b div 4096"
proof (cases "hsize st b < 4096")
  case True
  with assms(1) show ?thesis by (simp add: block_ok_def)
next
  case False
  with assms have "hsize st b = 4096" "b mod 4096 = 0" by (auto simp: block_ok_def)
  then show ?thesis by (intro page_span_iff) simp_all
qed

lemma blocks_okI:
  assumes "\<And>b. b \<in> B \<Longrightarrow> block_ok U st b"
    and "\<And>b c. b \<in> B \<Longrightarrow> c \<in> B \<Longrightarrow> b < c \<Longrightarrow> ext st b \<inter> ext st c = {}"
  shows "blocks_ok U st B"
  unfolding blocks_ok_def using assms by (metis Int_commute linorder_neqE_nat)

lemma blocks_okD:
  assumes "blocks_ok U st B"
  shows "b \<in> B \<Longrightarrow> block_ok U st b"
    and "b \<in> B \<Longrightarrow> c \<in> B \<Longrightarrow> b \<noteq> c \<Longrightarrow> ext st b \<inter> ext st c = {}"
  using assms by (auto simp: blocks_ok_def)

lemma blocks_merge:
  assumes ok: "blocks_ok U st B" and lo: "lo \<in> B" "hi \<in> B" "lo + hsize st lo = hi" "lo div 4096 = hi div 4096"
    and small: "hsize st lo < 4096" "hsize st hi < 4096"
    and st': "st' = st\<lparr>hsize := (hsize st)(lo := hsize st lo + hsize st hi)\<rparr>"
  shows "blocks_ok U st' (B - {hi})"
    and "ext st' lo = ext st lo \<union> ext st hi"
    and "hsize st' lo \<le> 4096"
proof -
  have bl: "block_ok U st lo" "block_ok U st hi" using ok lo(1,2) by (simp_all add: blocks_ok_def)
  show e: "ext st' lo = ext st lo \<union> ext st hi" using lo(3) by (auto simp: ext_def st')
  have oth: "ext st' b = ext st b" "block_ok U st' b = block_ok U st b" if "b \<noteq> lo" for b
    using that block_ok_cong [of st' b st] by (auto simp: st' ext_def)
  have pos: "0 < hsize st lo" "0 < hsize st hi" "lo \<noteq> hi"
    using bl lo(3) by (auto simp: block_ok_def sizeof_hdr_def)
  have lst: "(lo + hsize st' lo - 1) div 4096 = lo div 4096"
    using bl(2) small(2) unfolding lo(4) by (simp add: block_ok_def st' lo(3) [symmetric] add.assoc)
  have le: "lo mod 4096 + hsize st' lo \<le> 4096" using page_span [OF lst] pos by (simp add: st')
  then show "hsize st' lo \<le> 4096" by simp
  have "block_pages st' lo \<subseteq> U" using bl e by (auto simp: block_ok_def block_pages_def)
  moreover have "lo mod 4096 = 0 \<and> hsize st' lo mod 4096 = 0" if "\<not> hsize st' lo < 4096"
  proof -
    have "hsize st' lo = 4096" "lo mod 4096 = 0" using le that by linarith+
    then show ?thesis by simp
  qed
  ultimately have "block_ok U st' lo" using bl lst by (auto simp: block_ok_def st')
  note lo_ok = this
  have dj: "ext st' lo \<inter> ext st' b = {}" if "b \<in> B" "b \<noteq> lo" "b \<noteq> hi" for b
    using that blocks_okD(2) [OF ok lo(1) that(1)] blocks_okD(2) [OF ok lo(2) that(1)] oth(1) e
    by (simp add: Int_Un_distrib2)
  show "blocks_ok U st' (B - {hi})"
  proof (rule blocks_okI)
    fix b assume "b \<in> B - {hi}"
    then show "block_ok U st' b" using lo_ok oth(2) blocks_okD(1) [OF ok, of b] by (cases "b = lo") auto
  next
    fix b c assume "b \<in> B - {hi}" "c \<in> B - {hi}" "b < c"
    then show "ext st' b \<inter> ext st' c = {}"
      using dj [of b] dj [of c] oth(1) [of b] oth(1) [of c] blocks_okD(2) [OF ok, of b c]
      by (cases "b = lo"; cases "c = lo") (auto simp: Int_commute)
  qed
qed

lemma blocks_split:
  assumes ok: "blocks_ok U st B" and b: "b \<in> B" "hsize st b \<le> 4096" "sizeof_hdr \<le> s" "s + 2 * sizeof_hdr \<le> hsize st b"
    and st': "st' = st\<lparr>hsize := (hsize st)(b + s := hsize st b - s, b := s)\<rparr>"
  shows "b + s \<notin> B" and "blocks_ok U st' (insert (b + s) B)"
    and "ext st' b \<union> ext st' (b + s) = ext st b"
proof -
  have bl: "block_ok U st b" using ok b(1) by (rule blocks_okD)
  have in_b: "b + s \<in> ext st b" using b(3,4) by (auto simp: ext_def sizeof_hdr_def)
  have s0: "0 < s" using b(3) by (simp add: sizeof_hdr_def)
  show new: "b + s \<notin> B"
  proof
    assume c: "b + s \<in> B"
    then have "b + s \<in> ext st (b + s)" using blocks_okD(1) [OF ok] block_in_ext by blast
    with in_b blocks_okD(2) [OF ok b(1) c] s0 show False by auto
  qed
  have e: "ext st' b = {b..<b + s}" "ext st' (b + s) = {b + s..<b + hsize st b}"
    using b s0 by (auto simp: ext_def st')
  then show un: "ext st' b \<union> ext st' (b + s) = ext st b" using b(3,4) by (auto simp: ext_def)
  have oth: "ext st' c = ext st c" "block_ok U st' c = block_ok U st c" if "c \<noteq> b" "c \<noteq> b + s" for c
    using that block_ok_cong [of st' c st] by (auto simp: st' ext_def)
  have span: "b mod 4096 + hsize st b \<le> 4096"
    using page_span [OF same_page_last [OF bl b(2)]] bl by (simp add: block_ok_def sizeof_hdr_def)
  have pg: "block_pages st' b \<subseteq> U" "block_pages st' (b + s) \<subseteq> U"
    using bl un by (auto simp: block_ok_def block_pages_def)
  have dv: "(b + s) div 4096 = b div 4096" "(b + s + sizeof_hdr) div 4096 = b div 4096"
    using page_span_iff [of b "s + 1"] page_span_iff [of b "s + sizeof_hdr + 1"] span b(4)
    by (auto simp: sizeof_hdr_def add.assoc)
  have "(b + s - 1) div 4096 = b div 4096" "(b + hsize st b - 1) div 4096 = b div 4096"
    using page_span_iff [of b s] page_span_iff [of b "hsize st b"] span b s0 by (auto simp: sizeof_hdr_def)
  moreover have "hsize st' b = s" "hsize st' (b + s) = hsize st b - s" "s < 4096" "hsize st b - s < 4096"
    using b s0 by (auto simp: st' sizeof_hdr_def)
  moreover have "b + s + (hsize st b - s) = b + hsize st b" "sizeof_hdr \<le> hsize st b - s"
    using b(3,4) by (auto simp: sizeof_hdr_def)
  ultimately have bok: "block_ok U st' b" "block_ok U st' (b + s)"
    using bl pg dv b(3) unfolding block_ok_def by auto
  have dj: "ext st' b \<inter> ext st' (b + s) = {}" using e by auto
  have dj2: "ext st' b \<inter> ext st' c = {}" "ext st' (b + s) \<inter> ext st' c = {}" if "c \<in> B" "c \<noteq> b" for c
    using blocks_okD(2) [OF ok b(1) that(1)] that new un oth(1) [of c] by auto
  show "blocks_ok U st' (insert (b + s) B)"
  proof (rule blocks_okI)
    fix c assume "c \<in> insert (b + s) B"
    then show "block_ok U st' c"
      using bok oth(2) [of c] blocks_okD(1) [OF ok, of c] by (cases "c = b"; cases "c = b + s") auto
  next
    fix c d assume cd: "c \<in> insert (b + s) B" "d \<in> insert (b + s) B" "c < d"
    show "ext st' c \<inter> ext st' d = {}"
    proof (cases "c \<in> {b, b + s} \<or> d \<in> {b, b + s}")
      case True
      then show ?thesis using cd dj dj2 [of c] dj2 [of d] by auto
    next
      case False
      then show ?thesis using cd oth(1) [of c] oth(1) [of d] blocks_okD(2) [OF ok, of c d] by auto
    qed
  qed
qed

text \<open>A block with no free neighbour on its page.\<close>

definition apart :: "'p xheap \<Rightarrow> nat \<Rightarrow> bool" where
  "apart st h \<longleftrightarrow>
     (\<forall>c \<in> set (freelist st). c div 4096 = h div 4096 \<longrightarrow> c + hsize st c \<noteq> h \<and> h + hsize st h \<noteq> c)"

lemma ends_inside:
  assumes "ext st b \<inter> ext st c = {}" and "0 < hsize st c" and "b < e" and "e \<le> b + hsize st b"
  shows "c + hsize st c \<noteq> e"
proof
  assume e: "c + hsize st c = e"
  then have "e - 1 \<in> ext st b \<inter> ext st c" using assms(2-4) by (auto simp: ext_def)
  with assms(1) show False by simp
qed

lemma maybe_split_keep:
  assumes "heap_ok U st L {h}" and "hsize st h = block" and "\<not> s + 2 * sizeof_hdr \<le> block" and "s \<le> block"
  shows "heap_ok U (maybe_split h s block st) (insert h L) {}"
    and "freelist (maybe_split h s block st) = freelist st" and "hsize (maybe_split h s block st) = hsize st"
proof -
  have eq: "maybe_split h s block st = st\<lparr>hlinked := (hlinked st)(h := False)\<rparr>"
    using assms(2-4) by (auto simp: maybe_split_def Let_def)
  show "heap_ok U (maybe_split h s block st) (insert h L) {}"
    unfolding eq using heap_ok_live [of U st L h "{}"] assms(1) by simp
  show "freelist (maybe_split h s block st) = freelist st" "hsize (maybe_split h s block st) = hsize st"
    by (simp_all add: eq)
qed

lemma maybe_split_cut:
  assumes ok: "heap_ok U st L {h}" and h: "hsize st h = block" "block \<le> 4096"
    and s: "sizeof_hdr \<le> s" "s + 2 * sizeof_hdr \<le> block"
  shows "heap_ok U (maybe_split h s block st) (insert h L) {}"
    and "freelist (maybe_split h s block st) = (h + s) # freelist st"
    and "hsize (maybe_split h s block st) = (hsize st)(h + s := block - s, h := s)"
    and "h + s \<notin> set (freelist st) \<union> L \<union> {h}"
proof -
  note d = heap_okD [OF ok]
  define st1 where "st1 = st\<lparr>hsize := (hsize st)(h + s := hsize st h - s, h := s)\<rparr>"
  have s0: "h + s \<noteq> h" "s < 4096" using s h by (auto simp: sizeof_hdr_def)
  note sp = blocks_split [OF d(1) _ _ s(1) _ st1_def]
  have new: "h + s \<notin> set (freelist st) \<union> L \<union> {h}" using sp(1) h s by simp
  then show "h + s \<notin> set (freelist st) \<union> L \<union> {h}" .
  have un: "set (freelist st) \<union> L \<union> {h + s, h} = insert (h + s) (set (freelist st) \<union> L \<union> {h})" by blast
  have "blocks_ok U st1 (insert (h + s) (set (freelist st) \<union> L \<union> {h}))" using sp(2) h s by simp
  then have ok1: "heap_ok U st1 L {h + s, h}"
    by (intro heap_okI) (use d(2,3,4) new in \<open>auto simp: st1_def un\<close>)
  have "heap_ok U (st1\<lparr>freelist := (h + s) # freelist st1, hlinked := (hlinked st1)(h + s := True)\<rparr>) L {h}"
    by (rule heap_ok_free [OF ok1]) (use s0 h s in \<open>auto simp: st1_def sizeof_hdr_def\<close>)
  then have "heap_ok U (st1\<lparr>freelist := (h + s) # freelist st1,
      hlinked := (hlinked st1)(h + s := True, h := False)\<rparr>) (insert h L) {}"
    using heap_ok_live [of U _ L h "{}"] by fastforce
  moreover have eq: "maybe_split h s block st = st1\<lparr>freelist := (h + s) # freelist st1,
      hlinked := (hlinked st1)(h + s := True, h := False)\<rparr>"
    using h s by (simp add: maybe_split_def Let_def st1_def)
  ultimately show "heap_ok U (maybe_split h s block st) (insert h L) {}" by simp
  show "freelist (maybe_split h s block st) = (h + s) # freelist st"
    "hsize (maybe_split h s block st) = (hsize st)(h + s := block - s, h := s)"
    by (simp_all add: eq st1_def h)
qed

text \<open>What splitting promises, in either case.\<close>

lemma maybe_split_le: "s \<le> block \<Longrightarrow> hsize (maybe_split h s block st) h \<le> block"
  by (simp add: maybe_split_def Let_def)

lemma maybe_split_ok:
  assumes ok: "heap_ok U st L {h}" and h: "hsize st h = block" "block \<le> 4096"
    and s: "sizeof_hdr \<le> s" "s \<le> block"
  shows "heap_ok U (maybe_split h s block st) (insert h L) {}"
    and "s \<le> hsize (maybe_split h s block st) h"
    and "ext (maybe_split h s block st) h \<subseteq> ext st h"
    and "b \<in> L \<Longrightarrow> hsize (maybe_split h s block st) b = hsize st b"
    and "xpages (maybe_split h s block st) = xpages st"
proof -
  note keep = maybe_split_keep [OF ok h(1) _ s(2)] and cut = maybe_split_cut [OF ok h s(1)]
  show "heap_ok U (maybe_split h s block st) (insert h L) {}" using keep(1) cut(1) by blast
  show "s \<le> hsize (maybe_split h s block st) h" using keep(3) cut(3) h(1) s(2)
    by (cases "s + 2 * sizeof_hdr \<le> block") auto
  show "ext (maybe_split h s block st) h \<subseteq> ext st h" using keep(3) cut(3) h(1) s(2)
    by (cases "s + 2 * sizeof_hdr \<le> block") (auto simp: ext_def)
  show "b \<in> L \<Longrightarrow> hsize (maybe_split h s block st) b = hsize st b"
    using keep(3) cut(3,4) heap_okD(4) [OF ok, of b] by (cases "s + 2 * sizeof_hdr \<le> block") auto
  show "xpages (maybe_split h s block st) = xpages st"
    by (auto simp: maybe_split_def Let_def)
qed

lemma maybe_split_coalesced:
  assumes ok: "heap_ok U st L {h}" and h: "hsize st h = block" "block \<le> 4096"
    and s: "sizeof_hdr \<le> s" "s \<le> block" and co: "coalesced st" "apart st h"
  shows "coalesced (maybe_split h s block st)"
proof (cases "s + 2 * sizeof_hdr \<le> block")
  case False
  with maybe_split_keep [OF ok h(1) False s(2)] co(1) show ?thesis by (simp add: coalesced_def)
next
  case True
  note cut = maybe_split_cut [OF ok h s(1) True]
  note d = heap_okD [OF ok]
  let ?t = "maybe_split h s block st"
  have bl: "block_ok U st h" using blocks_okD(1) [OF d(1)] by simp
  have dv: "(h + s) div 4096 = h div 4096"
  proof -
    have "h mod 4096 + block \<le> 4096"
      using page_span [OF same_page_last [OF bl]] h bl by (simp add: block_ok_def sizeof_hdr_def)
    then show ?thesis using page_span_iff [of h "s + 1"] True by (simp add: sizeof_hdr_def)
  qed
  have c_ne: "c \<noteq> h" "hsize st c > 0" "ext st h \<inter> ext st c = {}" if "c \<in> set (freelist st)" for c
  proof -
    show ne: "c \<noteq> h" using d(3) [OF that] by simp
    show "hsize st c > 0" using blocks_okD(1) [OF d(1), of c] that by (simp add: block_ok_def sizeof_hdr_def)
    show "ext st h \<inter> ext st c = {}" using blocks_okD(2) [OF d(1), of h c] that ne by auto
  qed
  have left: "c + hsize st c \<noteq> h + s" if "c \<in> set (freelist st)" for c
    using ends_inside [OF c_ne(3) [OF that] c_ne(2) [OF that], of "h + s"] s h by (auto simp: sizeof_hdr_def)
  have right: "h + s + (block - s) \<noteq> c" if "c \<in> set (freelist st)" "c div 4096 = h div 4096" for c
    using co(2) that h s(2) by (auto simp: apart_def)
  have hs: "hsize ?t c = hsize st c" if "c \<in> set (freelist st)" for c
    using that cut(3,4) c_ne(1) [OF that] by auto
  have hs': "hsize ?t (h + s) = block - s" using cut(3,4) by auto
  show ?thesis
    unfolding coalesced_def cut(2)
  proof (intro ballI impI)
    fix b c assume bc: "b \<in> set ((h + s) # freelist st)" "c \<in> set ((h + s) # freelist st)" "b div 4096 = c div 4096"
    show "b + hsize ?t b \<noteq> c"
    proof (cases "b = h + s")
      case b: True
      have "h + s + (block - s) \<noteq> c"
      proof (cases "c = h + s")
        case True
        then show ?thesis using \<open>s + 2 * sizeof_hdr \<le> block\<close> by (simp add: sizeof_hdr_def)
      next
        case False
        with bc b dv show ?thesis by (intro right) auto
      qed
      then show ?thesis unfolding b hs' .
    next
      case False
      with bc have b: "b \<in> set (freelist st)" by simp
      show ?thesis
      proof (cases "c = h + s")
        case True
        then show ?thesis unfolding hs [OF b] using left [OF b] by simp
      next
        case False
        with bc b co(1) show ?thesis unfolding hs [OF b] coalesced_def by simp
      qed
    qed
  qed
qed

section \<open>Merging\<close>

definition adjacent :: "'p xheap \<Rightarrow> nat \<Rightarrow> nat \<Rightarrow> bool" where
  "adjacent st h c \<longleftrightarrow> c div 4096 = h div 4096 \<and> (c + hsize st c = h \<or> h + hsize st h = c)"

lemma apart_iff: "apart st h \<longleftrightarrow> (\<forall>c \<in> set (freelist st). \<not> adjacent st h c)"
  by (auto simp: apart_def adjacent_def)

text \<open>A block that fills its page leaves no room for a free block there.\<close>

lemma full_page_alone:
  assumes ok: "heap_ok U st L {h}" and i: "i \<in> set (freelist st)" "i div 4096 = h div 4096" and le: "hsize st h \<le> 4096"
  shows "hsize st h < 4096"
proof (rule ccontr)
  assume "\<not> hsize st h < 4096"
  with le have 4: "hsize st h = 4096" by simp
  note d = heap_okD [OF ok]
  have "block_ok U st h" "block_ok U st i" using blocks_okD(1) [OF d(1)] i(1) by simp_all
  then have "h mod 4096 = 0" "i \<in> ext st i" using 4 by (auto simp: block_ok_def intro: block_in_ext)
  moreover have "h = h div 4096 * 4096 + h mod 4096" "i = i div 4096 * 4096 + i mod 4096" "i mod 4096 < 4096"
    by simp_all
  ultimately have "i \<in> ext st h \<inter> ext st i" using 4 i(2) unfolding ext_def by auto
  moreover have "i \<noteq> h" using d(3) [OF i(1)] by simp
  ultimately show False using blocks_okD(2) [OF d(1), of h i] i(1) by auto
qed

text \<open>Joining the detached block with a free one, whichever comes first.\<close>

lemma join_ok:
  assumes ok: "heap_ok U st L {h}" and i: "i \<in> set (freelist st)" "i div 4096 = h div 4096" and le: "hsize st h \<le> 4096"
    and lh: "(lo = i \<and> hi = h) \<or> (lo = h \<and> hi = i)" "lo + hsize st lo = hi"
    and st': "st' = st\<lparr>freelist := remove1 i (freelist st), hsize := (hsize st)(lo := hsize st lo + hsize st hi)\<rparr>"
  shows "heap_ok U st' L {lo}" and "hsize st' lo \<le> 4096"
    and "set (freelist st') = set (freelist st) - {i}"
    and "\<And>b. b \<in> set (freelist st') \<union> L \<Longrightarrow> hsize st' b = hsize st b"
    and "free_bytes st' {lo} = free_bytes st {h}" and "lo div 4096 = h div 4096"
proof -
  note d = heap_okD [OF ok]
  have lt: "hsize st h < 4096" "hsize st i < 4096" "i \<noteq> h"
    using full_page_alone [OF ok i le] d(3) [OF i(1)] by auto
  define st1 where "st1 = st\<lparr>freelist := remove1 i (freelist st)\<rparr>"
  have ok1: "heap_ok U st1 L {i, h}" using heap_ok_detach [OF ok i(1)] by (simp add: st1_def)
  note d1 = heap_okD [OF ok1]
  have st1': "st' = st1\<lparr>hsize := (hsize st1)(lo := hsize st1 lo + hsize st1 hi)\<rparr>" by (simp add: st' st1_def)
  have "lo \<in> set (freelist st1) \<union> L \<union> {i, h}" "hi \<in> set (freelist st1) \<union> L \<union> {i, h}"
    "lo + hsize st1 lo = hi" "lo div 4096 = hi div 4096" "hsize st1 lo < 4096" "hsize st1 hi < 4096"
    using lh lt i(2) by (auto simp: st1_def)
  note mg = blocks_merge [OF d1(1) this st1']
  show "hsize st' lo \<le> 4096" by (rule mg(3))
  show fl: "set (freelist st') = set (freelist st) - {i}" using d(2) by (simp add: st' set_remove1_eq)
  have ni: "h \<notin> set (freelist st)" "h \<notin> L" "i \<notin> L" using d(3) [OF i(1)] d(3) [of h] d(4) [of h] by auto
  then show hs: "\<And>b. b \<in> set (freelist st') \<union> L \<Longrightarrow> hsize st' b = hsize st b"
    using lh(1) unfolding fl by (auto simp: st')
  have un: "set (freelist st1) \<union> L \<union> {i, h} - {hi} = set (freelist st') \<union> L \<union> {lo}"
    using lh(1) lt(3) ni fl d(2) by (auto simp: st1_def st' set_remove1_eq)
  have "blocks_ok U st' (set (freelist st') \<union> L \<union> {lo})" using mg(1) unfolding un .
  then show "heap_ok U st' L {lo}"
    by (rule heap_okI) (use d(2,3,4) ni lh(1) hs fl in \<open>auto simp: st' distinct_remove1\<close>)
  have e: "ext st' lo = ext st i \<union> ext st h" using mg(2) lh(1) by (auto simp: st1_def ext_def)
  have "(\<Union>b \<in> set (freelist st'). ext st' b) = (\<Union>b \<in> set (freelist st) - {i}. ext st b)"
    unfolding fl using hs fl by (auto simp: ext_def)
  then show "free_bytes st' {lo} = free_bytes st {h}"
    using i(1) e by (auto simp: free_bytes_def)
  show "lo div 4096 = h div 4096" using lh(1) i(2) by auto
qed

lemma join_coalesced:
  assumes ok: "heap_ok U st L {h}" and i: "i \<in> set (freelist st)" "i div 4096 = h div 4096" and le: "hsize st h \<le> 4096"
    and lh: "(lo = i \<and> hi = h) \<or> (lo = h \<and> hi = i)" "lo + hsize st lo = hi"
    and st': "st' = st\<lparr>freelist := remove1 i (freelist st), hsize := (hsize st)(lo := hsize st lo + hsize st hi)\<rparr>"
    and co: "coalesced st"
  shows "coalesced st'"
  unfolding coalesced_def
proof (intro ballI impI)
  note j = join_ok [OF ok i le lh st']
  fix a b assume ab: "a \<in> set (freelist st')" "b \<in> set (freelist st')" "a div 4096 = b div 4096"
  then have "hsize st' a = hsize st a" using j(4) by blast
  with ab j(3) co show "a + hsize st' a \<noteq> b" by (auto simp: coalesced_def)
qed

lemma join_apart:
  assumes ok: "heap_ok U st L {h}" and i: "i \<in> set (freelist st)" "i div 4096 = h div 4096" and le: "hsize st h \<le> 4096"
    and lh: "(lo = i \<and> hi = h) \<or> (lo = h \<and> hi = i)" "lo + hsize st lo = hi"
    and st': "st' = st\<lparr>freelist := remove1 i (freelist st), hsize := (hsize st)(lo := hsize st lo + hsize st hi)\<rparr>"
    and co: "coalesced st" and c: "c \<in> set (freelist st')" "\<not> adjacent st h c"
  shows "\<not> adjacent st' lo c"
proof -
  note j = join_ok [OF ok i le lh st']
  have hc: "hsize st' c = hsize st c" "c \<in> set (freelist st)" using j(3,4) c(1) by auto
  have hl: "hsize st' lo = hsize st lo + hsize st hi" by (simp add: st')
  show "\<not> adjacent st' lo c"
  proof
    assume a: "adjacent st' lo c"
    then have pg: "c div 4096 = h div 4096" "c div 4096 = i div 4096" using j(6) i(2) by (auto simp: adjacent_def)
    from a have "c + hsize st c = lo \<or> lo + (hsize st lo + hsize st hi) = c" by (simp add: adjacent_def hc hl)
    then have "c + hsize st c = lo \<or> hi + hsize st hi = c" using lh(2) by auto
    moreover have "c + hsize st c \<noteq> i" "i + hsize st i \<noteq> c"
      using co [unfolded coalesced_def, rule_format, OF hc(2) i(1)]
        co [unfolded coalesced_def, rule_format, OF i(1) hc(2)] pg(2) by simp_all
    moreover have "c + hsize st c \<noteq> h" "h + hsize st h \<noteq> c" using c(2) pg(1) by (simp_all add: adjacent_def)
    ultimately show False using lh(1) by auto
  qed
qed

text \<open>One round of the loop either keeps the block as it is or joins it with the entry.\<close>

lemma merge_loop_Cons:
  assumes ok: "heap_ok U st L {h}" and i: "i \<in> set (freelist st)"
  shows "merge_loop h (i # is) st =
           (if i div 4096 = h div 4096 \<and> i + hsize st i = h
            then merge_loop i is (st\<lparr>freelist := remove1 i (freelist st), hsize := (hsize st)(i := hsize st i + hsize st h)\<rparr>)
            else if i div 4096 = h div 4096 \<and> h + hsize st h = i
            then merge_loop h is (st\<lparr>freelist := remove1 i (freelist st), hsize := (hsize st)(h := hsize st h + hsize st i)\<rparr>)
            else merge_loop h is st)"
proof -
  have "0 < hsize st i" "i \<noteq> h"
    using blocks_okD(1) [OF heap_okD(1) [OF ok], of i] heap_okD(3) [OF ok i] i
    by (auto simp: block_ok_def sizeof_hdr_def)
  then show ?thesis by (auto simp: Let_def)
qed

lemma merge_loop_ok:
  assumes "heap_ok U st L {h}" and "hsize st h \<le> 4096" and "coalesced st" and "distinct is" and "set is \<subseteq> set (freelist st)"
    and "\<forall>c \<in> set (freelist st) - set is. \<not> adjacent st h c" and "merge_loop h is st = (h', st')"
  shows "heap_ok U st' L {h'} \<and> hsize st' h' \<le> 4096 \<and> coalesced st' \<and> apart st' h' \<and>
         (\<forall>b \<in> L. hsize st' b = hsize st b) \<and> free_bytes st' {h'} = free_bytes st {h} \<and> xpages st' = xpages st"
  using assms
proof (induction "is" arbitrary: h st)
  case Nil
  then show ?case by (simp add: apart_iff)
next
  case (Cons i "is")
  have i: "i \<in> set (freelist st)" using Cons.prems(5) by simp
  note step = merge_loop_Cons [OF Cons.prems(1) i, of "is"]
  have join: ?case
    if lh: "(lo = i \<and> hi = h) \<or> (lo = h \<and> hi = i)" "lo + hsize st lo = hi" "i div 4096 = h div 4096"
      and t: "t = st\<lparr>freelist := remove1 i (freelist st), hsize := (hsize st)(lo := hsize st lo + hsize st hi)\<rparr>"
      and run: "merge_loop lo is t = (h', st')" for lo hi t
  proof -
    note j = join_ok [OF Cons.prems(1) i lh(3) Cons.prems(2) lh(1,2) t]
    note co = join_coalesced [OF Cons.prems(1) i lh(3) Cons.prems(2) lh(1,2) t Cons.prems(3)]
    note ap = join_apart [OF Cons.prems(1) i lh(3) Cons.prems(2) lh(1,2) t Cons.prems(3)]
    have ot: "c \<in> set (freelist st) - set (i # is)" if "c \<in> set (freelist t) - set is" for c
      using that j(3) by auto
    have "heap_ok U st' L {h'} \<and> hsize st' h' \<le> 4096 \<and> coalesced st' \<and> apart st' h' \<and>
        (\<forall>b \<in> L. hsize st' b = hsize t b) \<and> free_bytes st' {h'} = free_bytes t {lo} \<and> xpages st' = xpages t"
    proof (rule Cons.IH [OF j(1,2) co _ _ _ run])
      show "distinct is" "set is \<subseteq> set (freelist t)" using Cons.prems(4,5) j(3) by auto
      show "\<forall>c \<in> set (freelist t) - set is. \<not> adjacent t lo c"
        using ap ot Cons.prems(6) by blast
    qed
    moreover have "xpages t = xpages st" by (simp add: t)
    ultimately show ?thesis using j(4,5) by auto
  qed
  consider (left) "i div 4096 = h div 4096" "i + hsize st i = h"
    | (right) "i div 4096 = h div 4096" "i + hsize st i \<noteq> h" "h + hsize st h = i"
    | (none) "\<not> adjacent st h i" by (auto simp: adjacent_def)
  then show ?case
  proof cases
    case left
    then show ?thesis using Cons.prems(7) step by (intro join [of i h]) auto
  next
    case right
    then show ?thesis using Cons.prems(7) step by (intro join [of h i]) auto
  next
    case none
    then have "merge_loop h is st = (h', st')" using step Cons.prems(7) by (auto simp: adjacent_def)
    moreover have "\<forall>c \<in> set (freelist st) - set is. \<not> adjacent st h c" using Cons.prems(6) none by auto
    ultimately show ?thesis using Cons.prems by (intro Cons.IH) auto
  qed
qed

section \<open>The page allocator seen from the heap\<close>

text \<open>
  What the heap relies on: page numbers fit in an \<open>int\<close>; pages handed out are page aligned and not
  in use, and become used; pages given back are no longer used, and the others stay used. Runs
  of \<open>BULK_ALLOCATION\<close> pages and more come from the bulk region and only go back there.
\<close>

definition page_range :: "nat \<Rightarrow> nat \<Rightarrow> nat set" where
  "page_range a n = {a div 4096..<a div 4096 + n}"

locale page_provider =
  fixes palloc :: "int \<Rightarrow> 'p \<Rightarrow> guk_stop + nat \<times> 'p"
    and pfree :: "nat \<Rightarrow> int \<Rightarrow> 'p \<Rightarrow> guk_stop + 'p"
    and pinv :: "'p \<Rightarrow> bool"
    and used :: "'p \<Rightarrow> nat set"
    and bulk :: "'p \<Rightarrow> nat set"
  assumes used_bound: "pinv s \<Longrightarrow> used s \<subseteq> {..<2 ^ 31}"
    and palloc_fresh: "pinv s \<Longrightarrow> 1 \<le> n \<Longrightarrow>
      \<exists>a t. palloc (int n) s = Inr (a, t) \<and> pinv t \<and> used s \<subseteq> used t \<and> bulk t = bulk s \<and>
            (a = 0 \<or> a mod 4096 = 0 \<and> page_range a n \<inter> used s = {} \<and> page_range a n \<subseteq> used t \<and>
                     (512 \<le> n \<longrightarrow> a div 4096 \<in> bulk s))"
    and pfree_gone: "pinv s \<Longrightarrow> 1 \<le> n \<Longrightarrow> a mod 4096 = 0 \<Longrightarrow> page_range a n \<subseteq> used s \<Longrightarrow>
      512 \<le> n \<longrightarrow> a div 4096 \<in> bulk s \<Longrightarrow>
      \<exists>t. pfree a (int n) s = Inr t \<and> pinv t \<and> bulk t = bulk s \<and> used t = used s - page_range a n"
begin

text \<open>A live block of at least \<open>BULK_ALLOCATION\<close> pages lies in the bulk region.\<close>

definition big_ok :: "'p xheap \<Rightarrow> nat set \<Rightarrow> bool" where
  "big_ok st L \<longleftrightarrow> (\<forall>b \<in> L. 512 * 4096 \<le> hsize st b \<longrightarrow> b div 4096 \<in> bulk (xpages st))"

definition xinv :: "'p xheap \<Rightarrow> nat set \<Rightarrow> bool" where
  "xinv st L \<longleftrightarrow> pinv (xpages st) \<and> heap_ok (used (xpages st)) st L {} \<and> coalesced st \<and> big_ok st L"

lemma big_ok_keep:
  assumes "big_ok st L" and "\<forall>b \<in> L'. b \<in> L \<and> hsize st' b = hsize st b \<or> hsize st' b < 512 * 4096 \<or> b div 4096 \<in> bulk (xpages st)"
    and "bulk (xpages st') = bulk (xpages st)"
  shows "big_ok st' L'"
  using assms by (auto simp: big_ok_def)

text \<open>A fresh run of pages as a new detached block.\<close>

lemma fresh_block:
  assumes ok: "heap_ok U st L {}" and a: "a mod 4096 = 0" "a \<noteq> 0" "1 \<le> n" "page_range a n \<inter> U = {}" "page_range a n \<subseteq> V"
    and UV: "U \<subseteq> V"
  shows "heap_ok V (st\<lparr>hsize := (hsize st)(a := n * 4096)\<rparr>) L {a}"
    and "a \<notin> set (freelist st) \<union> L" and "apart (st\<lparr>hsize := (hsize st)(a := n * 4096)\<rparr>) a"
proof -
  let ?t = "st\<lparr>hsize := (hsize st)(a := n * 4096)\<rparr>"
  note d = heap_okD [OF ok]
  have pg: "block_pages ?t a = page_range a n"
  proof -
    have "a = a div 4096 * 4096" using a(1) by auto
    then obtain k where k: "a = k * 4096" by blast
    have "(\<lambda>x. x div 4096) ` {k * 4096..<k * 4096 + n * 4096} = {k..<k + n}"
    proof (intro equalityI subsetI)
      fix q assume "q \<in> {k..<k + n}"
      then show "q \<in> (\<lambda>x. x div 4096) ` {k * 4096..<k * 4096 + n * 4096}"
        by (intro image_eqI [of _ _ "q * 4096"]) auto
    qed (auto simp: div_less_iff_less_mult)
    then show ?thesis by (simp add: block_pages_def ext_def page_range_def k)
  qed
  have far: "x div 4096 \<notin> page_range a n" if "b \<in> set (freelist st) \<union> L" "x \<in> ext st b" for b x
    using blocks_okD(1) [OF d(1), of b] that a(4) by (auto simp: block_ok_def block_pages_def)
  have new: "a \<notin> set (freelist st) \<union> L"
  proof
    assume "a \<in> set (freelist st) \<union> L"
    moreover from this have "a \<in> ext st a" using blocks_okD(1) [OF d(1), of a] block_in_ext by auto
    ultimately show False using far [of a a] a(3) by (auto simp: page_range_def)
  qed
  then show "a \<notin> set (freelist st) \<union> L" .
  have oth: "ext ?t b = ext st b" "block_ok V ?t b" if "b \<in> set (freelist st) \<union> L" for b
  proof -
    have hs: "hsize ?t b = hsize st b" using that new by auto
    show "ext ?t b = ext st b" by (rule ext_cong [OF hs])
    show "block_ok V ?t b"
      unfolding block_ok_cong [OF hs] using blocks_okD(1) [OF d(1), of b] that block_ok_mono [OF _ UV] by auto
  qed
  have disj: "ext ?t a \<inter> ext st b = {}" if "b \<in> set (freelist st) \<union> L" for b
    using far [OF that] pg by (auto simp: block_pages_def)
  have "(a + sizeof_hdr) div 4096 = a div 4096"
    using a(1) page_span_iff [of a "sizeof_hdr + 1"] by (simp add: sizeof_hdr_def)
  then have aok: "block_ok V ?t a" using a pg by (auto simp: block_ok_def sizeof_hdr_def)
  have "blocks_ok V ?t (set (freelist st) \<union> L \<union> {a})"
  proof (rule blocks_okI)
    fix b assume "b \<in> set (freelist st) \<union> L \<union> {a}"
    then show "block_ok V ?t b" using aok oth(2) by auto
  next
    fix b c assume bc: "b \<in> set (freelist st) \<union> L \<union> {a}" "c \<in> set (freelist st) \<union> L \<union> {a}" "b < c"
    then consider "b = a" "c \<in> set (freelist st) \<union> L" | "c = a" "b \<in> set (freelist st) \<union> L"
      | "b \<in> set (freelist st) \<union> L" "c \<in> set (freelist st) \<union> L" by blast
    then show "ext ?t b \<inter> ext ?t c = {}"
      using disj [of b] disj [of c] oth(1) [of b] oth(1) [of c] blocks_okD(2) [OF d(1), of b c] bc(3)
      by cases (auto simp: Int_commute)
  qed
  then show "heap_ok V ?t L {a}"
    by (intro heap_okI) (use d(2,3,4) new in auto)
  show "apart ?t a"
    unfolding apart_def
  proof (intro ballI impI)
    fix c assume c: "c \<in> set (freelist ?t)" "c div 4096 = a div 4096"
    then have "c \<in> ext st c" using blocks_okD(1) [OF d(1), of c] block_in_ext by auto
    with far [of c c] c a(3) show "c + hsize ?t c \<noteq> a \<and> a + hsize ?t a \<noteq> c" by (auto simp: page_range_def)
  qed
qed

lemma live_disjoint:
  assumes "heap_ok U st (insert h L) {}" and "h \<notin> L" and "\<forall>b \<in> L. hsize st b = hsize st0 b"
  shows "\<forall>b \<in> L. ext st h \<inter> ext st0 b = {}"
proof
  fix b assume b: "b \<in> L"
  have "ext st h \<inter> ext st b = {}"
    using blocks_okD(2) [OF heap_okD(1) [OF assms(1)], of h b] b assms(2) by auto
  with b assms(3) show "ext st h \<inter> ext st0 b = {}" by (simp add: ext_def)
qed

text \<open>What an allocation promises of its result: null, or a live block with room for the request.\<close>

definition alloc_ok :: "nat \<Rightarrow> 'p xheap \<Rightarrow> nat set \<Rightarrow> nat \<Rightarrow> 'p xheap \<Rightarrow> bool" where
  "alloc_ok k st L r st' \<longleftrightarrow>
     (\<forall>b \<in> L. hsize st' b = hsize st b) \<and>
     (r = 0 \<and> xinv st' L \<or>
      (\<exists>h. r = h + sizeof_hdr \<and> h \<notin> L \<and> xinv st' (insert h L) \<and> k \<le> hsize st' h \<and>
           (\<forall>b \<in> L. ext st' h \<inter> ext st b = {})))"

lemma xmalloc_new_page_ok:
  assumes inv: "xinv st L" and s: "sizeof_hdr \<le> s" "s < 4096"
  shows "\<exists>r st'. xmalloc_new_page palloc s st = Inr (r, st') \<and> alloc_ok s st L r st'"
proof -
  have ok: "heap_ok (used (xpages st)) st L {}" and co: "coalesced st" and pi: "pinv (xpages st)"
    and big: "big_ok st L" using inv by (simp_all add: xinv_def)
  have "\<exists>a t. palloc 1 (xpages st) = Inr (a, t) \<and> pinv t \<and> used (xpages st) \<subseteq> used t \<and>
      (a = 0 \<or> a mod 4096 = 0 \<and> page_range a 1 \<inter> used (xpages st) = {} \<and> page_range a 1 \<subseteq> used t) \<and>
      bulk t = bulk (xpages st)" using palloc_fresh [OF pi order_refl] by auto
  then obtain a t where t: "palloc 1 (xpages st) = Inr (a, t)" "pinv t" "used (xpages st) \<subseteq> used t"
    "a = 0 \<or> a mod 4096 = 0 \<and> page_range a 1 \<inter> used (xpages st) = {} \<and> page_range a 1 \<subseteq> used t"
    "bulk t = bulk (xpages st)" by (elim exE conjE) (rule that)
  show ?thesis
  proof (cases "a = 0")
    case True
    then have "xinv (st\<lparr>xpages := t\<rparr>) L"
      using t ok co big heap_ok_mono [OF ok t(3)] by (simp add: xinv_def big_ok_def)
    with True t(1) show ?thesis by (simp add: xmalloc_new_page_def alloc_ok_def)
  next
    case False
    define st1 where "st1 = st\<lparr>xpages := t\<rparr>"
    define st2 where "st2 = st1\<lparr>hsize := (hsize st1)(a := 1 * 4096)\<rparr>"
    have ok1: "heap_ok (used (xpages st)) st1 L {}" using ok by (simp add: st1_def)
    have a4: "a mod 4096 = 0" "page_range a 1 \<inter> used (xpages st) = {}" "page_range a 1 \<subseteq> used t"
      using t(4) False by auto
    note fb = fresh_block [OF ok1 a4(1) False order_refl a4(2,3) t(3), folded st2_def]
    have co2: "coalesced st2" using co fb(2) by (auto simp: coalesced_def st2_def st1_def)
    have eq: "maybe_split a s 4096 st1 = maybe_split a s 4096 st2"
      by (auto simp: maybe_split_def Let_def st2_def)
    have h2: "hsize st2 a = 4096" by (simp add: st2_def)
    note ms = maybe_split_ok [OF fb(1) h2 order_refl s(1)] and mc = maybe_split_coalesced [OF fb(1) h2 order_refl s(1) _ co2 fb(3)]
    have hl: "\<forall>b \<in> L. hsize (maybe_split a s 4096 st2) b = hsize st b"
      using ms(4) s(2) fb(2) by (auto simp: st2_def st1_def)
    have "big_ok (maybe_split a s 4096 st2) (insert a L)"
      by (rule big_ok_keep [OF big]) (use hl ms(5) maybe_split_le [of s 4096 a st2] s(2) t(5) in \<open>auto simp: st2_def st1_def\<close>)
    then have "xinv (maybe_split a s 4096 st2) (insert a L)"
      using ms(1,5) mc s(2) t(2) by (simp add: xinv_def st2_def st1_def)
    moreover have "a \<notin> L" using fb(2) by (simp add: st1_def)
    moreover have "\<forall>b \<in> L. ext (maybe_split a s 4096 st2) a \<inter> ext st b = {}"
      using live_disjoint [OF ms(1) _ hl] s(2) calculation(2) by simp
    ultimately show ?thesis
      using t(1) False ms(2) s(2) hl eq by (auto simp: xmalloc_new_page_def alloc_ok_def st1_def [symmetric])
  qed
qed

lemma xmalloc_list_ok:
  assumes inv: "xinv st L" and i: "find (\<lambda>i. \<not> hsize st i < s) (freelist st) = Some i" and s: "sizeof_hdr \<le> s"
  shows "alloc_ok s st L (i + sizeof_hdr) (maybe_split i s (hsize st i) (st\<lparr>freelist := remove1 i (freelist st)\<rparr>))"
proof -
  have ok: "heap_ok (used (xpages st)) st L {}" and co: "coalesced st" and pi: "pinv (xpages st)"
    and big: "big_ok st L" using inv by (simp_all add: xinv_def)
  note d = heap_okD [OF ok]
  have fi: "i \<in> set (freelist st)" "s \<le> hsize st i" using i by (auto simp: find_Some_iff)
  define st1 where "st1 = st\<lparr>freelist := remove1 i (freelist st)\<rparr>"
  have ok1: "heap_ok (used (xpages st)) st1 L {i}" using heap_ok_detach [OF ok fi(1)] by (simp add: st1_def)
  have h1: "hsize st1 i = hsize st i" "hsize st i \<le> 4096" using d(3) [OF fi(1)] by (simp_all add: st1_def)
  have fl: "set (freelist st1) = set (freelist st) - {i}" using d(2) by (simp add: st1_def set_remove1_eq)
  have co1: "coalesced st1" using co fl by (auto simp: coalesced_def st1_def)
  have "apart st1 i"
    unfolding apart_def using co fi(1) fl by (auto simp: coalesced_def st1_def dest: bspec)
  note ms = maybe_split_ok [OF ok1 h1 s fi(2)] and mc = maybe_split_coalesced [OF ok1 h1 s fi(2) co1 this]
  have hl: "\<forall>b \<in> L. hsize (maybe_split i s (hsize st i) st1) b = hsize st b"
    using ms(4) by (simp add: st1_def)
  have "big_ok (maybe_split i s (hsize st i) st1) (insert i L)"
    by (rule big_ok_keep [OF big])
       (use hl ms(5) maybe_split_le [OF fi(2), of i st1] h1(2) in \<open>auto simp: st1_def\<close>)
  moreover have "i \<notin> L" using d(3) [OF fi(1)] by simp
  ultimately show ?thesis
    unfolding alloc_ok_def st1_def [symmetric]
    using ms(1,2,5) mc pi hl live_disjoint [OF ms(1) _ hl] by (auto simp: xinv_def st1_def)
qed

lemma align_up_8:
  assumes "unat x + 7 < 2 ^ 64" shows "unat (align_up x 8) = (unat x + 7) div 8 * 8"
  using unat_align_up [of x 3] assms by (simp add: align_up_def)

lemma align_up_page:
  assumes "unat x + 4095 < 2 ^ 64" shows "unat (align_up x 4096) = (unat x + 4095) div 4096 * 4096"
  using unat_align_up [of x 12] assms by (simp add: align_up_def)

lemma round_up_ge:
  assumes "0 < k" shows "n \<le> (n + (k - 1)) div k * (k :: nat)"
proof -
  define m where "m = n + (k - 1)"
  have "m div k * k + m mod k = m" "m mod k < k" using assms by simp_all
  then show ?thesis unfolding m_def [symmetric] using m_def by linarith
qed

lemma xmalloc_whole_ok:
  assumes inv: "xinv st L" and sz: "4096 \<le> unat sz" "unat sz \<le> 2 ^ 43 - 4096"
  shows "\<exists>r st'. xmalloc_whole_pages palloc sz st = Inr (r, st') \<and> alloc_ok (unat sz) st L r st'"
proof -
  define n where "n = (unat sz + 4095) div 4096"
  have asz: "unat (align_up sz 4096) = n * 4096" using align_up_page [of sz] sz(2) by (simp add: n_def)
  then have un: "unat (align_up sz 4096 div 4096) = n" by (simp add: unat_div)
  have n1: "1 \<le> n" using sz(1) unfolding n_def by linarith
  have "n < 2 ^ 31" using sz(2) unfolding n_def by (simp add: div_less_iff_less_mult)
  then have ni: "int_of_size n = int n" by (rule int_of_size_small)
  have le: "unat sz \<le> n * 4096" using round_up_ge [of 4096 "unat sz"] by (simp add: n_def)
  have ok: "heap_ok (used (xpages st)) st L {}" and co: "coalesced st" and pi: "pinv (xpages st)"
    and big: "big_ok st L" using inv by (simp_all add: xinv_def)
  obtain a t where t: "palloc (int n) (xpages st) = Inr (a, t)" "pinv t" "used (xpages st) \<subseteq> used t"
    "bulk t = bulk (xpages st)"
    "a = 0 \<or> a mod 4096 = 0 \<and> page_range a n \<inter> used (xpages st) = {} \<and> page_range a n \<subseteq> used t \<and>
     (512 \<le> n \<longrightarrow> a div 4096 \<in> bulk (xpages st))"
    using palloc_fresh [OF pi n1] by (elim exE conjE) (rule that)
  define st1 where "st1 = st\<lparr>xpages := t\<rparr>"
  have ok1: "heap_ok (used (xpages st)) st1 L {}" using ok by (simp add: st1_def)
  show ?thesis
  proof (cases "a = 0")
    case True
    then have "xinv st1 L"
      using t ok co big heap_ok_mono [OF ok t(3)] by (simp add: xinv_def st1_def big_ok_def)
    with True t(1) un ni show ?thesis by (simp add: xmalloc_whole_pages_def Let_def alloc_ok_def st1_def)
  next
    case False
    have a4: "a mod 4096 = 0" "page_range a n \<inter> used (xpages st) = {}" "page_range a n \<subseteq> used t"
      "512 \<le> n \<longrightarrow> a div 4096 \<in> bulk (xpages st)" using t(5) False by auto
    define st2 where "st2 = st1\<lparr>hsize := (hsize st1)(a := n * 4096)\<rparr>"
    note fb = fresh_block [OF ok1 a4(1) False n1 a4(2,3) t(3), folded st2_def]
    define st3 where "st3 = st2\<lparr>hlinked := (hlinked st2)(a := False)\<rparr>"
    have live: "heap_ok (used t) st3 (insert a L) {}" using heap_ok_live [of _ _ _ a "{}"] fb(1) by (simp add: st3_def)
    have aL: "a \<notin> L" "a \<notin> set (freelist st)" using fb(2) by (simp_all add: st1_def)
    then have hl: "\<forall>b \<in> L. hsize st3 b = hsize st b" by (auto simp: st3_def st2_def st1_def)
    have co3: "coalesced st3" using co aL by (auto simp: coalesced_def st3_def st2_def st1_def)
    have "big_ok st3 (insert a L)"
      by (rule big_ok_keep [OF big]) (use hl a4(4) t(4) in \<open>auto simp: st3_def st2_def st1_def\<close>)
    then have "xinv st3 (insert a L)" using live co3 t(2) by (simp add: xinv_def st3_def st2_def st1_def)
    moreover have "xmalloc_whole_pages palloc sz st = Inr (a + sizeof_hdr, st3)"
      using t(1) un ni False asz by (simp add: xmalloc_whole_pages_def Let_def st3_def st2_def st1_def)
    moreover have "unat sz \<le> hsize st3 a" using le by (simp add: st3_def st2_def)
    ultimately show ?thesis using aL(1) hl live_disjoint [OF live aL(1) hl] unfolding alloc_ok_def by blast
  qed
qed

lemma xmalloc_ok:
  assumes inv: "xinv st L" and asz: "unat asz + sizeof_hdr \<le> 2 ^ 43 - 4096"
  shows "\<exists>r st'. guk_xmalloc palloc False asz st = Inr (r, st') \<and> alloc_ok (unat asz + sizeof_hdr) st L r st'"
proof -
  define sz where "sz = align_up (asz + of_nat sizeof_hdr) 8"
  have "unat (asz + of_nat sizeof_hdr) = unat asz + sizeof_hdr"
    using asz by (intro unat_add_of_nat) (simp add: sizeof_hdr_def)
  then have us: "unat sz = (unat asz + sizeof_hdr + 7) div 8 * 8"
    using asz by (simp add: sz_def align_up_8 sizeof_hdr_def)
  have ge: "unat asz + sizeof_hdr \<le> unat sz" using round_up_ge [of 8 "unat asz + sizeof_hdr"] by (simp add: us)
  have "(unat asz + sizeof_hdr + 7) div 8 \<le> (2 ^ 43 - 4096 + 7) div 8" using asz by (intro div_le_mono) simp
  then have up: "unat sz \<le> 2 ^ 43 - 4096" using us by simp
  have mono: "alloc_ok (unat asz + sizeof_hdr) st L r st'" if "alloc_ok (unat sz) st L r st'" for r st'
    using that order_trans [OF ge] unfolding alloc_ok_def by blast
  show ?thesis
  proof (cases "sz \<ge> 4096")
    case True
    then have "4096 \<le> unat sz" by (simp add: word_le_nat_alt)
    from xmalloc_whole_ok [OF inv this up] True mono show ?thesis
      by (fastforce simp: guk_xmalloc_def Let_def sz_def [symmetric])
  next
    case False
    then have lt: "unat sz < 4096" by (simp add: word_le_nat_alt)
    have s24: "sizeof_hdr \<le> unat sz" using ge by simp
    show ?thesis
    proof (cases "find (\<lambda>i. \<not> hsize st i < unat sz) (freelist st)")
      case (Some i)
      with xmalloc_list_ok [OF inv Some s24] mono False show ?thesis
        by (auto simp: guk_xmalloc_def Let_def sz_def [symmetric])
    next
      case None
      with xmalloc_new_page_ok [OF inv s24 lt] mono False show ?thesis
        by (fastforce simp: guk_xmalloc_def Let_def sz_def [symmetric])
    qed
  qed
qed

text \<open>Freeing: the live block is detached first; a block of whole pages leaves the heap.\<close>

lemma heap_ok_unlive:
  assumes "heap_ok U st L {}" and "h \<in> L"
  shows "heap_ok U st (L - {h}) {h}"
proof -
  note d = heap_okD [OF assms(1)]
  have "set (freelist st) \<union> (L - {h}) \<union> {h} = set (freelist st) \<union> L \<union> {}" using assms(2) by blast
  then have "blocks_ok U st (set (freelist st) \<union> (L - {h}) \<union> {h})" using d(1) by simp
  then show ?thesis by (rule heap_okI) (use d(2,3,4) assms(2) in auto)
qed

lemma whole_block_pages:
  assumes "block_ok U st h" and "hsize st h = n * 4096" "0 < n"
  shows "h mod 4096 = 0" and "page_range h n \<subseteq> U" and "x div 4096 \<in> page_range h n \<longleftrightarrow> x \<in> ext st h"
proof -
  show h0: "h mod 4096 = 0" using assms by (auto simp: block_ok_def split: if_splits)
  then obtain k where k: "h = k * 4096" by (metis mod_eq_0_iff_dvd dvd_div_mult_self)
  show iff: "x div 4096 \<in> page_range h n \<longleftrightarrow> x \<in> ext st h" for x
  proof -
    have "k \<le> x div 4096 \<longleftrightarrow> k * 4096 \<le> x" by (simp add: less_eq_div_iff_mult_less_eq)
    moreover have "x div 4096 < k + n \<longleftrightarrow> x < (k + n) * 4096" by (simp add: div_less_iff_less_mult)
    ultimately show ?thesis using assms(2) by (auto simp: page_range_def ext_def k algebra_simps)
  qed
  show "page_range h n \<subseteq> U"
  proof
    fix q assume "q \<in> page_range h n"
    then have "q * 4096 \<in> ext st h" using iff [of "q * 4096"] by simp
    then have "q \<in> block_pages st h" unfolding block_pages_def by (intro image_eqI [of _ _ "q * 4096"]) auto
    then show "q \<in> U" using assms(1) by (auto simp: block_ok_def)
  qed
qed

lemma heap_ok_drop:
  assumes ok: "heap_ok U st L {h}" and n: "hsize st h = n * 4096" "0 < n"
  shows "heap_ok (U - page_range h n) st L {}"
proof -
  note d = heap_okD [OF ok]
  have hb: "block_ok U st h" using blocks_okD(1) [OF d(1)] by simp
  note wp = whole_block_pages [OF hb n]
  have "block_pages st b \<inter> page_range h n = {}" if "b \<in> set (freelist st) \<union> L" for b
  proof -
    have "b \<noteq> h" using that d(3) [of h] d(4) [of h] by auto
    then have "ext st b \<inter> ext st h = {}" using blocks_okD(2) [OF d(1), of b h] that by auto
    then show ?thesis using wp(3) by (auto simp: block_pages_def)
  qed
  then have "block_ok (U - page_range h n) st b" if "b \<in> set (freelist st) \<union> L" for b
    using that blocks_okD(1) [OF d(1), of b] unfolding block_ok_def by blast
  then have "blocks_ok (U - page_range h n) st (set (freelist st) \<union> L \<union> {})"
    using blocks_okD(2) [OF d(1)] by (intro blocks_okI) auto
  then show ?thesis by (rule heap_okI) (use d(2,3,4) in auto)
qed

definition returned :: "'p xheap \<Rightarrow> 'p xheap \<Rightarrow> nat set \<Rightarrow> bool" where
  "returned st st' X \<longleftrightarrow> (\<forall>x \<in> free_bytes st {} \<union> X. x \<in> free_bytes st' {} \<or> x div 4096 \<notin> used (xpages st'))"

lemma xfree_big_ok:
  assumes inv: "xinv st L" and h: "h \<in> L" "hsize st h = n * 4096" "0 < n"
  shows "\<exists>q. pfree h (int_of_size n) (xpages st) = Inr q \<and> xinv (st\<lparr>xpages := q\<rparr>) (L - {h}) \<and>
             returned st (st\<lparr>xpages := q\<rparr>) (ext st h)"
proof -
  have ok: "heap_ok (used (xpages st)) st (L - {h}) {h}" and co: "coalesced st" and pi: "pinv (xpages st)"
    and big: "big_ok st L" using inv h(1) heap_ok_unlive by (auto simp: xinv_def)
  have hb: "block_ok (used (xpages st)) st h" using blocks_okD(1) [OF heap_okD(1) [OF ok]] by simp
  note wp = whole_block_pages [OF hb h(2,3)]
  have n1: "1 \<le> n" using h(3) by simp
  have "h div 4096 + n - 1 \<in> used (xpages st)" using wp(2) h(3) by (auto simp: page_range_def)
  moreover have "0 < h div 4096" using wp(1) hb by (auto simp: block_ok_def)
  ultimately have "n < 2 ^ 31" using used_bound [OF pi] by auto
  then have ni: "int_of_size n = int n" by (rule int_of_size_small)
  have bk: "512 \<le> n \<longrightarrow> h div 4096 \<in> bulk (xpages st)" using big h(1,2) by (auto simp: big_ok_def)
  obtain q where q: "pfree h (int n) (xpages st) = Inr q" "pinv q" "bulk q = bulk (xpages st)"
    "used q = used (xpages st) - page_range h n" using pfree_gone [OF pi n1 wp(1,2) bk] by blast
  have "xinv (st\<lparr>xpages := q\<rparr>) (L - {h})"
    using heap_ok_drop [OF ok h(2,3)] co big q by (simp add: xinv_def big_ok_def)
  moreover have "returned st (st\<lparr>xpages := q\<rparr>) (ext st h)"
    unfolding returned_def using wp(3) q(4) by (auto simp: free_bytes_def ext_def)
  ultimately show ?thesis using q(1) ni by auto
qed

lemma xfree_ok:
  assumes inv: "xinv st L" and h: "h \<in> L"
  shows "\<exists>st'. guk_xfree pfree False (h + sizeof_hdr) st = Inr st' \<and> xinv st' (L - {h}) \<and>
               (\<forall>b \<in> L - {h}. hsize st' b = hsize st b) \<and> returned st st' (ext st h)"
proof -
  have ok: "heap_ok (used (xpages st)) st L {}" and co: "coalesced st" and pi: "pinv (xpages st)"
    and big: "big_ok st L" using inv by (simp_all add: xinv_def)
  note d = heap_okD [OF ok]
  have hb: "block_ok (used (xpages st)) st h" using blocks_okD(1) [OF d(1)] h by simp
  have pre: "h \<noteq> 0" "h + sizeof_hdr - sizeof_hdr = h" "(h + sizeof_hdr) div 4096 = h div 4096"
    "\<not> hlinked st h" using hb d(4) [OF h] by (auto simp: block_ok_def sizeof_hdr_def)
  show ?thesis
  proof (cases "hsize st h \<ge> 4096")
    case True
    then have n: "hsize st h = hsize st h div 4096 * 4096" "0 < hsize st h div 4096"
      using hb by (auto simp: block_ok_def div_less_iff_less_mult)
    obtain q where q: "pfree h (int_of_size (hsize st h div 4096)) (xpages st) = Inr q" "xinv (st\<lparr>xpages := q\<rparr>) (L - {h})"
      "returned st (st\<lparr>xpages := q\<rparr>) (ext st h)" using xfree_big_ok [OF inv h n] by blast
    with True pre show ?thesis by (simp add: guk_xfree_def Let_def)
  next
    case False
    have ok1: "heap_ok (used (xpages st)) st (L - {h}) {h}" by (rule heap_ok_unlive [OF ok h])
    obtain h' st1 where ml: "merge_loop h (freelist st) st = (h', st1)" by (metis surj_pair)
    have m: "heap_ok (used (xpages st)) st1 (L - {h}) {h'} \<and> hsize st1 h' \<le> 4096 \<and> coalesced st1 \<and> apart st1 h' \<and>
         (\<forall>b \<in> L - {h}. hsize st1 b = hsize st b) \<and> free_bytes st1 {h'} = free_bytes st {h} \<and> xpages st1 = xpages st"
      by (rule merge_loop_ok [OF ok1 _ co d(2) subset_refl _ ml]) (use False in auto)
    then have m: "heap_ok (used (xpages st)) st1 (L - {h}) {h'}" "hsize st1 h' \<le> 4096" "coalesced st1" "apart st1 h'"
      "\<forall>b \<in> L - {h}. hsize st1 b = hsize st b" "free_bytes st1 {h'} = free_bytes st {h}" "xpages st1 = xpages st"
      by auto
    have fb: "free_bytes st {} \<union> ext st h = free_bytes st1 {} \<union> ext st1 h'"
      using m(6) by (auto simp: free_bytes_def)
    show ?thesis
    proof (cases "hsize st1 h' = 4096")
      case full: True
      then have f1: "hsize st1 h' = 1 * 4096" by simp
      have hb': "block_ok (used (xpages st)) st1 h'" using blocks_okD(1) [OF heap_okD(1) [OF m(1)]] by simp
      note wp = whole_block_pages [OF hb' f1 zero_less_one]
      obtain q where q: "pfree h' 1 (xpages st) = Inr q" "pinv q" "used q = used (xpages st) - page_range h' 1"
        "bulk q = bulk (xpages st)" using pfree_gone [OF pi order_refl wp(1,2)] by auto
      have "xinv (st1\<lparr>xpages := q\<rparr>) (L - {h})"
        using heap_ok_drop [OF m(1) f1] m(3) q big_ok_keep [OF big, of "L - {h}" "st1\<lparr>xpages := q\<rparr>"] m(5)
        by (simp add: xinv_def)
      moreover have "returned st (st1\<lparr>xpages := q\<rparr>) (ext st h)"
        unfolding returned_def fb using wp(3) q(3) by (auto simp: free_bytes_def ext_def)
      ultimately show ?thesis
        using False pre ml full wp(1) q(1) m(5,7) by (simp add: guk_xfree_def Let_def)
    next
      case part: False
      define st2 where "st2 = st1\<lparr>freelist := h' # freelist st1, hlinked := (hlinked st1)(h' := True)\<rparr>"
      have "heap_ok (used (xpages st)) st2 (L - {h}) {}"
        unfolding st2_def by (rule heap_ok_free) (use m(1,2) part in auto)
      moreover have "coalesced st2"
        using m(3,4) blocks_okD(1) [OF heap_okD(1) [OF m(1)], of h']
        by (auto simp: coalesced_def apart_def st2_def block_ok_def sizeof_hdr_def)
      moreover have "big_ok st2 (L - {h})" by (rule big_ok_keep [OF big]) (use m(5,7) in \<open>auto simp: st2_def\<close>)
      ultimately have "xinv st2 (L - {h})" using pi m(7) by (simp add: xinv_def st2_def)
      moreover have "free_bytes st2 {} = free_bytes st1 {} \<union> ext st1 h'"
        by (auto simp: free_bytes_def st2_def ext_def)
      then have "returned st st2 (ext st h)" unfolding returned_def fb by auto
      moreover have "\<forall>b \<in> L - {h}. hsize st2 b = hsize st b" using m(5) by (simp add: st2_def)
      moreover have "guk_xfree pfree False (h + sizeof_hdr) st = Inr st2"
        using False pre ml part by (simp add: guk_xfree_def Let_def st2_def)
      ultimately show ?thesis by blast
    qed
  qed
qed

end

section \<open>The page allocator of mm.c is a page provider\<close>

text \<open>
  The kernel is linked at address 0, so that virtual addresses are page numbers times the page
  size. \<open>ir\<close> is \<open>increase_reservation\<close>.
\<close>

definition guk_palloc ::
  "(nat \<Rightarrow> memory_hole \<Rightarrow> mm \<Rightarrow> mm \<times> int) \<Rightarrow> int \<Rightarrow> mm \<Rightarrow> guk_stop + nat \<times> mm" where
  "guk_palloc ir n s =
     (case allocate_pages 0 (\<lambda>k. increase_memory_holding_lock ir (nat k)) False n s of
        None \<Rightarrow> Inl FAULT
      | Some (Inl e) \<Rightarrow> Inl e
      | Some (Inr (t, r)) \<Rightarrow> Inr (unat r, t))"

definition guk_pfree :: "nat \<Rightarrow> int \<Rightarrow> mm \<Rightarrow> guk_stop + mm" where
  "guk_pfree a n s = deallocate_pages 0 False (of_nat a) n s"

text \<open>
  The pool of the heap: consistent, and its page numbers fit in an \<open>int\<close>, the type the counts and
  \<open>next_free\<close> have.
\<close>

definition guk_pinv :: "mm \<Rightarrow> bool" where
  "guk_pinv s \<longleftrightarrow> pool_inv s \<and> 0 < first_alloc_page s \<and> max_end_alloc_page s \<le> 2 ^ 31"

definition guk_bulk :: "mm \<Rightarrow> nat set" where
  "guk_bulk s = {first_bulk_page s..}"

lemma unat_pfn_to_virt: "p < 2 ^ 52 \<Longrightarrow> unat (pfn_to_virt 0 p) = p * 4096"
  by (simp add: pfn_to_virt_def push_bit_eq_mult unat_word_ariths unat_of_nat mult.commute take_bit_eq_mod)

lemma pfn_to_virt_page: "a mod 4096 = 0 \<Longrightarrow> pfn_to_virt 0 (a div 4096) = of_nat a"
proof -
  assume "a mod 4096 = 0"
  then obtain k where "a = k * 4096" by (metis mod_eq_0_iff_dvd dvd_div_mult_self)
  then show ?thesis by (simp add: pfn_to_virt_def push_bit_eq_mult)
qed

lemma guk_palloc_fresh:
  assumes ir: "reservation_ok ir" and inv: "guk_pinv s" and n: "1 \<le> n"
  shows "\<exists>a t. guk_palloc ir (int n) s = Inr (a, t) \<and> guk_pinv t \<and> mm_used s \<subseteq> mm_used t \<and> guk_bulk t = guk_bulk s \<and>
           (a = 0 \<or> a mod 4096 = 0 \<and> page_range a n \<inter> mm_used s = {} \<and> page_range a n \<subseteq> mm_used t \<and>
                    (512 \<le> n \<longrightarrow> a div 4096 \<in> guk_bulk s))"
proof -
  have nz: "\<forall>p. first_alloc_page s \<le> p \<and> p < max_end_alloc_page s \<longrightarrow> pfn_to_virt 0 p \<noteq> 0"
  proof (intro allI impI pfn_to_virt_nonzero)
    fix p assume "first_alloc_page s \<le> p \<and> p < max_end_alloc_page s"
    then show "0 < p" "p < 2 ^ 52" using inv by (auto simp: guk_pinv_def)
  qed
  obtain t r where t: "allocate_pages 0 (\<lambda>k. increase_memory_holding_lock ir (nat k)) False (int n) s = Some (Inr (t, r))"
    "pool_inv t" "allocated_fresh 0 (int n) s t r"
    "first_alloc_page t = first_alloc_page s" "max_end_alloc_page t = max_end_alloc_page s"
    "first_bulk_page t = first_bulk_page s"
    using allocate_pages_ok [OF ir _ _ nz, of "int n"] inv n by (auto simp: guk_pinv_def)
  have pt: "guk_pinv t" "guk_bulk t = guk_bulk s" using t inv by (simp_all add: guk_pinv_def guk_bulk_def)
  from t(3) show ?thesis
    unfolding allocated_fresh_def
  proof
    assume "r = 0 \<and> mm_used s \<subseteq> mm_used t"
    with t(1) pt show ?thesis by (auto simp: guk_palloc_def)
  next
    assume "\<exists>p. r = pfn_to_virt 0 p \<and> p + nat (int n) \<le> end_alloc_page t \<and> (is_bulk (int n) \<longrightarrow> first_bulk_page t \<le> p) \<and>
        {p..<p + nat (int n)} \<inter> mm_used s = {} \<and> mm_used s \<union> {p..<p + nat (int n)} \<subseteq> mm_used t"
    then obtain p where p: "r = pfn_to_virt 0 p" "p + n \<le> end_alloc_page t"
      "{p..<p + n} \<inter> mm_used s = {}" "mm_used s \<union> {p..<p + n} \<subseteq> mm_used t"
      "is_bulk (int n) \<longrightarrow> first_bulk_page t \<le> p" by auto
    have "p < 2 ^ 52" using p(2) n pt(1) by (simp add: guk_pinv_def pool_inv_def holes_ok_def)
    then have u: "unat r = p * 4096" unfolding p(1) by (rule unat_pfn_to_virt)
    then have "page_range (unat r) n = {p..<p + n}" "unat r mod 4096 = 0" by (simp_all add: page_range_def)
    moreover have "512 \<le> n \<longrightarrow> unat r div 4096 \<in> guk_bulk s"
      using p(5) t(6) u by (auto simp: guk_bulk_def is_bulk_def BULK_ALLOCATION_def)
    ultimately show ?thesis using t(1) pt p(3,4) by (auto simp: guk_palloc_def)
  qed
qed

lemma guk_pfree_gone:
  assumes inv: "guk_pinv s" and n: "1 \<le> n" and a: "a mod 4096 = 0" and u: "page_range a n \<subseteq> mm_used s"
    and bulk: "512 \<le> n \<longrightarrow> a div 4096 \<in> guk_bulk s"
  shows "\<exists>t. guk_pfree a (int n) s = Inr t \<and> guk_pinv t \<and> guk_bulk t = guk_bulk s \<and> mm_used t = mm_used s - page_range a n"
proof -
  define p where "p = a div 4096"
  have pr: "page_range a n = {p..<p + n}" by (simp add: page_range_def p_def)
  have s: "mm_inv s" "holes_ok s" using inv by (simp_all add: guk_pinv_def pool_inv_def)
  have "p \<in> mm_used s" "p + n - 1 \<in> mm_used s" using u n by (auto simp: pr)
  then have reg: "first_alloc_page s \<le> p" "p + nat (int n) \<le> end_alloc_page s" using n by (auto simp: mm_used_def)
  have p52: "p < 2 ^ 52" using reg n s inv by (simp add: guk_pinv_def holes_ok_def)
  have held: "mm_free s \<inter> {p..<p + nat (int n)} = {}" using u by (auto simp: pr mm_free_def mm_used_def)
  have nb: "is_bulk (int n) \<longrightarrow> first_bulk_page s \<le> p"
    using bulk by (simp add: is_bulk_def BULK_ALLOCATION_def guk_bulk_def p_def)
  obtain t where t: "deallocate_pages 0 False (pfn_to_virt 0 p) (int n) s = Inr t"
    by (simp add: deallocate_pages_def Let_def)
  have tf: "alloc_bitmap t = map_free (alloc_bitmap s) p n" "memory_hole_list t = memory_hole_list s"
    "end_alloc_page t = end_alloc_page s" "max_end_alloc_page t = max_end_alloc_page s"
    "first_alloc_page t = first_alloc_page s" "first_bulk_page t = first_bulk_page s"
    using t p52 by (auto simp: deallocate_pages_def Let_def split: if_splits)
  have "mm_inv t" using deallocate_inv [OF t p52 _ reg held nb s(1)] n by simp
  moreover have "holes_ok t"
  proof -
    have "\<not> (p \<le> q \<and> q < p + n)" if "h \<in> set (memory_hole_list s)" "start_pfn h \<le> q" "q < end_pfn h" for h q
      using u that by (auto simp: pr mm_used_def in_hole_def)
    then show ?thesis using s(2) reg unfolding holes_ok_def tf by (auto simp: map_free_iff)
  qed
  ultimately have "guk_pinv t" using inv tf by (simp add: guk_pinv_def pool_inv_def)
  moreover have "mm_used t = mm_used s - page_range a n"
    by (auto simp: mm_used_def in_hole_def tf map_free_iff pr)
  moreover have "guk_bulk t = guk_bulk s" by (simp add: guk_bulk_def tf)
  moreover have "guk_pfree a (int n) s = Inr t" using t pfn_to_virt_page [OF a] by (simp add: guk_pfree_def p_def)
  ultimately show ?thesis by blast
qed

lemma guk_used_bound: "guk_pinv s \<Longrightarrow> mm_used s \<subseteq> {..<2 ^ 31}"
  by (auto simp: guk_pinv_def pool_inv_def holes_ok_def mm_used_def)

lemma guk_provider: "reservation_ok ir \<Longrightarrow> page_provider (guk_palloc ir) guk_pfree guk_pinv mm_used guk_bulk"
  unfolding page_provider_def using guk_used_bound guk_palloc_fresh guk_pfree_gone by blast

locale guk_pool =
  fixes ir :: "nat \<Rightarrow> memory_hole \<Rightarrow> mm \<Rightarrow> mm \<times> int"
  assumes ir_ok: "reservation_ok ir"

sublocale guk_pool \<subseteq> pp: page_provider "guk_palloc ir" guk_pfree guk_pinv mm_used guk_bulk
  by (rule guk_provider [OF ir_ok])

text \<open>The pool with a hypervisor that grants every request is one instance.\<close>

interpretation gp: guk_pool grant_all
  by unfold_locales (rule grant_all_ok)

section \<open>Properties\<close>

definition xheap_inv :: "mm xheap \<Rightarrow> nat set \<Rightarrow> bool" where
  "xheap_inv st L \<longleftrightarrow> guk_pinv (xpages st) \<and> heap_ok (mm_used (xpages st)) st L {} \<and> coalesced st \<and>
     (\<forall>b \<in> L. 512 * 4096 \<le> hsize st b \<longrightarrow> first_bulk_page (xpages st) \<le> b div 4096)"

lemma xinv_guk: "page_provider.xinv guk_pinv mm_used guk_bulk st L = xheap_inv st L"
  by (simp add: gp.pp.xinv_def gp.pp.big_ok_def xheap_inv_def guk_bulk_def)

lemma xmalloc_guk:
  assumes "reservation_ok ir" and "xheap_inv st L" and "unat asz + sizeof_hdr \<le> 2 ^ 43 - 4096"
  shows "\<exists>r st'. guk_xmalloc (guk_palloc ir) False asz st = Inr (r, st') \<and>
           (\<forall>b \<in> L. hsize st' b = hsize st b) \<and>
           (r = 0 \<and> xheap_inv st' L \<or>
            (\<exists>h. r = h + sizeof_hdr \<and> h \<notin> L \<and> xheap_inv st' (insert h L) \<and> unat asz + sizeof_hdr \<le> hsize st' h \<and>
                 (\<forall>b \<in> L. ext st' h \<inter> ext st b = {})))"
  using page_provider.xmalloc_ok [OF guk_provider [OF assms(1)], of st L asz] assms(2,3)
  unfolding xinv_guk gp.pp.alloc_ok_def by blast

lemma xmalloc_truncated:
  assumes "palloc 1 (xpages st) = Inr (a, t)" and "a \<noteq> 0"
  shows "\<exists>st'. guk_xmalloc palloc False (2 ^ 44) st = Inr (a + sizeof_hdr, st') \<and>
               xpages st' = t \<and> hsize st' a = 2 ^ 44 + 4096"
proof -
  define sz where "sz = align_up (2 ^ 44 + of_nat sizeof_hdr) 8"
  have us: "unat sz = 2 ^ 44 + 24" using gp.pp.align_up_8 [of "2 ^ 44 + 24"] by (simp add: sz_def sizeof_hdr_def)
  then have up: "unat (align_up sz 4096) = 2 ^ 44 + 4096" using gp.pp.align_up_page [of sz] by simp
  then have n: "unat (align_up sz 4096 div 4096) = 2 ^ 32 + 1" by (simp add: unat_div)
  have i: "int_of_size (2 ^ 32 + 1) = 1" by (simp add: int_of_size_def)
  have "sz \<ge> 4096" using us by (simp add: word_le_nat_alt)
  then have "guk_xmalloc palloc False (2 ^ 44) st = xmalloc_whole_pages palloc sz st"
    by (simp add: guk_xmalloc_def sz_def Let_def)
  with assms up show ?thesis
    by (simp add: xmalloc_whole_pages_def Let_def n i [simplified])
qed

lemma xfree_guk:
  assumes "xheap_inv st L" and "h \<in> L"
  shows "\<exists>st'. guk_xfree guk_pfree False (h + sizeof_hdr) st = Inr st' \<and> xheap_inv st' (L - {h}) \<and>
           (\<forall>b \<in> L - {h}. hsize st' b = hsize st b) \<and>
           (\<forall>x \<in> free_bytes st {} \<union> ext st h. x \<in> free_bytes st' {} \<or> x div 4096 \<notin> mm_used (xpages st'))"
  using gp.pp.xfree_ok [of st L h] assms unfolding xinv_guk gp.pp.returned_def by blast

text \<open>
  C2. Allocation from the heap returns null or the address behind the header of a new live
  block that has room for the request, overlaps no live block, and lies in pages the page
  allocator has handed out; live blocks keep their size, and the heap stays well formed with
  no two neighbouring free blocks in a page. This holds for requests whose page count fits in the
  \<open>int\<close> that \<open>guk_allocate_pages\<close> takes, that is up to \<open>2 ^ 43 - 4096\<close> bytes with the header. Above,
  the count is truncated: for a request of \<open>2 ^ 44\<close> bytes one page is allocated, and recorded as a block
  of \<open>2 ^ 44 + 4096\<close> bytes.
\<close>

theorem xmalloc_correct:
  assumes "reservation_ok ir" and "xheap_inv st L"
  shows "(unat asz + sizeof_hdr \<le> 2 ^ 43 - 4096 \<longrightarrow>
          (\<exists>r st'. guk_xmalloc (guk_palloc ir) False asz st = Inr (r, st') \<and>
             (\<forall>b \<in> L. hsize st' b = hsize st b) \<and>
             (r = 0 \<and> xheap_inv st' L \<or>
              (\<exists>h. r = h + sizeof_hdr \<and> h \<notin> L \<and> xheap_inv st' (insert h L) \<and> unat asz + sizeof_hdr \<le> hsize st' h \<and>
                   (\<forall>b \<in> L. ext st' h \<inter> ext st b = {}))))) \<and>
         (\<forall>a t. guk_palloc ir 1 (xpages st) = Inr (a, t) \<and> a \<noteq> 0 \<longrightarrow>
            (\<exists>st'. guk_xmalloc (guk_palloc ir) False (2 ^ 44) st = Inr (a + sizeof_hdr, st') \<and>
                   xpages st' = t \<and> hsize st' a = 2 ^ 44 + 4096))"
proof (intro conjI allI impI)
  fix a t assume "guk_palloc ir 1 (xpages st) = Inr (a, t) \<and> a \<noteq> 0"
  then show "\<exists>st'. guk_xmalloc (guk_palloc ir) False (2 ^ 44) st = Inr (a + sizeof_hdr, st') \<and>
                   xpages st' = t \<and> hsize st' a = 2 ^ 44 + 4096"
    by (intro xmalloc_truncated) auto
qed (rule xmalloc_guk [OF assms])

definition sample_heap :: "mm xheap" where
  "sample_heap = \<lparr>freelist = [], hsize = (\<lambda>_. 0), hlinked = (\<lambda>_. False), xpages = sample_balloon\<rparr>"

lemma sample_heap_inv: "xheap_inv sample_heap {}"
  by (simp add: xheap_inv_def sample_heap_def heap_ok_def blocks_ok_def coalesced_def guk_pinv_def)
     (simp add: sample_balloon_def)

lemma sample_balloon_fields [simp]:
  "first_free_page sample_balloon = 2" "first_alloc_page sample_balloon = 2"
  "first_free_bulk_page sample_balloon = 4" "end_alloc_page sample_balloon = 10"
  "allocated_in_map (alloc_bitmap sample_balloon) p \<longleftrightarrow> \<not> (2 \<le> p \<and> p < 10)"
  using sample_allocated by (simp_all add: sample_balloon_def)

lemma sample_palloc: "guk_palloc grant_all 1 sample_balloon = Inr (8192, take_pages False 2 1 sample_balloon)"
proof -
  have "served_from 1 sample_balloon = Some (False, 2)"
    by (simp add: served_from_def region_search_def is_bulk_def BULK_ALLOCATION_def find_run.simps run_from.simps)
  then show ?thesis
    using served_from_search(3) [of 1 sample_balloon False 2 0] pfn_to_virt_nonzero [of 2] unat_pfn_to_virt [of 2]
    by (simp add: guk_palloc_def)
qed

theorem xmalloc_correct_witness:
  "(\<exists>st' h. guk_xmalloc (guk_palloc grant_all) False 100 sample_heap = Inr (h + sizeof_hdr, st') \<and>
            xheap_inv st' {h} \<and> 100 + sizeof_hdr \<le> hsize st' h) \<and>
   (\<exists>st'. guk_xmalloc (guk_palloc grant_all) False (2 ^ 44) sample_heap = Inr (8192 + sizeof_hdr, st') \<and>
          hsize st' 8192 = 2 ^ 44 + 4096)"
proof -
  have small: "\<not> align_up (100 + of_nat sizeof_hdr) 8 \<ge> 4096"
    by (simp add: align_up_def sizeof_hdr_def) 
  have "\<exists>r st'. guk_xmalloc (guk_palloc grant_all) False 100 sample_heap = Inr (r, st') \<and> r \<noteq> 0"
    using small sample_palloc by (simp add: guk_xmalloc_def xmalloc_new_page_def Let_def sample_heap_def)
  moreover have "unat (100::u64) + sizeof_hdr \<le> 2 ^ 43 - 4096" by (simp add: sizeof_hdr_def)
  moreover have "xpages sample_heap = sample_balloon" by (simp add: sample_heap_def)
  ultimately show ?thesis
    using xmalloc_correct [OF grant_all_ok sample_heap_inv, of 100] sample_palloc by auto
qed

text \<open>
  C10. Freeing a live block returns every one of its bytes: each is afterwards in a free block,
  or its page has gone back to the page allocator. It merges with the free neighbours on its
  page, so that free blocks are never neighbours, keeps the other live blocks, and never trips
  the checks for a foreign or doubly freed address.
\<close>

theorem xfree_correct:
  assumes "xheap_inv st L" and "h \<in> L"
  shows "\<exists>st'. guk_xfree guk_pfree False (h + sizeof_hdr) st = Inr st' \<and> xheap_inv st' (L - {h}) \<and>
           (\<forall>b \<in> L - {h}. hsize st' b = hsize st b) \<and>
           (\<forall>x \<in> free_bytes st {} \<union> ext st h. x \<in> free_bytes st' {} \<or> x div 4096 \<notin> mm_used (xpages st'))"
  using assms by (rule xfree_guk)

text \<open>A heap with one live block of a page, for the instance.\<close>

definition sample_live :: "mm xheap" where
  "sample_live = sample_heap\<lparr>hsize := (\<lambda>_. 4096), xpages := take_pages False 2 1 sample_balloon\<rparr>"

lemma sample_live_inv: "xheap_inv sample_live {2 * 4096}"
proof -
  have inv: "mm_inv sample_balloon" "holes_ok sample_balloon"
    using sample_balloon_inv unfolding pool_inv_def by auto
  have "first_free_page sample_balloon = 2" by (simp add: sample_balloon_def)
  then have "mm_inv (take_pages False 2 1 sample_balloon)"
    by (intro take_pages_inv [OF inv(1)]) auto
  then have p: "guk_pinv (xpages sample_live)"
    using take_pages_holes_ok [OF inv(2)] by (simp add: guk_pinv_def pool_inv_def sample_live_def) (simp add: sample_balloon_def)
  have "mm_used (take_pages False 2 1 sample_balloon) = mm_used sample_balloon \<union> {2..<2 + nat 1}"
    by (rule take_pages_used) (use inv(2) in auto)
  then have u: "2 \<in> mm_used (xpages sample_live)" by (simp add: sample_live_def)
  have "block_pages sample_live 8192 \<subseteq> {2}"
  proof
    fix q assume "q \<in> block_pages sample_live 8192"
    then obtain x where "8192 \<le> x" "x < 12288" "q = x div 4096" by (auto simp: block_pages_def ext_def sample_live_def)
    then have "q = 2" by (intro antisym) (auto simp: div_le_mono less_eq_div_iff_mult_less_eq less_Suc_eq_le [symmetric] div_less_iff_less_mult)
    then show "q \<in> {2}" by simp
  qed
  with u have "block_ok (mm_used (xpages sample_live)) sample_live 8192"
    by (auto simp: block_ok_def sample_live_def sizeof_hdr_def)
  with p show ?thesis
    by (simp add: xheap_inv_def heap_ok_def blocks_ok_def coalesced_def) (simp add: sample_live_def sample_heap_def)
qed

theorem xfree_correct_witness: "\<exists>st'. guk_xfree guk_pfree False (2 * 4096 + sizeof_hdr) sample_live = Inr st' \<and> xheap_inv st' {}"
  using xfree_correct [OF sample_live_inv, of "2 * 4096"] by (auto simp: sample_live_def)

lemma sizeof_hdr_pos: "0 < sizeof_hdr"
  by (simp add: sizeof_hdr_def)

lemma size_of_int_large:
  assumes "2 ^ 31 \<le> n" and "n < 2 ^ 32" shows "2 ^ 63 \<le> size_of_int (int_of_size n)"
proof -
  have "- (2 ^ 31) \<le> int_of_size n"
    using sint_greater_eq [of "of_nat n :: u32"] by (simp add: int_of_size_def)
  moreover have "int_of_size n < 0" using assms by (rule int_of_size_large)
  ultimately have "int_of_size n mod 2 ^ 64 = int_of_size n + 2 ^ 64"
    using mod_add_self2 [of "int_of_size n" "2 ^ 64"] mod_pos_pos_trivial [of "int_of_size n + 2 ^ 64" "2 ^ 64"] by simp
  with \<open>- (2 ^ 31) \<le> int_of_size n\<close> show ?thesis by (simp add: size_of_int_def)
qed

text \<open>The steps of a reallocation that has to move, after the request for the new block.\<close>

lemma xrealloc_move:
  assumes inv: "xheap_inv st L" and h: "h \<in> L"
    and hs: "\<forall>b \<in> L. hsize st1 b = hsize st b" and n: "n = hsize st h - sizeof_hdr"
    and k: "k \<notin> L" "xheap_inv st1 (insert k L)" "0 < hsize st1 k - sizeof_hdr" "ext st1 k \<inter> ext st h = {}"
  shows "\<exists>st2. guk_xfree guk_pfree False (h + sizeof_hdr) st1 = Inr st2 \<and> xheap_inv st2 (insert k L - {h}) \<and>
           hsize st2 k = hsize st1 k"
    and "memcpy m (k + sizeof_hdr) (h + sizeof_hdr) n =
           (\<lambda>a. if k + sizeof_hdr \<le> a \<and> a < k + sizeof_hdr + n then m (h + sizeof_hdr + (a - (k + sizeof_hdr))) else m a)"
proof -
  have "k \<noteq> h" using k(1) h by auto
  with xfree_guk [OF k(2), of h] h
  show "\<exists>st2. guk_xfree guk_pfree False (h + sizeof_hdr) st1 = Inr st2 \<and> xheap_inv st2 (insert k L - {h}) \<and>
           hsize st2 k = hsize st1 k" by blast
  have ov: "k + sizeof_hdr \<le> h + sizeof_hdr \<or> h + sizeof_hdr + n \<le> k + sizeof_hdr"
  proof (rule ccontr)
    assume "\<not> ?thesis"
    then have "k \<in> ext st h" "k \<in> ext st1 k"
      using k(3) by (auto simp: ext_def n sizeof_hdr_def)
    with k(4) show False by blast
  qed
  show "memcpy m (k + sizeof_hdr) (h + sizeof_hdr) n =
           (\<lambda>a. if k + sizeof_hdr \<le> a \<and> a < k + sizeof_hdr + n then m (h + sizeof_hdr + (a - (k + sizeof_hdr))) else m a)"
    by (rule memcpy_eq [OF ov])
qed

text \<open>
  C30. Reallocation of a live block with \<open>n\<close> bytes of room keeps it when \<open>n\<close> is enough. Otherwise
  it asks \<open>guk_xmalloc\<close> for a new block. When there is none the copy to address 0 faults, unless the
  old block is empty: then it is freed and null returned. When there is one, the result is that
  block: it is live, has room for the request, holds the \<open>n\<close> bytes of the old one, nothing else in
  memory changes, and the old block is freed. Since the old size is kept in an \<open>int\<close>, a
  block with room for \<open>2 ^ 31\<close> to \<open>2 ^ 32 - 1\<close> bytes is kept whatever the request.
\<close>

theorem xrealloc_correct:
  assumes ir: "reservation_ok ir" and inv: "xheap_inv st L" and h: "h \<in> L" "hsize st h < 2 ^ 32"
    and n: "n = hsize st h - sizeof_hdr" and asz: "unat asz + sizeof_hdr \<le> 2 ^ 43 - 4096"
  shows "(unat asz \<le> n \<or> 2 ^ 31 \<le> n \<longrightarrow>
            guk_xrealloc (guk_palloc ir) guk_pfree False (h + sizeof_hdr) asz m st = Inr (h + sizeof_hdr, m, st)) \<and>
         (n < unat asz \<and> n < 2 ^ 31 \<longrightarrow>
            (\<exists>r st1. guk_xmalloc (guk_palloc ir) False asz st = Inr (r, st1) \<and>
              (if r = 0
               then if 0 < n
                    then guk_xrealloc (guk_palloc ir) guk_pfree False (h + sizeof_hdr) asz m st = Inl FAULT
                    else \<exists>st'. guk_xrealloc (guk_palloc ir) guk_pfree False (h + sizeof_hdr) asz m st = Inr (0, m, st') \<and>
                               xheap_inv st' (L - {h})
               else \<exists>k m' st'. r = k + sizeof_hdr \<and> k \<notin> L \<and>
                      guk_xrealloc (guk_palloc ir) guk_pfree False (h + sizeof_hdr) asz m st = Inr (r, m', st') \<and>
                      xheap_inv st' (insert k L - {h}) \<and> unat asz + sizeof_hdr \<le> hsize st' k \<and>
                      (\<forall>i < n. m' (r + i) = m (h + sizeof_hdr + i)) \<and>
                      (\<forall>a. a < r \<or> r + n \<le> a \<longrightarrow> m' a = m a))))"
proof (intro conjI impI)
  assume keep: "unat asz \<le> n \<or> 2 ^ 31 \<le> n"
  have "unat asz \<le> size_of_int (int_of_size n)"
  proof (cases "n < 2 ^ 31")
    case True
    with keep show ?thesis by (simp add: int_of_size_small size_of_int_nat)
  next
    case False
    then have "2 ^ 63 \<le> size_of_int (int_of_size n)" using h(2) n by (intro size_of_int_large) auto
    with asz show ?thesis by simp
  qed
  then show "guk_xrealloc (guk_palloc ir) guk_pfree False (h + sizeof_hdr) asz m st = Inr (h + sizeof_hdr, m, st)"
    using sizeof_hdr_pos by (simp add: guk_xrealloc_def Let_def n)
next
  assume grow: "n < unat asz \<and> n < 2 ^ 31"
  then have ps: "size_of_int (int_of_size (hsize st h - sizeof_hdr)) = n"
    by (simp add: int_of_size_small size_of_int_nat n)
  obtain r st1 where x: "guk_xmalloc (guk_palloc ir) False asz st = Inr (r, st1)"
    and hs: "\<forall>b \<in> L. hsize st1 b = hsize st b"
    and r: "r = 0 \<and> xheap_inv st1 L \<or> (\<exists>k. r = k + sizeof_hdr \<and> k \<notin> L \<and> xheap_inv st1 (insert k L) \<and>
        unat asz + sizeof_hdr \<le> hsize st1 k \<and> (\<forall>b \<in> L. ext st1 k \<inter> ext st b = {}))"
    using xmalloc_guk [OF ir inv asz] by blast
  have re: "guk_xrealloc (guk_palloc ir) guk_pfree False (h + sizeof_hdr) asz m st =
      (if r = 0 \<and> n > 0 then Inl FAULT
       else res_bind (guk_xfree guk_pfree False (h + sizeof_hdr) st1) (\<lambda>st2. Inr (r, memcpy m r (h + sizeof_hdr) n, st2)))"
    using grow x ps sizeof_hdr_pos by (simp add: guk_xrealloc_def Let_def)
  show "\<exists>r st1. guk_xmalloc (guk_palloc ir) False asz st = Inr (r, st1) \<and>
              (if r = 0
               then if 0 < n
                    then guk_xrealloc (guk_palloc ir) guk_pfree False (h + sizeof_hdr) asz m st = Inl FAULT
                    else \<exists>st'. guk_xrealloc (guk_palloc ir) guk_pfree False (h + sizeof_hdr) asz m st = Inr (0, m, st') \<and>
                               xheap_inv st' (L - {h})
               else \<exists>k m' st'. r = k + sizeof_hdr \<and> k \<notin> L \<and>
                      guk_xrealloc (guk_palloc ir) guk_pfree False (h + sizeof_hdr) asz m st = Inr (r, m', st') \<and>
                      xheap_inv st' (insert k L - {h}) \<and> unat asz + sizeof_hdr \<le> hsize st' k \<and>
                      (\<forall>i < n. m' (r + i) = m (h + sizeof_hdr + i)) \<and>
                      (\<forall>a. a < r \<or> r + n \<le> a \<longrightarrow> m' a = m a))"
  proof (cases "r = 0")
    case r0: True
    then have "xheap_inv st1 L" using r by (auto simp: sizeof_hdr_def)
    then obtain st2 where "guk_xfree guk_pfree False (h + sizeof_hdr) st1 = Inr st2" "xheap_inv st2 (L - {h})"
      using xfree_guk [OF _ h(1)] by blast
    with r0 x re show ?thesis by auto
  next
    case False
    then obtain k where k: "r = k + sizeof_hdr" "k \<notin> L" "xheap_inv st1 (insert k L)"
      "unat asz + sizeof_hdr \<le> hsize st1 k" "ext st1 k \<inter> ext st h = {}" using r h(1) by blast
    have pos: "0 < hsize st1 k - sizeof_hdr" using k(4) grow by linarith
    note mv = xrealloc_move [OF inv h(1) hs n k(2,3) pos k(5)]
    obtain st2 where "guk_xfree guk_pfree False (h + sizeof_hdr) st1 = Inr st2" "xheap_inv st2 (insert k L - {h})"
      "hsize st2 k = hsize st1 k" using mv(1) by blast
    with False x re k(1,2,4) mv(2) [of m] show ?thesis by auto
  qed
qed

text \<open>The block of one page grows to 5000 bytes: it moves to the pages 4 and 5.\<close>

lemma sample_live_palloc: "\<exists>t. guk_palloc grant_all 2 (take_pages False 2 1 sample_balloon) = Inr (16384, t)"
proof -
  define s where "s = take_pages False 2 1 sample_balloon"
  have f: "first_free_page s = 3" "first_bulk_page s = 4" "first_free_bulk_page s = 4" "end_alloc_page s = 10"
    by (simp_all add: s_def next_free.simps)
  have al: "allocated_in_map (alloc_bitmap s) p \<longleftrightarrow> \<not> (3 \<le> p \<and> p < 10)" for p
    by (auto simp: s_def map_alloc_iff)
  have "served_from 2 s = Some (True, 4)"
    by (simp add: served_from_def region_search_def is_bulk_def BULK_ALLOCATION_def find_run.simps run_from.simps f al)
  then show ?thesis
    using served_from_search(3) [of 2 s True 4 0] pfn_to_virt_nonzero [of 4] unat_pfn_to_virt [of 4]
    by (simp add: guk_palloc_def s_def)
qed

theorem xrealloc_correct_witness:
  "guk_xrealloc (guk_palloc grant_all) guk_pfree False (2 * 4096 + sizeof_hdr) 100 (\<lambda>_. 0) sample_live
     = Inr (2 * 4096 + sizeof_hdr, \<lambda>_. 0, sample_live) \<and>
   (\<exists>m' st'. guk_xrealloc (guk_palloc grant_all) guk_pfree False (2 * 4096 + sizeof_hdr) 5000 (\<lambda>a. of_nat a) sample_live
       = Inr (4 * 4096 + sizeof_hdr, m', st') \<and> xheap_inv st' {4 * 4096} \<and>
     (\<forall>i < 4072. m' (4 * 4096 + sizeof_hdr + i) = of_nat (2 * 4096 + sizeof_hdr + i)))"
proof
  have hs: "hsize sample_live (2 * 4096) = 4096" by (simp add: sample_live_def)
  show "guk_xrealloc (guk_palloc grant_all) guk_pfree False (2 * 4096 + sizeof_hdr) 100 (\<lambda>_. 0) sample_live
     = Inr (2 * 4096 + sizeof_hdr, \<lambda>_. 0, sample_live)"
    using xrealloc_correct [OF grant_all_ok sample_live_inv, of "2 * 4096" 4072 100 "\<lambda>_. 0"] hs
    by (simp add: sizeof_hdr_def)
  have "\<exists>st1. guk_xmalloc (guk_palloc grant_all) False 5000 sample_live = Inr (4 * 4096 + sizeof_hdr, st1)"
  proof -
    have "align_up (5000 + of_nat sizeof_hdr) 8 = 5024" "align_up 5024 4096 div 4096 = 2" "int_of_size 2 = 2"
      by (simp_all add: align_up_def sizeof_hdr_def int_of_size_def)
    then show ?thesis
      using sample_live_palloc by (auto simp: guk_xmalloc_def Let_def xmalloc_whole_pages_def sample_live_def)
  qed
  then obtain st1 where x: "guk_xmalloc (guk_palloc grant_all) False 5000 sample_live = Inr (4 * 4096 + sizeof_hdr, st1)"
    by blast
  show "\<exists>m' st'. guk_xrealloc (guk_palloc grant_all) guk_pfree False (2 * 4096 + sizeof_hdr) 5000 (\<lambda>a. of_nat a) sample_live
       = Inr (4 * 4096 + sizeof_hdr, m', st') \<and> xheap_inv st' {4 * 4096} \<and>
     (\<forall>i < 4072. m' (4 * 4096 + sizeof_hdr + i) = of_nat (2 * 4096 + sizeof_hdr + i))"
    using xrealloc_correct [OF grant_all_ok sample_live_inv, of "2 * 4096" 4072 5000 "\<lambda>a. of_nat a"] hs x
    by (auto simp: sizeof_hdr_def insert_Diff_if)
qed

end
