(* ===== verification/Guk_Printf.thy ===== *)
theory Guk_Printf
  imports Guk_Prelude Guk_Strings
begin

text \<open>
  Formatted output and input (\<open>lib/printf.c\<close>) with the character classes of
  \<open>include/ctype.h\<close>. Output goes to a byte memory. A string that is only read (a format, the
  input of a conversion) is the list of its bytes up to the terminator; reading at its end gives
  the terminator. The variable arguments are the list of their 64-bit values; taking one from an
  empty list is undefined in C and has no result. The lemmas show that the digits a number is
  printed with fit the buffer of \<open>number\<close> and read back as the number, and that
  \<open>vsnprintf\<close> stays inside its buffer and terminates the text.
\<close>

section \<open>Character classes\<close>

definition ctype_table :: "nat list" where
  "ctype_table =
     replicate 9 8 @ replicate 5 40 @ replicate 18 8 @ [160] @ replicate 15 16 @ replicate 10 4 @
     replicate 7 16 @ replicate 6 65 @ replicate 20 1 @ replicate 6 16 @ replicate 6 66 @
     replicate 20 2 @ replicate 4 16 @ [8] @ replicate 32 0 @ [160] @ replicate 31 16 @
     replicate 23 1 @ [16] @ replicate 7 1 @ [2] @ replicate 23 2 @ [16] @ replicate 8 2"

definition ismask :: "u8 \<Rightarrow> nat" where
  "ismask c = ctype_table ! unat c"

definition isdigit :: "u8 \<Rightarrow> bool" where "isdigit c \<longleftrightarrow> ismask c AND 4 \<noteq> 0"
definition islower :: "u8 \<Rightarrow> bool" where "islower c \<longleftrightarrow> ismask c AND 2 \<noteq> 0"
definition isspace :: "u8 \<Rightarrow> bool" where "isspace c \<longleftrightarrow> ismask c AND 32 \<noteq> 0"
definition isupper :: "u8 \<Rightarrow> bool" where "isupper c \<longleftrightarrow> ismask c AND 1 \<noteq> 0"
definition isxdigit :: "u8 \<Rightarrow> bool" where "isxdigit c \<longleftrightarrow> ismask c AND 68 \<noteq> 0"

definition isalnum :: "u8 \<Rightarrow> bool" where "isalnum c \<longleftrightarrow> ismask c AND 7 \<noteq> 0"
definition isalpha :: "u8 \<Rightarrow> bool" where "isalpha c \<longleftrightarrow> ismask c AND 3 \<noteq> 0"
definition iscntrl :: "u8 \<Rightarrow> bool" where "iscntrl c \<longleftrightarrow> ismask c AND 8 \<noteq> 0"
definition isgraph :: "u8 \<Rightarrow> bool" where "isgraph c \<longleftrightarrow> ismask c AND 23 \<noteq> 0"
definition isprint :: "u8 \<Rightarrow> bool" where "isprint c \<longleftrightarrow> ismask c AND 151 \<noteq> 0"
definition ispunct :: "u8 \<Rightarrow> bool" where "ispunct c \<longleftrightarrow> ismask c AND 16 \<noteq> 0"
definition isascii :: "u8 \<Rightarrow> bool" where "isascii c \<longleftrightarrow> c \<le> 127"
definition toascii :: "u8 \<Rightarrow> u8" where "toascii c = c AND 127"

definition tolower :: "u8 \<Rightarrow> u8" where
  "tolower c = (if isupper c then c + 32 else c)"

definition toupper :: "u8 \<Rightarrow> u8" where
  "toupper c = (if islower c then c - 32 else c)"

section \<open>Reading numbers\<close>

definition peek :: "u8 list \<Rightarrow> u8" where
  "peek s = (case s of [] \<Rightarrow> 0 | c # _ \<Rightarrow> c)"

text \<open>The base of a number given as 0 follows its prefix.\<close>

definition auto_base :: "u64 \<Rightarrow> u8 list \<Rightarrow> u64 \<times> u8 list" where
  "auto_base base cp =
     (if base = 0 then
        if peek cp = 48 then
          let cp = tl cp
          in if peek cp = 120 \<and> isxdigit (peek (tl cp)) then (16, tl cp) else (8, cp)
        else (10, cp)
      else (base, cp))"

definition digit_value :: "u8 \<Rightarrow> u64" where
  "digit_value c = (if isdigit c then ucast c - 48 else ucast (toupper c) - 65 + 10)"

fun strtoul_loop :: "u64 \<Rightarrow> u64 \<Rightarrow> u8 list \<Rightarrow> u64 \<times> u8 list" where
  "strtoul_loop base result [] = (result, [])"
| "strtoul_loop base result (c # cp) =
     (if isxdigit c \<and> digit_value c < base
      then strtoul_loop base (result * base + digit_value c) cp else (result, c # cp))"

definition simple_strtoul :: "u8 list \<Rightarrow> u64 \<Rightarrow> u64 \<times> u8 list" where
  "simple_strtoul cp base = (case auto_base base cp of (b, cp) \<Rightarrow> strtoul_loop b 0 cp)"

definition simple_strtol :: "u8 list \<Rightarrow> u64 \<Rightarrow> u64 \<times> u8 list" where
  "simple_strtol cp base =
     (if peek cp = 45 then (case simple_strtoul (tl cp) base of (n, r) \<Rightarrow> (- n, r))
      else simple_strtoul cp base)"

definition digit_value_ull :: "u8 \<Rightarrow> u64" where
  "digit_value_ull c =
     (if isdigit c then ucast c - 48 else ucast (if islower c then toupper c else c) - 65 + 10)"

fun strtoull_loop :: "u64 \<Rightarrow> u64 \<Rightarrow> u8 list \<Rightarrow> u64 \<times> u8 list" where
  "strtoull_loop base result [] = (result, [])"
| "strtoull_loop base result (c # cp) =
     (if isxdigit c \<and> digit_value_ull c < base
      then strtoull_loop base (result * base + digit_value_ull c) cp else (result, c # cp))"

definition simple_strtoull :: "u8 list \<Rightarrow> u64 \<Rightarrow> u64 \<times> u8 list" where
  "simple_strtoull cp base = (case auto_base base cp of (b, cp) \<Rightarrow> strtoull_loop b 0 cp)"

definition simple_strtoll :: "u8 list \<Rightarrow> u64 \<Rightarrow> u64 \<times> u8 list" where
  "simple_strtoll cp base =
     (if peek cp = 45 then (case simple_strtoull (tl cp) base of (n, r) \<Rightarrow> (- n, r))
      else simple_strtoull cp base)"

text \<open>A field width or precision beyond the range of \<open>int\<close> is undefined in C; here it is kept.\<close>

fun skip_atoi :: "int \<Rightarrow> u8 list \<Rightarrow> int \<times> u8 list" where
  "skip_atoi i [] = (i, [])"
| "skip_atoi i (c # s) =
     (if isdigit c then skip_atoi (i * 10 + int (unat c) - 48) s else (i, c # s))"

section \<open>Printing numbers\<close>

definition ZEROPAD :: u32 where "ZEROPAD = 1"
definition SIGN :: u32 where "SIGN = 2"
definition PLUS :: u32 where "PLUS = 4"
definition SPACE :: u32 where "SPACE = 8"
definition LEFT :: u32 where "LEFT = 16"
definition SPECIAL :: u32 where "SPECIAL = 32"
definition LARGE :: u32 where "LARGE = 64"

type_synonym sink = "mem \<times> nat"

text \<open>\<open>if (str <= end) *str = c; ++str;\<close>\<close>

definition putc :: "nat \<Rightarrow> u8 \<Rightarrow> sink \<Rightarrow> sink" where
  "putc e c st = (case st of (m, str) \<Rightarrow> (if str \<le> e then m(str := c) else m, Suc str))"

fun put_n :: "nat \<Rightarrow> u8 \<Rightarrow> nat \<Rightarrow> sink \<Rightarrow> sink" where
  "put_n e c 0 st = st"
| "put_n e c (Suc n) st = put_n e c n (putc e c st)"

fun put_list :: "nat \<Rightarrow> u8 list \<Rightarrow> sink \<Rightarrow> sink" where
  "put_list e [] st = st"
| "put_list e (c # cs) st = put_list e cs (putc e c st)"

text \<open>\<open>while (size-- > 0)\<close> with the value \<open>size\<close> has afterwards.\<close>

definition pad :: "nat \<Rightarrow> u8 \<Rightarrow> int \<Rightarrow> sink \<Rightarrow> int \<times> sink" where
  "pad e c sz st = (if 0 < sz then - 1 else sz - 1, put_n e c (nat sz) st)"

definition digit_char :: "u32 \<Rightarrow> nat \<Rightarrow> u8" where
  "digit_char type d =
     (if d < 10 then of_nat (48 + d)
      else if type AND LARGE \<noteq> 0 then of_nat (65 + (d - 10)) else of_nat (97 + (d - 10)))"

fun num_digits :: "nat \<Rightarrow> nat \<Rightarrow> nat list" where
  "num_digits base n = (if n = 0 \<or> base < 2 then [] else n mod base # num_digits base (n div base))"

declare num_digits.simps [simp del]

definition number :: "nat \<Rightarrow> u64 \<Rightarrow> nat \<Rightarrow> int \<Rightarrow> int \<Rightarrow> u32 \<Rightarrow> sink \<Rightarrow> sink" where
  "number e num base sz precision type st =
     (let type = (if type AND LEFT \<noteq> 0 then type AND NOT ZEROPAD else type)
      in if base < 2 \<or> base > 36 then st else
      let c = (if type AND ZEROPAD \<noteq> 0 then 48 else 32);
          (sign, num, sz) =
            (if type AND SIGN \<noteq> 0 then
               if sint num < 0 then (45, - num, sz - 1)
               else if type AND PLUS \<noteq> 0 then (43, num, sz - 1)
               else if type AND SPACE \<noteq> 0 then (32, num, sz - 1) else (0, num, sz)
             else (0 :: u8, num, sz));
          sz = (if type AND SPECIAL \<noteq> 0 then
                  if base = 16 then sz - 2 else if base = 8 then sz - 1 else sz else sz);
          tmp = (if num = 0 then [48] else map (digit_char type) (num_digits base (unat num)));
          i = int (length tmp);
          precision = (if i > precision then i else precision);
          sz = sz - precision;
          (sz, st) = (if type AND (ZEROPAD + LEFT) = 0 then pad e 32 sz st else (sz, st));
          st = (if sign \<noteq> 0 then putc e sign st else st);
          st = (if type AND SPECIAL \<noteq> 0 then
                  if base = 8 then putc e 48 st
                  else if base = 16 then putc e (digit_char type 33) (putc e 48 st) else st
                else st);
          (sz, st) = (if type AND LEFT = 0 then pad e c sz st else (sz, st));
          st = put_n e 48 (nat (precision - i)) st;
          st = put_list e (rev tmp) st
      in snd (pad e 32 sz st))"

section \<open>Formatting\<close>

definition va_arg :: "u64 list \<Rightarrow> (u64 \<times> u64 list) option" where
  "va_arg args = (case args of [] \<Rightarrow> None | a # as \<Rightarrow> Some (a, as))"

definition as_int :: "u64 \<Rightarrow> int" where
  "as_int a = sint (ucast a :: u32)"

fun parse_flags :: "u32 \<Rightarrow> u8 list \<Rightarrow> u32 \<times> u8 list" where
  "parse_flags fl [] = (fl, [])"
| "parse_flags fl (c # f) =
     (if c = 45 then parse_flags (fl OR LEFT) f
      else if c = 43 then parse_flags (fl OR PLUS) f
      else if c = 32 then parse_flags (fl OR SPACE) f
      else if c = 35 then parse_flags (fl OR SPECIAL) f
      else if c = 48 then parse_flags (fl OR ZEROPAD) f
      else (fl, c # f))"

definition parse_width :: "u32 \<Rightarrow> u8 list \<Rightarrow> u64 list \<Rightarrow> (u32 \<times> int \<times> u8 list \<times> u64 list) option" where
  "parse_width fl f args =
     (if isdigit (peek f) then (case skip_atoi 0 f of (w, f) \<Rightarrow> Some (fl, w, f, args))
      else if peek f = 42 then
        Option.bind (va_arg args) (\<lambda>(a, args).
          if as_int a < 0 then Some (fl OR LEFT, - as_int a, tl f, args)
          else Some (fl, as_int a, tl f, args))
      else Some (fl, - 1, f, args))"

definition parse_precision :: "u8 list \<Rightarrow> u64 list \<Rightarrow> (int \<times> u8 list \<times> u64 list) option" where
  "parse_precision f args =
     (if peek f = 46 then
        let f = tl f
        in if isdigit (peek f) then (case skip_atoi 0 f of (p, f) \<Rightarrow> Some (max p 0, f, args))
           else if peek f = 42 then
             Option.bind (va_arg args) (\<lambda>(a, args). Some (max (as_int a) 0, tl f, args))
           else Some (0, f, args)
      else Some (- 1, f, args))"

definition parse_qualifier :: "u8 list \<Rightarrow> u8 \<times> u8 list" where
  "parse_qualifier f =
     (let c = peek f;
          (q, f) = (if c = 104 \<or> c = 108 \<or> c = 76 \<or> c = 90 then
                      if c = 108 \<and> peek (tl f) = 108 then (76, tl (tl f)) else (c, tl f)
                    else (0, f))
      in if peek f = 113 then (76, tl f) else (q, f))"

record spec =
  sp_flags :: u32
  sp_width :: int
  sp_precision :: int
  sp_qualifier :: u8

definition parse_spec :: "u8 list \<Rightarrow> u64 list \<Rightarrow> (spec \<times> u8 list \<times> u64 list) option" where
  "parse_spec f args =
     (case parse_flags 0 f of (fl, f) \<Rightarrow>
      Option.bind (parse_width fl f args) (\<lambda>(fl, w, f, args).
      Option.bind (parse_precision f args) (\<lambda>(p, f, args).
      case parse_qualifier f of (q, f) \<Rightarrow>
        Some (\<lparr>sp_flags = fl, sp_width = w, sp_precision = p, sp_qualifier = q\<rparr>, f, args))))"

text \<open>Storing a value of \<open>n\<close> bytes, least significant byte first.\<close>

fun store_le :: "nat \<Rightarrow> nat \<Rightarrow> u64 \<Rightarrow> mem \<Rightarrow> mem" where
  "store_le p 0 w m = m"
| "store_le p (Suc n) w m = store_le (Suc p) n (drop_bit 8 w) (m(p := ucast w))"

definition conv_char :: "nat \<Rightarrow> spec \<Rightarrow> u64 \<Rightarrow> sink \<Rightarrow> sink" where
  "conv_char e sp a st =
     (let w = sp_width sp;
          (w, st) = (if sp_flags sp AND LEFT = 0
                     then (if 1 < w then 0 else w - 1, put_n e 32 (nat (w - 1)) st) else (w, st));
          st = putc e (ucast a) st
      in put_n e 32 (nat (w - 1)) st)"

definition null_text :: "u8 list" where "null_text = [60, 78, 85, 76, 76, 62]"

text \<open>The text of a string argument: at most \<open>precision\<close> bytes, \<open>-1\<close> being read as the largest
  unsigned number. A string of \<open>2\<^sup>3\<^sup>1\<close> bytes or more is out of the model.\<close>

definition string_arg :: "mem \<Rightarrow> u64 \<Rightarrow> int \<Rightarrow> u8 list option" where
  "string_arg m a precision =
     (if a = 0 then Some (if precision < 0 then null_text else take (nat precision) null_text)
      else Option.bind (if precision < 0 then strlen m (unat a)
                        else Some (strnlen m (unat a) (nat precision)))
             (\<lambda>len. Some (map (\<lambda>i. m (unat a + i)) [0..<len])))"

definition conv_string :: "nat \<Rightarrow> spec \<Rightarrow> u8 list \<Rightarrow> sink \<Rightarrow> sink" where
  "conv_string e sp s st =
     (let len = int (length s); w = sp_width sp;
          (w, st) = (if sp_flags sp AND LEFT = 0
                     then (if len < w then len - 1 else w - 1, put_n e 32 (nat (w - len)) st)
                     else (w, st));
          st = put_list e s st
      in put_n e 32 (nat (w - len)) st)"

definition int_arg :: "u8 \<Rightarrow> u32 \<Rightarrow> u64 \<Rightarrow> u64" where
  "int_arg q fl a =
     (if q = 76 \<or> q = 108 \<or> q = 90 then a
      else if q = 104 then
        if fl AND SIGN \<noteq> 0 then scast (ucast a :: u16) else ucast (ucast a :: u16)
      else if fl AND SIGN \<noteq> 0 then scast (ucast a :: u32) else ucast (ucast a :: u32))"

definition convert ::
  "nat \<Rightarrow> nat \<Rightarrow> spec \<Rightarrow> u8 \<Rightarrow> u64 list \<Rightarrow> sink \<Rightarrow> (sink \<times> u64 list) option" where
  "convert e buf sp c args st =
     (let fl = sp_flags sp; w = sp_width sp; p = sp_precision sp
      in if c = 99 then Option.bind (va_arg args) (\<lambda>(a, args). Some (conv_char e sp a st, args))
      else if c = 115 then
        Option.bind (va_arg args) (\<lambda>(a, args).
        Option.bind (string_arg (fst st) a p) (\<lambda>s. Some (conv_string e sp s st, args)))
      else if c = 112 then
        Option.bind (va_arg args) (\<lambda>(a, args).
          if w = - 1 then Some (number e a 16 16 p (fl OR ZEROPAD) st, args)
          else Some (number e a 16 w p fl st, args))
      else if c = 110 then
        Option.bind (va_arg args) (\<lambda>(a, args).
          Some ((store_le (unat a) (if sp_qualifier sp = 108 \<or> sp_qualifier sp = 90 then 8 else 4)
                   (of_nat (snd st - buf)) (fst st), snd st), args))
      else if c = 37 then Some (putc e 37 st, args)
      else if c = 111 \<or> c = 88 \<or> c = 120 \<or> c = 100 \<or> c = 105 \<or> c = 117 then
        let base = (if c = 111 then 8 else if c = 88 \<or> c = 120 then 16 else 10);
            fl = (if c = 88 then fl OR LARGE else if c = 100 \<or> c = 105 then fl OR SIGN else fl)
        in Option.bind (va_arg args) (\<lambda>(a, args).
             Some (number e (int_arg (sp_qualifier sp) fl a) base w p fl st, args))
      else if c \<noteq> 0 then Some (putc e c (putc e 37 st), args)
      else Some (putc e 37 st, args))"

lemma skip_atoi_length: "length (snd (skip_atoi i f)) \<le> length f"
  by (induction i f rule: skip_atoi.induct) auto

lemma parse_flags_length: "length (snd (parse_flags fl f)) \<le> length f"
  by (induction fl f rule: parse_flags.induct) auto

lemma parse_width_length:
  "parse_width fl f args = Some (fl', w, f', args') \<Longrightarrow> length f' \<le> length f"
  using skip_atoi_length[of 0 f]
  by (auto simp: parse_width_def va_arg_def split: if_splits list.splits prod.splits)

lemma parse_precision_length:
  "parse_precision f args = Some (p, f', args') \<Longrightarrow> length f' \<le> length f"
  using skip_atoi_length[of 0 "tl f"]
  by (auto simp: parse_precision_def va_arg_def Let_def split: if_splits list.splits prod.splits)

lemma parse_qualifier_length: "length (snd (parse_qualifier f)) \<le> length f"
  by (auto simp: parse_qualifier_def Let_def)

lemma parse_spec_length:
  "parse_spec f args = Some (sp, f', args') \<Longrightarrow> length f' \<le> length f"
proof -
  obtain fl f1 where 1: "parse_flags 0 f = (fl, f1)" by force
  assume "parse_spec f args = Some (sp, f', args')"
  with 1 obtain fl' w f2 args2 p f3 args3 where
    2: "parse_width fl f1 args = Some (fl', w, f2, args2)"
    and 3: "parse_precision f2 args2 = Some (p, f3, args3)" and 4: "f' = snd (parse_qualifier f3)"
    unfolding parse_spec_def by (auto simp: bind_eq_Some_conv case_prod_beta)
  show ?thesis
    using parse_flags_length[of 0 f] parse_width_length[OF 2] parse_precision_length[OF 3]
      parse_qualifier_length[of f3] 1 4 by simp
qed

function vsn_loop :: "nat \<Rightarrow> nat \<Rightarrow> u8 list \<Rightarrow> u64 list \<Rightarrow> sink \<Rightarrow> sink option" where
  "vsn_loop e buf [] args st = Some st"
| "vsn_loop e buf (c # fmt) args st =
     (if c \<noteq> 37 then vsn_loop e buf fmt args (putc e c st)
      else case parse_spec fmt args of
        None \<Rightarrow> None
      | Some (sp, f, args) \<Rightarrow>
          (case convert e buf sp (peek f) args st of
             None \<Rightarrow> None
           | Some (st, args) \<Rightarrow> vsn_loop e buf (tl f) args st))"
  by pat_completeness auto
termination
  by (relation "measure (\<lambda>(e, buf, fmt, args, st). length fmt)")
    (auto dest!: parse_spec_length)

definition vsn_end :: "nat \<Rightarrow> nat \<Rightarrow> nat \<times> nat" where
  "vsn_end buf sz =
     (let e = of_nat buf + of_nat sz - 1 :: u64
      in if e < of_nat buf - 1 then (2 ^ 64 - 1, 2 ^ 64 - buf) else (unat e, sz))"

definition vsnprintf :: "mem \<Rightarrow> nat \<Rightarrow> nat \<Rightarrow> u8 list \<Rightarrow> u64 list \<Rightarrow> (mem \<times> u32) option" where
  "vsnprintf m buf sz fmt args =
     (case vsn_end buf sz of (e, sz) \<Rightarrow>
        (case vsn_loop e buf fmt args (m, buf) of
           None \<Rightarrow> None
         | Some (m, str) \<Rightarrow>
             Some (if str \<le> e then m(str := 0) else if 0 < sz then m(e := 0) else m,
                   of_nat (str - buf))))"

definition snprintf :: "mem \<Rightarrow> nat \<Rightarrow> nat \<Rightarrow> u8 list \<Rightarrow> u64 list \<Rightarrow> (mem \<times> u32) option" where
  "snprintf m buf sz fmt args = vsnprintf m buf sz fmt args"

definition vsprintf :: "mem \<Rightarrow> nat \<Rightarrow> u8 list \<Rightarrow> u64 list \<Rightarrow> (mem \<times> u32) option" where
  "vsprintf m buf fmt args = vsnprintf m buf 0xFFFFFFFF fmt args"

definition sprintf :: "mem \<Rightarrow> nat \<Rightarrow> u8 list \<Rightarrow> u64 list \<Rightarrow> (mem \<times> u32) option" where
  "sprintf m buf fmt args = vsprintf m buf fmt args"

section \<open>Scanning\<close>

record scan =
  sc_num :: nat
  sc_mem :: mem
  sc_str :: "u8 list"
  sc_fmt :: "u8 list"
  sc_args :: "u64 list"

definition scan_qualifier :: "u8 list \<Rightarrow> u8 \<times> u8 list" where
  "scan_qualifier f =
     (let c = peek f
      in if c = 104 \<or> c = 108 \<or> c = 76 \<or> c = 90 \<or> c = 122 then
           if peek (tl f) = c \<and> c = 104 then (72, tl (tl f))
           else if peek (tl f) = c \<and> c = 108 then (76, tl (tl f)) else (c, tl f)
         else (0, f))"

definition bad_digit :: "u64 \<Rightarrow> u8 \<Rightarrow> bool" where
  "bad_digit base digit \<longleftrightarrow>
     digit = 0 \<or> base = 16 \<and> \<not> isxdigit digit \<or> base = 10 \<and> \<not> isdigit digit \<or>
     base = 8 \<and> (\<not> isdigit digit \<or> digit > 55) \<or> base = 0 \<and> \<not> isdigit digit"

definition scan_size :: "u8 \<Rightarrow> nat" where
  "scan_size q =
     (if q = 72 then 1 else if q = 104 then 2
      else if q = 108 \<or> q = 76 \<or> q = 90 \<or> q = 122 then 8 else 4)"

definition scan_value :: "u8 \<Rightarrow> bool \<Rightarrow> u8 list \<Rightarrow> u64 \<Rightarrow> u64 \<times> u8 list" where
  "scan_value q is_sign str base =
     (if q = 76 then if is_sign then simple_strtoll str base else simple_strtoull str base
      else if q = 90 \<or> q = 122 then simple_strtoul str base
      else if is_sign then simple_strtol str base else simple_strtoul str base)"

definition scan_int :: "u8 \<Rightarrow> u64 \<Rightarrow> bool \<Rightarrow> scan \<Rightarrow> (bool \<times> scan) option" where
  "scan_int q base is_sign s =
     (let str = dropWhile isspace (sc_str s);
          digit = (if is_sign \<and> peek str = 45 then peek (tl str) else peek str)
      in if bad_digit base digit then Some (False, s)
         else Option.bind (va_arg (sc_args s)) (\<lambda>(a, args).
           case scan_value q is_sign str base of (v, next) \<Rightarrow>
             Some (True, s\<lparr>sc_num := Suc (sc_num s), sc_mem := store_le (unat a) (scan_size q) v (sc_mem s),
                           sc_str := next, sc_args := args\<rparr>)))"

definition store_list :: "nat \<Rightarrow> u8 list \<Rightarrow> mem \<Rightarrow> mem" where
  "store_list p xs m = (\<lambda>q. if p \<le> q \<and> q < p + length xs then xs ! (q - p) else m q)"

definition scan_char :: "int \<Rightarrow> scan \<Rightarrow> (bool \<times> scan) option" where
  "scan_char w s =
     Option.bind (va_arg (sc_args s)) (\<lambda>(a, args).
       let n = (if w = - 1 then 1 else nat (max 1 w))
       in Some (True, s\<lparr>sc_num := Suc (sc_num s),
                        sc_mem := store_list (unat a) (take n (sc_str s)) (sc_mem s),
                        sc_str := drop n (sc_str s), sc_args := args\<rparr>))"

definition scan_string :: "int \<Rightarrow> scan \<Rightarrow> (bool \<times> scan) option" where
  "scan_string w s =
     Option.bind (va_arg (sc_args s)) (\<lambda>(a, args).
       let n = (if w = - 1 then 2 ^ 31 - 1 else nat w); str = dropWhile isspace (sc_str s);
           t = take n (takeWhile (\<lambda>c. \<not> isspace c) str)
       in Some (True, s\<lparr>sc_num := Suc (sc_num s),
                        sc_mem := store_list (unat a) (t @ [0]) (sc_mem s),
                        sc_str := drop (length t) str, sc_args := args\<rparr>))"

text \<open>One conversion, \<open>fmt\<close> pointing behind its \<open>%\<close>. The flag is \<open>False\<close> where the scan ends.\<close>

definition scan_conv :: "nat \<Rightarrow> scan \<Rightarrow> (bool \<times> scan) option" where
  "scan_conv buflen s =
     (if peek (sc_fmt s) = 42 then
        Some (True, s\<lparr>sc_fmt := dropWhile (\<lambda>c. \<not> isspace c) (sc_fmt s),
                      sc_str := dropWhile (\<lambda>c. \<not> isspace c) (sc_str s)\<rparr>)
      else
      let (w, f) = (if isdigit (peek (sc_fmt s)) then skip_atoi 0 (sc_fmt s) else (- 1, sc_fmt s));
          (q, f) = scan_qualifier f
      in if f = [] \<or> sc_str s = [] then Some (False, s)
      else let c = hd f; s = s\<lparr>sc_fmt := tl f\<rparr>
      in if c = 99 then scan_char w s
      else if c = 115 then scan_string w s
      else if c = 110 then
        Option.bind (va_arg (sc_args s)) (\<lambda>(a, args).
          Some (True, s\<lparr>sc_mem := store_le (unat a) 4 (of_nat (buflen - length (sc_str s))) (sc_mem s),
                        sc_args := args\<rparr>))
      else if c = 111 then scan_int q 8 False s
      else if c = 120 \<or> c = 88 then scan_int q 16 False s
      else if c = 105 then scan_int q 0 True s
      else if c = 100 then scan_int q 10 True s
      else if c = 117 then scan_int q 10 False s
      else if c = 37 then
        Some (peek (sc_str s) = 37, s\<lparr>sc_str := tl (sc_str s)\<rparr>)
      else Some (False, s))"

lemma scan_qualifier_length: "length (snd (scan_qualifier f)) \<le> length f"
  by (auto simp: scan_qualifier_def Let_def)

lemma scan_int_fmt: "scan_int q base is_sign s = Some (go, s') \<Longrightarrow> sc_fmt s' = sc_fmt s"
  by (auto simp: scan_int_def Let_def bind_eq_Some_conv split: if_splits prod.splits)

lemma scan_text_fmt:
  "scan_char w s = Some (go, s') \<Longrightarrow> sc_fmt s' = sc_fmt s"
  "scan_string w s = Some (go, s') \<Longrightarrow> sc_fmt s' = sc_fmt s"
  by (auto simp: scan_char_def scan_string_def Let_def bind_eq_Some_conv)

lemma scan_conv_length:
  assumes "scan_conv n s = Some (go, s')" shows "length (sc_fmt s') \<le> length (sc_fmt s)"
proof -
  obtain w f1 where 1: "(if isdigit (peek (sc_fmt s)) then skip_atoi 0 (sc_fmt s)
    else (- 1, sc_fmt s)) = (w, f1)" by force
  obtain q f2 where 2: "scan_qualifier f1 = (q, f2)" by force
  have 3: "length f1 \<le> length (sc_fmt s)"
    using 1 skip_atoi_length[of 0 "sc_fmt s"] by (auto split: if_splits)
  have 4: "length (tl f2) \<le> length (sc_fmt s)" using scan_qualifier_length[of f1] 2 3 by simp
  show ?thesis
    using assms 4 length_dropWhile_le[of "\<lambda>c. \<not> isspace c" "sc_fmt s"]
    unfolding scan_conv_def 1 Let_def prod.case 2
    by (auto simp: bind_eq_Some_conv split: if_split_asm dest!: scan_int_fmt scan_text_fmt)
qed

function scan_loop :: "nat \<Rightarrow> scan \<Rightarrow> scan option" where
  "scan_loop buflen s =
     (if sc_fmt s = [] \<or> sc_str s = [] then Some s
      else let (fmt, str) = (if isspace (peek (sc_fmt s))
                             then (dropWhile isspace (sc_fmt s), dropWhile isspace (sc_str s))
                             else (sc_fmt s, sc_str s))
      in case fmt of
           [] \<Rightarrow> Some s
         | c # f \<Rightarrow>
             if c \<noteq> 37 then
               if c \<noteq> peek str then Some s
               else scan_loop buflen (s\<lparr>sc_fmt := f, sc_str := tl str\<rparr>)
             else (case scan_conv buflen (s\<lparr>sc_fmt := f, sc_str := str\<rparr>) of
                     None \<Rightarrow> None
                   | Some (go, s') \<Rightarrow> if go then scan_loop buflen s' else Some s'))"
  by pat_completeness auto
termination
proof (relation "measure (\<lambda>(n, s). length (sc_fmt s))", goal_cases)
  case 1
  show ?case by simp
next
  case (2 n s x fmt str c f)
  then show ?case
    using length_dropWhile_le[of isspace "sc_fmt s"]
    by (auto split: if_splits dest!: arg_cong[where f = length])
next
  case (3 n s x fmt str c f y go s')
  then show ?case
    using length_dropWhile_le[of isspace "sc_fmt s"]
    by (auto split: if_splits dest!: scan_conv_length arg_cong[where f = length and x = "_ # _"])
qed

declare scan_loop.simps [simp del]

definition vsscanf :: "mem \<Rightarrow> u8 list \<Rightarrow> u8 list \<Rightarrow> u64 list \<Rightarrow> (mem \<times> nat) option" where
  "vsscanf m buf fmt args =
     map_option (\<lambda>s. (sc_mem s, sc_num s))
       (scan_loop (length buf)
          \<lparr>sc_num = 0, sc_mem = m, sc_str = buf, sc_fmt = fmt, sc_args = args\<rparr>)"

definition sscanf :: "mem \<Rightarrow> u8 list \<Rightarrow> u8 list \<Rightarrow> u64 list \<Rightarrow> (mem \<times> nat) option" where
  "sscanf m buf fmt args = vsscanf m buf fmt args"

section \<open>The buffer is respected\<close>

text \<open>\<open>advances A e st st'\<close>: from \<open>st\<close> to \<open>st'\<close> the output only advances, and outside \<open>A\<close> only bytes
  between the old position and \<open>e\<close> change.\<close>

definition advances :: "nat set \<Rightarrow> nat \<Rightarrow> sink \<Rightarrow> sink \<Rightarrow> bool" where
  "advances A e st st' \<longleftrightarrow>
     snd st \<le> snd st' \<and> (\<forall>p. p \<notin> A \<longrightarrow> p < snd st \<or> e < p \<longrightarrow> fst st' p = fst st p)"

named_theorems advancing

lemma advances_refl [advancing]: "advances A e st st"
  by (simp add: advances_def)

lemma advances_trans: "advances A e st st' \<Longrightarrow> advances A e st' st'' \<Longrightarrow> advances A e st st''"
  unfolding advances_def by (metis order.trans order.strict_trans2)

lemma advances_putc [advancing]: "advances A e st (putc e c st)"
  by (cases st) (auto simp: advances_def putc_def)

lemma advances_put_n [advancing]: "advances A e st (put_n e c n st)"
  by (induction e c n st rule: put_n.induct) (auto intro: advances_trans advancing)

lemma advances_put_list [advancing]: "advances A e st (put_list e cs st)"
  by (induction e cs st rule: put_list.induct) (auto intro: advances_trans advancing)

lemma advances_pad [advancing]: "advances A e st (snd (pad e c sz st))"
  by (simp add: pad_def advancing)

lemma advances_then_put:
  "advances A e st st' \<Longrightarrow> advances A e st (putc e c st')"
  "advances A e st st' \<Longrightarrow> advances A e st (put_n e c n st')"
  "advances A e st st' \<Longrightarrow> advances A e st (put_list e cs st')"
  "advances A e st st' \<Longrightarrow> advances A e st (snd (pad e c sz st'))"
  by (auto intro: advances_trans advancing)

lemma advances_if:
  "advances A e st x \<Longrightarrow> advances A e st y \<Longrightarrow> advances A e st (if b then x else y)"
  "advances A e st (snd u) \<Longrightarrow> advances A e st (snd v) \<Longrightarrow> advances A e st (snd (if b then u else v))"
  "advances A e st x \<Longrightarrow> advances A e st (snd (i, x))"
  by simp_all

lemma advances_number [advancing]: "advances A e st (number e num base sz precision type st)"
  unfolding number_def Let_def case_prod_beta
  by (intro advances_if advances_then_put advances_refl)

lemma advances_conv_char [advancing]: "advances A e st (conv_char e sp a st)"
  unfolding conv_char_def Let_def case_prod_beta by (intro advances_if advances_then_put advances_refl)

lemma advances_conv_string [advancing]: "advances A e st (conv_string e sp s st)"
  unfolding conv_string_def Let_def case_prod_beta by (intro advances_if advances_then_put advances_refl)

lemma store_le_frame: "p < a \<or> a + n \<le> p \<Longrightarrow> store_le a n w m p = m p"
  by (induction a n w m rule: store_le.induct) auto

text \<open>The bytes a \<open>%n\<close> may write, the arguments a format may take, and the strings they may be.\<close>

definition arg_mem :: "u64 list \<Rightarrow> nat set" where
  "arg_mem args = (\<Union>a\<in>set args. {unat a..<unat a + 8})"

definition nargs :: "u8 list \<Rightarrow> nat" where
  "nargs f = length (filter (\<lambda>c. c = 37 \<or> c = 42) f)"

definition strings_ok :: "nat set \<Rightarrow> nat \<Rightarrow> nat \<Rightarrow> mem \<Rightarrow> u64 list \<Rightarrow> bool" where
  "strings_ok A buf e m args \<longleftrightarrow>
     (\<forall>a\<in>set args. \<exists>p\<ge>unat a. m p = 0 \<and> p \<notin> A \<and> (p < buf \<or> e < p))"

lemma nargs_simps [simp]:
  "nargs [] = 0" "nargs (c # f) = (if c = 37 \<or> c = 42 then Suc (nargs f) else nargs f)"
  by (simp_all add: nargs_def)

lemma nargs_tl: "nargs (tl f) \<le> nargs f"
  by (cases f) auto

lemma peek_star: "peek f = 42 \<Longrightarrow> nargs f = Suc (nargs (tl f))"
  by (cases f) (auto simp: peek_def)

lemma nargs_skip_atoi: "nargs (snd (skip_atoi i f)) \<le> nargs f"
  by (induction i f rule: skip_atoi.induct) auto

lemma nargs_parse_flags: "nargs (snd (parse_flags fl f)) \<le> nargs f"
  by (induction fl f rule: parse_flags.induct) auto

lemma nargs_parse_qualifier: "nargs (snd (parse_qualifier f)) \<le> nargs f"
  using nargs_tl[of f] nargs_tl[of "tl f"] nargs_tl[of "tl (tl f)"]
  by (auto simp: parse_qualifier_def Let_def)

lemma va_arg_some:
  assumes "n < length args"
  obtains a args' where "va_arg args = Some (a, args')" "a \<in> set args" "set args' \<subseteq> set args"
    "length args = Suc (length args')"
  using assms by (cases args) (auto simp: va_arg_def)

lemma parse_width_some:
  assumes "nargs f < length args"
  shows "\<exists>fl' w f' args'. parse_width fl f args = Some (fl', w, f', args') \<and>
    nargs f' < length args' \<and> set args' \<subseteq> set args"
proof -
  obtain w f1 where 1: "skip_atoi 0 f = (w, f1)" by force
  obtain a as where 2: "va_arg args = Some (a, as)" "set as \<subseteq> set args" "length args = Suc (length as)"
    using va_arg_some[OF assms] by blast
  show ?thesis
    using assms nargs_skip_atoi[of 0 f] peek_star[of f] 1 2 by (auto simp: parse_width_def)
qed

lemma parse_precision_some:
  assumes "nargs f < length args"
  shows "\<exists>p f' args'. parse_precision f args = Some (p, f', args') \<and>
    nargs f' < length args' \<and> set args' \<subseteq> set args"
proof -
  obtain w f1 where 1: "skip_atoi 0 (tl f) = (w, f1)" by force
  obtain a as where 2: "va_arg args = Some (a, as)" "set as \<subseteq> set args" "length args = Suc (length as)"
    using va_arg_some[OF assms] by blast
  show ?thesis
    using assms nargs_tl[of f] nargs_skip_atoi[of 0 "tl f"] peek_star[of "tl f"] 1 2
    by (auto simp: parse_precision_def Let_def)
qed

lemma parse_spec_some:
  assumes "nargs f < length args"
  shows "\<exists>sp f' args'. parse_spec f args = Some (sp, f', args') \<and>
    nargs f' < length args' \<and> set args' \<subseteq> set args"
proof -
  obtain fl f1 where 1: "parse_flags 0 f = (fl, f1)" by force
  then have "nargs f1 < length args" using nargs_parse_flags[of 0 f] assms by simp
  then obtain fl' w f2 args2 where 2: "parse_width fl f1 args = Some (fl', w, f2, args2)"
    "nargs f2 < length args2" "set args2 \<subseteq> set args" using parse_width_some by blast
  then obtain p f3 args3 where 3: "parse_precision f2 args2 = Some (p, f3, args3)"
    "nargs f3 < length args3" "set args3 \<subseteq> set args2" using parse_precision_some by blast
  obtain q f4 where 4: "parse_qualifier f3 = (q, f4)" by force
  show ?thesis
    using 1 2 3 4 nargs_parse_qualifier[of f3] by (auto simp: parse_spec_def)
qed

lemma strlen_from_some: "m (p + n) = 0 \<Longrightarrow> \<exists>k. strlen_from m p = Some k"
proof (induction n arbitrary: p)
  case 0
  then show ?case by (subst strlen_from.simps) simp
next
  case (Suc n)
  then show ?case using Suc.IH[of "Suc p"] by (subst strlen_from.simps) simp
qed

lemma string_arg_some:
  assumes "strings_ok A buf e m args" "a \<in> set args"
  shows "\<exists>s. string_arg m a precision = Some s"
proof -
  obtain p where "unat a \<le> p" "m p = 0" using assms by (auto simp: strings_ok_def)
  then obtain k where "strlen_from m (unat a) = Some k"
    using strlen_from_some[of m "unat a" "p - unat a"] by auto
  then show ?thesis by (auto simp: string_arg_def strlen_def)
qed

lemma strings_ok_mono:
  "strings_ok A buf e m args \<Longrightarrow> set args' \<subseteq> set args \<Longrightarrow> strings_ok A buf e m args'"
  by (auto simp: strings_ok_def)

lemma strings_ok_advances:
  assumes "strings_ok A buf e (fst st) args" "advances A e st st'" "buf \<le> snd st"
  shows "strings_ok A buf e (fst st') args"
  unfolding strings_ok_def
proof
  fix a assume "a \<in> set args"
  then obtain p where p: "unat a \<le> p" "fst st p = 0" "p \<notin> A" "p < buf \<or> e < p"
    using assms(1) by (auto simp: strings_ok_def)
  then have "fst st' p = 0" using assms(2,3) by (auto simp: advances_def)
  with p show "\<exists>p\<ge>unat a. fst st' p = 0 \<and> p \<notin> A \<and> (p < buf \<or> e < p)" by blast
qed

lemma arg_mem_mono: "set as \<subseteq> set args \<Longrightarrow> arg_mem as \<subseteq> arg_mem args"
  unfolding arg_mem_def by (rule UN_mono) auto

lemma advances_store_arg:
  assumes "a \<in> set args" "n \<le> 8" "arg_mem args \<subseteq> A"
  shows "advances A e st (store_le (unat a) n w (fst st), snd st)"
proof -
  have "store_le (unat a) n w (fst st) p = fst st p" if "p \<notin> A" for p
  proof (rule store_le_frame)
    have "p \<notin> {unat a..<unat a + 8}" using assms(1,3) that unfolding arg_mem_def by blast
    then show "p < unat a \<or> unat a + n \<le> p" using assms(2) by auto
  qed
  then show ?thesis by (simp add: advances_def)
qed

lemma convert_some:
  assumes "strings_ok A buf e (fst st) args" "arg_mem args \<subseteq> A" "n < length args"
  shows "\<exists>r. convert e buf sp c args st = Some r \<and> advances A e st (fst r) \<and>
    set (snd r) \<subseteq> set args \<and> n \<le> length (snd r)"
proof -
  obtain a as where 1: "va_arg args = Some (a, as)" "a \<in> set args" "set as \<subseteq> set args"
    "length args = Suc (length as)" by (rule va_arg_some[OF assms(3)])
  obtain s where 2: "string_arg (fst st) a (sp_precision sp) = Some s"
    using string_arg_some[OF assms(1) 1(2)] by blast
  have 3: "advances A e st (store_le (unat a) k w (fst st), snd st)" if "k \<le> 8" for k w
    using advances_store_arg[OF 1(2) that assms(2)] .
  show ?thesis
    unfolding convert_def Let_def
    using 1 2 assms(3) by (simp add: advancing 3 advances_then_put del: split_paired_Ex)
qed

lemma vsn_loop_some:
  assumes "strings_ok A buf e (fst st) args" "arg_mem args \<subseteq> A" "nargs fmt \<le> length args"
    "buf \<le> snd st"
  shows "\<exists>st'. vsn_loop e buf fmt args st = Some st' \<and> advances A e st st'"
  using assms
proof (induction e buf fmt args st rule: vsn_loop.induct)
  case (1 e buf args st)
  then show ?case by (simp add: advancing)
next
  case (2 e buf c fmt args st)
  show ?case
  proof (cases "c = 37")
    case False
    let ?st = "putc e c st"
    have e: "advances A e st ?st" by (simp add: advancing)
    then have "strings_ok A buf e (fst ?st) args" "buf \<le> snd ?st"
      using strings_ok_advances 2 by (auto simp: advances_def)
    then show ?thesis
      using "2.IH"(1)[OF False] 2(4,5) e False by (auto intro: advances_trans split: if_splits)
  next
    case True
    then have "nargs fmt < length args" using 2(5) by simp
    then obtain sp f as where 3: "parse_spec fmt args = Some (sp, f, as)" "nargs f < length as"
      "set as \<subseteq> set args" using parse_spec_some by blast
    then have as: "strings_ok A buf e (fst st) as" "arg_mem as \<subseteq> A"
      using strings_ok_mono[OF 2(3)] arg_mem_mono[OF 3(3)] 2(4) by auto
    then obtain st' as' where 4: "convert e buf sp (peek f) as st = Some (st', as')" "advances A e st st'"
      "set as' \<subseteq> set as" "nargs f \<le> length as'"
      using convert_some[OF as 3(2)] by (metis prod.collapse)
    then have "strings_ok A buf e (fst st') as'" "arg_mem as' \<subseteq> A" "buf \<le> snd st'"
      "nargs (tl f) \<le> length as'"
      using strings_ok_advances[OF as(1) 4(2)] strings_ok_mono[OF _ 4(3)] as(2) 2(6) nargs_tl[of f]
        arg_mem_mono[OF 4(3)] by (auto simp: advances_def)
    then show ?thesis
      using "2.IH"(2)[OF _ 3(1) refl refl 4(1) refl] True 3(1) 4(1) 4(2)
      by (auto intro: advances_trans)
  qed
qed

lemma vsn_end_inside: "0 < buf \<Longrightarrow> buf + sz \<le> 2 ^ 64 \<Longrightarrow> vsn_end buf sz = (buf + sz - 1, sz)"
proof -
  assume buf: "0 < buf" and sz: "buf + sz \<le> 2 ^ 64"
  have 1: "of_nat buf + of_nat sz - 1 = (of_nat (buf + sz - 1) :: u64)"
    "of_nat buf - 1 = (of_nat (buf - 1) :: u64)" using buf by (simp_all add: of_nat_diff)
  have u: "unat (of_nat n :: u64) = n" if "n < 2 ^ 64" for n
    using that by (simp add: unat_of_nat take_bit_eq_mod)
  have "buf + sz - 1 < 2 ^ 64" "buf - 1 < 2 ^ 64" using buf sz by simp_all
  note 2 = this[THEN u]
  show ?thesis
    unfolding vsn_end_def Let_def 1 word_less_nat_alt 2 using buf by simp
qed

lemma vsnprintf_inside:
  assumes "0 < buf" "buf + sz \<le> 2 ^ 64" "nargs fmt \<le> length args"
    and "strings_ok (arg_mem args) buf (buf + sz - 1) m args"
  shows "\<exists>m' n. vsnprintf m buf sz fmt args = Some (m', of_nat n) \<and>
    (\<forall>p. p < buf \<or> buf + sz \<le> p \<longrightarrow> p \<notin> arg_mem args \<longrightarrow> m' p = m p) \<and>
    (0 < sz \<longrightarrow> m' (buf + min n (sz - 1)) = 0)"
proof -
  let ?e = "buf + sz - 1"
  obtain m1 str where 1: "vsn_loop ?e buf fmt args (m, buf) = Some (m1, str)"
    and 2: "advances (arg_mem args) ?e (m, buf) (m1, str)"
    using vsn_loop_some[of "arg_mem args" buf ?e "(m, buf)" args fmt] assms by auto
  define m2 where "m2 = (if str \<le> ?e then m1(str := 0) else if 0 < sz then m1(?e := 0) else m1)"
  have 3: "vsnprintf m buf sz fmt args = Some (m2, of_nat (str - buf))"
    unfolding vsnprintf_def vsn_end_inside[OF assms(1,2)] prod.case 1 option.case m2_def ..
  have 4: "m2 p = m p" if "p < buf \<or> buf + sz \<le> p" "p \<notin> arg_mem args" for p
    using that 2 assms(1) by (auto simp: m2_def advances_def)
  have 5: "m2 (buf + min (str - buf) (sz - 1)) = 0" if "0 < sz"
    using that 2 assms(1) by (auto simp: m2_def advances_def min_def)
  show ?thesis using 3 4 5 by blast
qed



section \<open>Digits\<close>

lemma less16: "d < (16::nat) \<longleftrightarrow> d \<in> {0,1,2,3,4,5,6,7,8,9,10,11,12,13,14,15}"
  unfolding insert_iff empty_iff by presburger

lemma digit_char_class:
  "d < 16 \<Longrightarrow> isxdigit (digit_char 0 d)"
  "d < 16 \<Longrightarrow> \<not> isspace (digit_char 0 d)"
  "d < 16 \<Longrightarrow> digit_char 0 d \<noteq> 0"
  "d < 10 \<Longrightarrow> isdigit (digit_char 0 d)"
  "d < 8 \<Longrightarrow> digit_char 0 d \<le> 55"
  "d < 16 \<Longrightarrow> digit_value (digit_char 0 d) = of_nat d"
proof -
  have "\<forall>d\<in>{0,1,2,3,4,5,6,7,8,9,10,11,12,13,14,15}. isxdigit (digit_char 0 d) \<and>
    \<not> isspace (digit_char 0 d) \<and> digit_char 0 d \<noteq> 0 \<and> (d < 10 \<longrightarrow> isdigit (digit_char 0 d)) \<and>
    (d < 8 \<longrightarrow> digit_char 0 d \<le> 55) \<and> digit_value (digit_char 0 d) = of_nat d" by code_simp
  note * = bspec[OF this, folded less16]
  show "d < 16 \<Longrightarrow> isxdigit (digit_char 0 d)"
  "d < 16 \<Longrightarrow> \<not> isspace (digit_char 0 d)"
  "d < 16 \<Longrightarrow> digit_char 0 d \<noteq> 0"
  "d < 10 \<Longrightarrow> isdigit (digit_char 0 d)"
  "d < 8 \<Longrightarrow> digit_char 0 d \<le> 55"
  "d < 16 \<Longrightarrow> digit_value (digit_char 0 d) = of_nat d" using *[of d] by simp_all
qed

lemma num_digits_lt: "d \<in> set (num_digits b n) \<Longrightarrow> d < b"
  by (induction b n rule: num_digits.induct) (subst (asm) num_digits.simps, auto split: if_splits)

lemma num_digits_value: "2 \<le> b \<Longrightarrow> foldr (\<lambda>d acc. acc * b + d) (num_digits b n) 0 = n"
  by (induction b n rule: num_digits.induct) (subst num_digits.simps, auto)

lemma num_digits_length: "2 \<le> b \<Longrightarrow> n < 2 ^ k \<Longrightarrow> length (num_digits b n) \<le> k"
proof (induction k arbitrary: n)
  case 0
  then show ?case by (subst num_digits.simps) simp
next
  case (Suc k)
  have "n div b \<le> n div 2" using Suc.prems by (intro div_le_mono2) auto
  also have "\<dots> < 2 ^ k" using Suc.prems by auto
  finally show ?case using Suc by (subst num_digits.simps) simp
qed

text \<open>The digits in the order they are printed in.\<close>

definition digit_list :: "nat \<Rightarrow> nat \<Rightarrow> nat list" where
  "digit_list b n = (if n = 0 then [0] else rev (num_digits b n))"

lemma digit_list_simps:
  assumes "2 \<le> b" "n < 2 ^ 64"
  shows "digit_list b n \<noteq> []" "d \<in> set (digit_list b n) \<Longrightarrow> d < b" "length (digit_list b n) \<le> 64"
    "fold (\<lambda>d acc. acc * b + d) (digit_list b n) 0 = n"
proof -
  show "digit_list b n \<noteq> []" using assms by (subst digit_list_def, subst num_digits.simps) simp
  show "d \<in> set (digit_list b n) \<Longrightarrow> d < b"
    using assms num_digits_lt[of d b n] by (auto simp: digit_list_def split: if_splits)
  show "length (digit_list b n) \<le> 64" "fold (\<lambda>d acc. acc * b + d) (digit_list b n) 0 = n"
    using num_digits_length[OF assms] num_digits_value[OF assms(1), of n]
    by (auto simp: digit_list_def foldr_conv_fold)
qed

lemma strtoul_loop_digits:
  assumes "b \<le> 16" "\<And>d. d \<in> set ds \<Longrightarrow> d < b"
  shows "strtoul_loop (of_nat b) (of_nat r) (map (digit_char 0) ds) =
    (of_nat (fold (\<lambda>d acc. acc * b + d) ds r), [])"
  using assms(2)
proof (induction ds arbitrary: r)
  case (Cons d ds)
  then have d: "d < b" by simp
  then have "(of_nat d :: u64) < of_nat b"
    using assms(1) by (simp add: word_less_nat_alt unat_of_nat take_bit_eq_mod)
  with d have "strtoul_loop (of_nat b) (of_nat r) (map (digit_char 0) (d # ds)) =
    strtoul_loop (of_nat b) (of_nat (r * b + d)) (map (digit_char 0) ds)"
    using assms(1) by (simp add: digit_char_class)
  also have "\<dots> = (of_nat (fold (\<lambda>d acc. acc * b + d) ds (r * b + d)), [])"
    by (rule Cons.IH) (use Cons.prems in simp)
  finally show ?case by simp
qed simp

lemma put_list_effect:
  "str + length cs \<le> Suc e \<Longrightarrow> put_list e cs (m, str) =
    (\<lambda>p. if str \<le> p \<and> p < str + length cs then cs ! (p - str) else m p, str + length cs)"
  by (induction cs arbitrary: m str) (auto simp: putc_def fun_eq_iff nth_Cons')

lemma number_plain:
  assumes "2 \<le> b" "b \<le> 36"
  shows "number e num b (- 1) (- 1) 0 st = put_list e (map (digit_char 0) (digit_list b (unat num))) st"
proof -
  have "rev (if num = 0 then [48] else map (digit_char 0) (num_digits b (unat num))) =
    map (digit_char 0) (digit_list b (unat num))"
    by (simp add: digit_list_def digit_char_def rev_map unat_eq_0)
  then show ?thesis using assms by (simp add: number_def Let_def pad_def SIGN_def)
qed

lemma cstr_fromI:
  "0 \<notin> set xs \<Longrightarrow> (\<And>i. i < length xs \<Longrightarrow> m (p + i) = xs ! i) \<Longrightarrow> m (p + length xs) = 0 \<Longrightarrow> cstr m p xs"
proof (induction xs arbitrary: p)
  case (Cons x xs)
  have "cstr m (Suc p) xs"
  proof (rule Cons.IH)
    show "m (Suc p + i) = xs ! i" if "i < length xs" for i using Cons.prems(2)[of "Suc i"] that by simp
  qed (use Cons.prems in auto)
  then show ?case using Cons.prems(1) Cons.prems(2)[of 0] by auto
qed simp

definition ul_base :: "u8 \<Rightarrow> nat" where
  "ul_base c = (if c = 111 then 8 else if c = 120 then 16 else 10)"

definition ul_text :: "u8 \<Rightarrow> u64 \<Rightarrow> u8 list" where
  "ul_text c v = map (digit_char 0) (digit_list (ul_base c) (unat v))"

lemma ul_base_cases: "c \<in> {111, 117, 120} \<Longrightarrow> ul_base c \<in> {8, 10, 16}"
  by (auto simp: ul_base_def)

lemma ul_digits:
  fixes v :: u64
  assumes "c \<in> {111, 117, 120}"
  shows "digit_list (ul_base c) (unat v) \<noteq> []"
    "d \<in> set (digit_list (ul_base c) (unat v)) \<Longrightarrow> d < ul_base c"
    "length (digit_list (ul_base c) (unat v)) \<le> 64"
    "fold (\<lambda>d acc. acc * ul_base c + d) (digit_list (ul_base c) (unat v)) 0 = unat v"
proof -
  have "2 \<le> ul_base c" using ul_base_cases[OF assms] by auto
  moreover have "unat v < 2 ^ 64" using unsigned_less [of v, where 'a = nat] by simp
  ultimately show "digit_list (ul_base c) (unat v) \<noteq> []"
    "d \<in> set (digit_list (ul_base c) (unat v)) \<Longrightarrow> d < ul_base c"
    "length (digit_list (ul_base c) (unat v)) \<le> 64"
    "fold (\<lambda>d acc. acc * ul_base c + d) (digit_list (ul_base c) (unat v)) 0 = unat v"
    by - (erule (1) digit_list_simps, assumption?)+
qed

lemma print_ul:
  assumes "c \<in> {111, 117, 120}"
  shows "vsn_loop e buf [37, 108, c] [v] st = Some (put_list e (ul_text c v) st)"
proof -
  have "isdigit 108 = False" by code_simp
  then have "parse_spec [108, c] [v] =
    Some (\<lparr>sp_flags = 0, sp_width = - 1, sp_precision = - 1, sp_qualifier = 108\<rparr>, [c], [v])"
    using assms by (auto simp: parse_spec_def parse_width_def parse_precision_def parse_qualifier_def
        peek_def)
  then show ?thesis
    using assms
    by (auto simp: convert_def peek_def va_arg_def number_plain ul_text_def ul_base_def int_arg_def)
qed

lemma scan_loop_end: "sc_fmt s = [] \<Longrightarrow> scan_loop n s = Some s"
  by (subst scan_loop.simps) simp

lemma scan_ul:
  assumes "c \<in> {111, 117, 120}"
  shows "vsscanf m (ul_text c v) [37, 108, c] [a] = Some (store_le (unat a) 8 v m, 1)"
proof -
  obtain d ds where ds: "digit_list (ul_base c) (unat v) = d # ds"
    using ul_digits(1)[OF assms] by (meson neq_Nil_conv)
  then have d: "d < ul_base c" using ul_digits(2)[OF assms, of d v] by simp
  have t: "ul_text c v = digit_char 0 d # map (digit_char 0) ds" by (simp add: ul_text_def ds)
  have c: "isspace 37 = False" "isdigit 108 = False" by code_simp+
  have "strtoul_loop (of_nat (ul_base c)) (of_nat 0) (ul_text c v) = (of_nat (unat v), [])"
    unfolding ul_text_def
  proof (subst strtoul_loop_digits)
    show "ul_base c \<le> 16" using ul_base_cases[OF assms] by auto
  qed (simp_all add: ul_digits(2,4)[OF assms])
  then have "simple_strtoul (ul_text c v) (of_nat (ul_base c)) = (v, [])"
    using ul_base_cases[OF assms] by (auto simp: simple_strtoul_def auto_base_def)
  then have "scan_int 108 (of_nat (ul_base c)) False
      \<lparr>sc_num = 0, sc_mem = m, sc_str = ul_text c v, sc_fmt = [], sc_args = [a]\<rparr> =
    Some (True, \<lparr>sc_num = 1, sc_mem = store_le (unat a) 8 v m, sc_str = [], sc_fmt = [], sc_args = []\<rparr>)"
    using d ul_base_cases[OF assms] digit_char_class[of d]
    by (auto simp: scan_int_def Let_def not_less t peek_def bad_digit_def scan_value_def va_arg_def
        scan_size_def)
  then have "scan_conv n \<lparr>sc_num = 0, sc_mem = m, sc_str = ul_text c v, sc_fmt = [108, c], sc_args = [a]\<rparr> =
    Some (True, \<lparr>sc_num = 1, sc_mem = store_le (unat a) 8 v m, sc_str = [], sc_fmt = [], sc_args = []\<rparr>)"
    for n
    using assms c by (auto simp: t peek_def scan_conv_def scan_qualifier_def ul_base_def)
  then show ?thesis
    unfolding vsscanf_def using c by (subst scan_loop.simps) (simp add: peek_def t scan_loop_end)
qed

text \<open>The digits of a base at the start of a text, and the number they denote without any bound.\<close>

definition digit_prefix :: "u64 \<Rightarrow> u8 list \<Rightarrow> u8 list" where
  "digit_prefix b s = takeWhile (\<lambda>c. isxdigit c \<and> digit_value c < b) s"

definition text_value :: "nat \<Rightarrow> u8 list \<Rightarrow> nat" where
  "text_value b ds = fold (\<lambda>c acc. acc * b + unat (digit_value c)) ds 0"

lemma strtoul_loop_value:
  "strtoul_loop b (of_nat r) s =
    (of_nat (fold (\<lambda>c acc. acc * unat b + unat (digit_value c)) (digit_prefix b s) r),
     drop (length (digit_prefix b s)) s)"
proof (induction s arbitrary: r)
  case (Cons c s)
  have "of_nat r * b + digit_value c = of_nat (r * unat b + unat (digit_value c))" by simp
  then show ?case using Cons[of "r * unat b + unat (digit_value c)"]
    by (simp add: digit_prefix_def del: of_nat_add of_nat_mult)
qed (simp add: digit_prefix_def)

lemma digit_value_ull: "digit_value_ull c = digit_value c"
  by (simp add: digit_value_ull_def digit_value_def toupper_def)

lemma strtoull_loop: "strtoull_loop b r s = strtoul_loop b r s"
  by (induction b r s rule: strtoull_loop.induct) (simp_all add: digit_value_ull)

text \<open>
  C37. What \<open>%lo\<close>, \<open>%lu\<close> or \<open>%lx\<close> prints is a string of digits that fits 64 bytes, \<open>snprintf\<close> puts it
  into the buffer with its terminator and returns its length, and \<open>sscanf\<close> with the same format reads the
  printed number back from it.
\<close>

theorem print_scan_roundtrip:
  assumes "c \<in> {111, 117, 120}" "0 < buf" "buf + sz \<le> 2 ^ 64" "65 \<le> sz"
  shows "\<exists>m' ds. snprintf m buf sz [37, 108, c] [v] = Some (m', of_nat (length ds)) \<and>
    length ds \<le> 64 \<and> cstr m' buf ds \<and>
    sscanf m2 ds [37, 108, c] [a] = Some (store_le (unat a) 8 v m2, 1)"
proof -
  let ?ds = "ul_text c v" and ?e = "buf + sz - 1"
  have len: "length ?ds \<le> 64" using ul_digits(3)[OF assms(1)] by (simp add: ul_text_def)
  have le: "buf + length ?ds \<le> ?e" using len assms(4) by linarith
  define m1 where "m1 = (\<lambda>p. if buf \<le> p \<and> p < buf + length ?ds then ?ds ! (p - buf) else m p)"
  have "vsn_loop ?e buf [37, 108, c] [v] (m, buf) = Some (m1, buf + length ?ds)"
    unfolding print_ul[OF assms(1)] m1_def by (subst put_list_effect) (use len assms in auto)
  then have 1: "snprintf m buf sz [37, 108, c] [v] = Some (m1(buf + length ?ds := 0), of_nat (length ?ds))"
    using le unfolding snprintf_def vsnprintf_def vsn_end_inside[OF assms(2,3)]
    by (simp del: vsn_loop.simps)
  have "0 \<notin> set ?ds"
  proof
    assume "0 \<in> set ?ds"
    then obtain d where "d \<in> set (digit_list (ul_base c) (unat v))" "digit_char 0 d = 0"
      by (auto simp: ul_text_def)
    then show False
      using ul_digits(2)[OF assms(1)] ul_base_cases[OF assms(1)] digit_char_class(3)[of d] by fastforce
  qed
  then have "cstr (m1(buf + length ?ds := 0)) buf ?ds" by (rule cstr_fromI) (auto simp: m1_def)
  then show ?thesis using 1 len scan_ul[OF assms(1)] by (auto simp: sscanf_def)
qed

lemma print_scan_roundtrip_witness:
  "\<exists>m' ds. snprintf (\<lambda>_. 0) 1000 100 [37, 108, 120] [48879] = Some (m', of_nat (length ds)) \<and>
    length ds \<le> 64 \<and> cstr m' 1000 ds \<and>
    sscanf (\<lambda>_. 0) ds [37, 108, 120] [16] = Some (store_le 16 8 48879 (\<lambda>_. 0), 1)"
  using print_scan_roundtrip[of 120 1000 100 "\<lambda>_. 0" 48879 "\<lambda>_. 0" 16] by simp


lemma vsnprintf_null:
  "vsnprintf m 0 0 [65] [] = Some (m(0 := 65, 1 := 0), 1)"
  by (simp add: vsnprintf_def vsn_end_def putc_def unsigned_minus_1_eq_mask mask_eq_exp_minus_1)

end
