(* ===== verification/Guk_Ring.thy ===== *)
theory Guk_Ring
  imports Guk_Prelude
begin

text \<open>
  Byte rings in a page shared with another domain, as the console and the store use them: an array of
  \<open>2 ^ k\<close> bytes and two free-running 32-bit indices, reduced by a mask when the array is accessed. The
  difference of the indices stays meaningful when they wrap. The bytes between the indices are a
  queue: \<open>ring_data\<close>. The lemmas say how writing behind the producer index and advancing the consumer
  index act on it, whatever the values of the indices.
\<close>

definition mask_idx :: "nat \<Rightarrow> u32 \<Rightarrow> nat" where
  "mask_idx k i = unat (i AND (2 ^ k - 1))"

definition ring_data :: "nat \<Rightarrow> (nat \<Rightarrow> u8) \<Rightarrow> u32 \<Rightarrow> u32 \<Rightarrow> u8 list" where
  "ring_data k arr cons prd = map (\<lambda>i. arr (mask_idx k (cons + of_nat i))) [0..<unat (prd - cons)]"

lemma mask_idx_mod: "k \<le> 32 \<Longrightarrow> mask_idx k i = unat i mod 2 ^ k"
proof -
  have "i AND (2 ^ k - 1) = take_bit k i" by (simp add: take_bit_eq_mask mask_eq_exp_minus_1)
  then have "mask_idx k i = take_bit k (unat i)" by (simp only: mask_idx_def unsigned_take_bit_eq)
  then show ?thesis by (simp only: take_bit_eq_mod)
qed

lemma mask_idx_less: "mask_idx k i < 2 ^ k"
proof (cases "k \<le> 32")
  case False
  have "mask_idx k i < 2 ^ 32"
    using unsigned_less[of "i AND (2 ^ k - 1)", where 'a = nat] by (simp add: mask_idx_def)
  also have "(2 :: nat) ^ 32 \<le> 2 ^ k" using False by (intro power_increasing) auto
  finally show ?thesis .
qed (simp add: mask_idx_mod)

lemma mask_idx_add:
  assumes "k \<le> 32" shows "mask_idx k (c + of_nat i) = (mask_idx k c + i) mod 2 ^ k"
proof -
  have dvd: "(2 :: nat) ^ k dvd 2 ^ 32" using assms by (rule le_imp_power_dvd)
  have "unat (c + of_nat i) = (unat c + i) mod 2 ^ 32"
    by (simp add: unat_word_ariths unat_of_nat take_bit_eq_mod mod_add_right_eq)
  then show ?thesis using dvd by (simp add: mask_idx_mod[OF assms] mod_mod_cancel mod_add_left_eq)
qed

lemma mask_idx_inject:
  assumes "k \<le> 32" "i < 2 ^ k" "j < 2 ^ k" "mask_idx k (c + of_nat i) = mask_idx k (c + of_nat j)"
  shows "i = j"
proof -
  have m: "(mask_idx k c + i) mod 2 ^ k = (mask_idx k c + j) mod 2 ^ k"
    using assms(4) by (simp add: mask_idx_add[OF assms(1)])
  show ?thesis
  proof (cases "i \<le> j")
    case True
    with m[symmetric] have "2 ^ k dvd j - i" using mod_eq_dvd_iff_nat[of "mask_idx k c + i" "mask_idx k c + j"] by simp
    then show ?thesis using True assms(3) by (auto dest: dvd_imp_le)
  next
    case False
    with m have "2 ^ k dvd i - j" using mod_eq_dvd_iff_nat[of "mask_idx k c + j" "mask_idx k c + i"] by simp
    then show ?thesis using False assms(2) by (auto dest: dvd_imp_le)
  qed
qed

lemma length_ring_data [simp]: "length (ring_data k arr cons prd) = unat (prd - cons)"
  by (simp add: ring_data_def)

lemma ring_data_Nil_iff: "ring_data k arr cons prd = [] \<longleftrightarrow> prd = cons"
  by (simp add: ring_data_def unat_eq_0)

lemma ring_data_nth:
  "i < unat (prd - cons) \<Longrightarrow> ring_data k arr cons prd ! i = arr (mask_idx k (cons + of_nat i))"
  by (simp add: ring_data_def)

lemma ring_data_frame:
  assumes "k \<le> 32" "unat (prd - cons) \<le> n" "n < 2 ^ k"
  shows "ring_data k (arr(mask_idx k (cons + of_nat n) := x)) cons prd = ring_data k arr cons prd"
  unfolding ring_data_def
proof (rule map_cong[OF refl])
  fix i assume "i \<in> set [0..<unat (prd - cons)]"
  then show "(arr(mask_idx k (cons + of_nat n) := x)) (mask_idx k (cons + of_nat i)) =
    arr (mask_idx k (cons + of_nat i))"
    using mask_idx_inject[OF assms(1) _ assms(3), of i cons] assms(2,3) by auto
qed

lemma ring_put:
  assumes "k < 32" "unat (prd - cons) < 2 ^ k"
  shows "ring_data k (arr(mask_idx k prd := x)) cons (prd + 1) = ring_data k arr cons prd @ [x]"
    and "unat (prd + 1 - cons) = Suc (unat (prd - cons))"
proof -
  let ?n = "unat (prd - cons)"
  have p: "prd = cons + of_nat ?n" by simp
  have "(2 :: nat) ^ k \<le> 2 ^ 31" using assms(1) by (intro power_increasing) auto
  then have "Suc ?n < 2 ^ 32" using assms(2) by simp
  then have "unat (1 + (prd - cons)) = Suc ?n" by (subst unat_word_ariths) simp
  then show n: "unat (prd + 1 - cons) = Suc ?n" by (simp add: algebra_simps)
  have "ring_data k (arr(mask_idx k (cons + of_nat ?n) := x)) cons prd = ring_data k arr cons prd"
    using assms by (intro ring_data_frame) auto
  then show "ring_data k (arr(mask_idx k prd := x)) cons (prd + 1) = ring_data k arr cons prd @ [x]"
    unfolding ring_data_def n by (simp flip: p)
qed

lemma unat_diff_advance:
  fixes prd cons :: u32
  assumes "n \<le> unat (prd - cons)" shows "unat (prd - (cons + of_nat n)) = unat (prd - cons) - n"
proof -
  have "unat (prd - cons) < 2 ^ 32" using unsigned_less[of "prd - cons", where 'a = nat] by simp
  then have n: "n < 2 ^ 32" using assms by linarith
  then have "of_nat n \<le> prd - cons"
    using assms by (simp add: word_le_nat_alt unat_of_nat take_bit_eq_mod)
  then have "unat (prd - cons - of_nat n) = unat (prd - cons) - unat (of_nat n :: u32)"
    by (simp add: unat_sub)
  moreover have "prd - cons - of_nat n = prd - (cons + of_nat n)" by simp
  ultimately show ?thesis using n by (simp add: unat_of_nat take_bit_eq_mod)
qed

lemma ring_drop:
  assumes "n \<le> unat (prd - cons)"
  shows "ring_data k arr (cons + of_nat n) prd = drop n (ring_data k arr cons prd)"
  unfolding ring_data_def unat_diff_advance[OF assms] drop_map drop_upt
  by (rule nth_equalityI) (simp_all add: algebra_simps)

end
