(* ===== verification/Guk_Console.thy ===== *)
theory Guk_Console
  imports Guk_Ring Guk_Printf
begin

text \<open>
  The console (\<open>console/xencons_ring.c\<close>, \<open>console/console.c\<close>): the output and input rings in the
  page shared with the console daemon, printing with line ends converted, and the blocking read.
  The ring sizes \<open>2 ^ k\<close> and \<open>2 ^ ki\<close> come from Xen's headers and are parameters. The daemon is a
  parameter too: \<open>dmn t\<close> is the number of bytes it has taken off the output ring when the kernel reads
  the ring indices for the \<open>t\<close>-th time, at most what is there. What it took is kept in \<open>c_got\<close>.
\<close>

section \<open>The rings\<close>

datatype cons_effect =
  NotifyDaemon | HypWrite "u8 list" | WakeReaders | AddWaiter | BlockReader | RemoveWaiter

record xencons_interface =
  xc_in :: "nat \<Rightarrow> u8"
  xc_out :: "nat \<Rightarrow> u8"
  in_cons :: u32
  in_prod :: u32
  out_cons :: u32
  out_prod :: u32

record console = xencons_interface +
  console_initialised :: bool
  console_dying :: bool
  send_notifies :: bool
  console_evtchn :: u32
  c_bound :: bool
  c_log :: "cons_effect list"
  c_got :: "u8 list"
  c_clock :: nat

definition xc_log :: "cons_effect \<Rightarrow> console \<Rightarrow> console" where
  "xc_log e s = s\<lparr>c_log := c_log s @ [e]\<rparr>"

text \<open>The daemon takes bytes off the output ring.\<close>

definition daemon_read :: "nat \<Rightarrow> (nat \<Rightarrow> nat) \<Rightarrow> console \<Rightarrow> console" where
  "daemon_read k dmn s =
     (let n = min (dmn (c_clock s)) (unat (out_prod s - out_cons s))
      in s\<lparr>out_cons := out_cons s + of_nat n,
           c_got := c_got s @ take n (ring_data k (xc_out s) (out_cons s) (out_prod s)),
           c_clock := Suc (c_clock s)\<rparr>)"

definition xencons_notify_daemon :: "console \<Rightarrow> console" where
  "xencons_notify_daemon s = xc_log NotifyDaemon s"

definition xencons_ring_avail :: "nat \<Rightarrow> console \<Rightarrow> guk_stop + u32" where
  "xencons_ring_avail ki s =
     bug_on (2 ^ ki < unat (in_prod s - in_cons s)) (in_prod s - in_cons s)"

fun send_loop ::
  "nat \<Rightarrow> u32 \<Rightarrow> (nat \<Rightarrow> u8) \<Rightarrow> u32 \<Rightarrow> u8 list \<Rightarrow> (nat \<Rightarrow> u8) \<times> u32 \<times> nat" where
  "send_loop k cons out prd [] = (out, prd, 0)"
| "send_loop k cons out prd (d # data) =
     (if unat (prd - cons) < 2 ^ k
      then case send_loop k cons (out(mask_idx k prd := d)) (prd + 1) data of
             (out', prd', sent) \<Rightarrow> (out', prd', Suc sent)
      else (out, prd, 0))"

definition xencons_ring_send_no_notify ::
  "nat \<Rightarrow> (nat \<Rightarrow> nat) \<Rightarrow> u8 list \<Rightarrow> console \<Rightarrow> guk_stop + nat \<times> console" where
  "xencons_ring_send_no_notify k dmn data s =
     (let s = daemon_read k dmn s
      in res_bind (bug_on (2 ^ k < unat (out_prod s - out_cons s)) ()) (\<lambda>_.
         case send_loop k (out_cons s) (xc_out s) (out_prod s) data of
           (out', prd', sent) \<Rightarrow> Inr (sent, s\<lparr>xc_out := out', out_prod := prd'\<rparr>)))"

definition xencons_ring_send ::
  "nat \<Rightarrow> (nat \<Rightarrow> nat) \<Rightarrow> u8 list \<Rightarrow> console \<Rightarrow> guk_stop + nat \<times> console" where
  "xencons_ring_send k dmn data s =
     res_bind (xencons_ring_send_no_notify k dmn data s) (\<lambda>(sent, s).
       Inr (sent, xencons_notify_daemon s))"

definition handle_input :: "console \<Rightarrow> console" where
  "handle_input s = xc_log WakeReaders s"

fun recv_loop :: "nat \<Rightarrow> (nat \<Rightarrow> u8) \<Rightarrow> u32 \<Rightarrow> u32 \<Rightarrow> nat \<Rightarrow> u8 list" where
  "recv_loop ki inp cons prd 0 = []"
| "recv_loop ki inp cons prd (Suc len) =
     (if cons \<noteq> prd then inp (mask_idx ki cons) # recv_loop ki inp (cons + 1) prd len else [])"

definition xencons_ring_recv :: "nat \<Rightarrow> nat \<Rightarrow> console \<Rightarrow> guk_stop + u8 list \<times> console" where
  "xencons_ring_recv ki len s =
     res_bind (bug_on (2 ^ ki < unat (in_prod s - in_cons s)) ()) (\<lambda>_.
       let data = recv_loop ki (xc_in s) (in_cons s) (in_prod s) len
       in Inr (data, xencons_notify_daemon (s\<lparr>in_cons := in_cons s + of_nat (length data)\<rparr>)))"

text \<open>\<open>bind_evtchn\<close> returns the port it was given, so the branch on \<open>err\<close> depends on its sign as an
  \<open>int\<close>.\<close>

definition xencons_ring_init :: "console \<Rightarrow> u32 \<times> console" where
  "xencons_ring_init s =
     (if console_evtchn s = 0 then (0, s)
      else let err = console_evtchn s; s = s\<lparr>c_bound := True\<rparr>
      in if sint err \<le> 0 then (err, s) else (0, xencons_notify_daemon s))"

definition xencons_resume :: "console \<Rightarrow> console" where
  "xencons_resume s = snd (xencons_ring_init s)"

definition xencons_suspend :: "console \<Rightarrow> console" where
  "xencons_suspend s = s\<lparr>c_bound := False\<rparr>"

section \<open>Printing\<close>

definition init_overflow :: "u8 list" where
  "init_overflow =
     [91, 66, 85, 71, 58, 32, 116, 111, 111, 32, 109, 117, 99, 104, 32, 112, 114, 105, 110, 116,
      111, 117, 116, 32, 98, 101, 102, 111, 114, 101, 32, 99, 111, 110, 115, 111, 108, 101, 32,
      105, 115, 32, 105, 110, 105, 116, 105, 97, 108, 105, 115, 101, 100, 33, 93, 13, 10]"

text \<open>\<open>checked_print\<close> tries again until the ring has taken everything; \<open>send\<close> is the function
  \<open>xencons_ring_send_fn\<close> points at.\<close>

partial_function (option) checked_print ::
  "(u8 list \<Rightarrow> console \<Rightarrow> guk_stop + nat \<times> console) \<Rightarrow> u8 list \<Rightarrow> console \<Rightarrow> (guk_stop + console) option" where
  "checked_print send data s =
     (if data = [] then Some (Inr s)
      else case send data s of
             Inl e \<Rightarrow> Some (Inl e)
           | Inr p \<Rightarrow> checked_print send (drop (fst p) data) (snd p))"

text \<open>Sequencing of operations that may not return.\<close>

definition seq_print ::
  "(guk_stop + console) option \<Rightarrow> (console \<Rightarrow> (guk_stop + console) option) \<Rightarrow> (guk_stop + console) option" where
  "seq_print r f = (case r of Some (Inr s) \<Rightarrow> f s | _ \<Rightarrow> r)"

text \<open>The loop over the line ends: \<open>pre\<close> is the text from \<open>data\<close> to \<open>curr_char\<close>, \<open>rest\<close> what follows.
  \<open>before\<close> is the byte in front of the buffer, which is looked at when the text is empty.\<close>

fun print_lines ::
  "(u8 list \<Rightarrow> console \<Rightarrow> guk_stop + nat \<times> console) \<Rightarrow> u8 \<Rightarrow> u8 list \<Rightarrow> u8 list \<Rightarrow> console \<Rightarrow>
    (guk_stop + console) option" where
  "print_lines send before pre (x # y # rest) s =
     (if x = 10 then seq_print (checked_print send (pre @ [13, 10]) s)
                       (print_lines send before [] (y # rest))
      else print_lines send before (pre @ [x]) (y # rest) s)"
| "print_lines send before pre rest s =
     (let data = pre @ rest
      in if (if data = [] then before else last data) = 10
         then seq_print (checked_print send (butlast data) s) (checked_print send [13, 10])
         else checked_print send data s)"

definition send_fn ::
  "nat \<Rightarrow> (nat \<Rightarrow> nat) \<Rightarrow> console \<Rightarrow> u8 list \<Rightarrow> console \<Rightarrow> guk_stop + nat \<times> console" where
  "send_fn k dmn s =
     (if send_notifies s then xencons_ring_send k dmn else xencons_ring_send_no_notify k dmn)"

definition console_print ::
  "nat \<Rightarrow> nat \<Rightarrow> (nat \<Rightarrow> nat) \<Rightarrow> u8 \<Rightarrow> u8 list \<Rightarrow> console \<Rightarrow> (guk_stop + console) option" where
  "console_print k ki dmn before data s =
     (if console_dying s then Some (Inr s)
      else if console_initialised s then print_lines (send_fn k dmn s) before [] data s
      else case xencons_ring_avail ki s of
             Inl e \<Rightarrow> Some (Inl e)
           | Inr avail \<Rightarrow>
               if (of_int (sint avail - int (length data)) :: u64) < of_nat (length init_overflow)
               then Some (Inl BUG)
               else print_lines (send_fn k dmn s) before [] data s)"

definition guk_printbytes ::
  "nat \<Rightarrow> nat \<Rightarrow> (nat \<Rightarrow> nat) \<Rightarrow> u8 \<Rightarrow> u8 list \<Rightarrow> console \<Rightarrow> (guk_stop + console) option" where
  "guk_printbytes k ki dmn before buf s = console_print k ki dmn before buf s"

text \<open>\<open>guk_cprintk\<close> formats into a static buffer of 1024 bytes at \<open>buf\<close>.\<close>

definition mem_text :: "mem \<Rightarrow> nat \<Rightarrow> nat \<Rightarrow> u8 list" where
  "mem_text m p n = map (\<lambda>i. m (p + i)) [0..<n]"

definition guk_cprintk ::
  "nat \<Rightarrow> nat \<Rightarrow> (nat \<Rightarrow> nat) \<Rightarrow> bool \<Rightarrow> nat \<Rightarrow> u8 list \<Rightarrow> u64 list \<Rightarrow> mem \<Rightarrow> console \<Rightarrow>
    (mem \<times> (guk_stop + console)) option" where
  "guk_cprintk k ki dmn tohyp buf fmt args m s =
     Option.bind (vsnprintf m buf 1024 fmt args) (\<lambda>(m, err).
     Option.bind (strlen m buf) (\<lambda>len.
       let text = mem_text m buf len
       in if tohyp then Some (m, Inr (xc_log (HypWrite text) s))
          else map_option (Pair m) (console_print k ki dmn (m (buf - 1)) text s)))"

definition guk_printk ::
  "nat \<Rightarrow> nat \<Rightarrow> (nat \<Rightarrow> nat) \<Rightarrow> nat \<Rightarrow> u8 list \<Rightarrow> u64 list \<Rightarrow> mem \<Rightarrow> console \<Rightarrow>
    (mem \<times> (guk_stop + console)) option" where
  "guk_printk k ki dmn buf fmt args m s = guk_cprintk k ki dmn False buf fmt args m s"

definition guk_xprintk ::
  "nat \<Rightarrow> nat \<Rightarrow> (nat \<Rightarrow> nat) \<Rightarrow> nat \<Rightarrow> u8 list \<Rightarrow> u64 list \<Rightarrow> mem \<Rightarrow> console \<Rightarrow>
    (mem \<times> (guk_stop + console)) option" where
  "guk_xprintk k ki dmn buf fmt args m s = guk_cprintk k ki dmn True buf fmt args m s"

section \<open>Reading and set-up\<close>

text \<open>
  \<open>guk_console_readbytes\<close> up to the first call of \<open>schedule\<close> (no result: the thread waits), and the
  turn of its loop that runs each time the thread is scheduled again.
\<close>

definition guk_console_readbytes :: "nat \<Rightarrow> nat \<Rightarrow> console \<Rightarrow> guk_stop + u8 list option \<times> console" where
  "guk_console_readbytes ki len s =
     res_bind (xencons_ring_avail ki s) (\<lambda>avail.
       if avail \<noteq> 0 then
         res_bind (xencons_ring_recv ki len s) (\<lambda>(data, s). Inr (Some data, s))
       else Inr (None, xc_log BlockReader (xc_log AddWaiter s)))"

definition readbytes_turn :: "nat \<Rightarrow> nat \<Rightarrow> console \<Rightarrow> guk_stop + u8 list option \<times> console" where
  "readbytes_turn ki len s =
     res_bind (xencons_ring_recv ki len s) (\<lambda>(data, s).
       if data \<noteq> [] then Inr (Some data, xc_log RemoveWaiter s)
       else Inr (None, xc_log BlockReader s))"

definition init_console :: "console \<Rightarrow> console" where
  "init_console s = (snd (xencons_ring_init s))\<lparr>console_initialised := True, send_notifies := True\<rparr>"

definition console_suspend :: "console \<Rightarrow> console" where
  "console_suspend s = xencons_suspend s"

definition console_resume :: "console \<Rightarrow> console" where
  "console_resume s = xencons_resume s"

section \<open>What the ring does\<close>

definition console_ok :: "nat \<Rightarrow> console \<Rightarrow> bool" where
  "console_ok k s \<longleftrightarrow> k < 32 \<and> unat (out_prod s - out_cons s) \<le> 2 ^ k"

definition stream :: "nat \<Rightarrow> console \<Rightarrow> u8 list" where
  "stream k s = c_got s @ ring_data k (xc_out s) (out_cons s) (out_prod s)"

lemma daemon_read_ok:
  assumes "console_ok k s"
  shows "console_ok k (daemon_read k dmn s)" "stream k (daemon_read k dmn s) = stream k s"
    "0 < dmn (c_clock s) \<Longrightarrow>
      unat (out_prod (daemon_read k dmn s) - out_cons (daemon_read k dmn s)) < 2 ^ k"
proof -
  let ?n = "min (dmn (c_clock s)) (unat (out_prod s - out_cons s))"
  have d: "unat (out_prod s - (out_cons s + of_nat ?n)) = unat (out_prod s - out_cons s) - ?n"
    by (rule unat_diff_advance) simp
  have r: "ring_data k (xc_out s) (out_cons s + of_nat ?n) (out_prod s) =
    drop ?n (ring_data k (xc_out s) (out_cons s) (out_prod s))" by (rule ring_drop) simp
  show "console_ok k (daemon_read k dmn s)"
    using assms d by (auto simp: console_ok_def daemon_read_def Let_def)
  show "stream k (daemon_read k dmn s) = stream k s"
    unfolding stream_def daemon_read_def Let_def using r by simp
  show "unat (out_prod (daemon_read k dmn s) - out_cons (daemon_read k dmn s)) < 2 ^ k"
    if "0 < dmn (c_clock s)"
    using assms d that by (auto simp: console_ok_def daemon_read_def Let_def min_def)
qed

lemma send_loop_ok:
  assumes "k < 32" "unat (prd - cons) \<le> 2 ^ k" "send_loop k cons arr prd data = (arr', prd', n)"
  shows "unat (prd' - cons) \<le> 2 ^ k \<and> n \<le> length data \<and>
    ring_data k arr' cons prd' = ring_data k arr cons prd @ take n data \<and>
    (data \<noteq> [] \<longrightarrow> unat (prd - cons) < 2 ^ k \<longrightarrow> 0 < n)"
  using assms
proof (induction k cons arr prd data arbitrary: n rule: send_loop.induct)
  case (2 k cons arr prd d data)
  show ?case
  proof (cases "unat (prd - cons) < 2 ^ k")
    case True
    obtain n' where n': "send_loop k cons (arr(mask_idx k prd := d)) (prd + 1) data = (arr', prd', n')"
      "n = Suc n'" using 2(4) True by (auto split: prod.splits)
    then show ?thesis
      using "2.IH"[OF True \<open>k < 32\<close> _ n'(1)] ring_put[OF \<open>k < 32\<close> True] True
      by (auto simp del: fun_upd_apply)
  qed (use 2 in simp)
qed simp

definition same_mode :: "console \<Rightarrow> console \<Rightarrow> bool" where
  "same_mode s s' \<longleftrightarrow> console_dying s' = console_dying s \<and>
     console_initialised s' = console_initialised s \<and> send_notifies s' = send_notifies s"

definition crlf :: "u8 list \<Rightarrow> u8 list" where
  "crlf xs = concat (map (\<lambda>c. if c = 10 then [13, 10] else [c]) xs)"

lemma crlf_simps [simp]:
  "crlf [] = []" "crlf (c # xs) = (if c = 10 then [13, 10] else [c]) @ crlf xs"
  "crlf (xs @ ys) = crlf xs @ crlf ys"
  by (simp_all add: crlf_def)

lemma crlf_plain: "10 \<notin> set xs \<Longrightarrow> crlf xs = xs"
  by (induction xs) auto

text \<open>
  What printing relies on: a send function takes a prefix of the text, puts it behind what the daemon
  has not read yet, and takes at least a byte when the daemon has just read something.
\<close>

locale ring_sender =
  fixes k :: nat and dmn :: "nat \<Rightarrow> nat"
    and send :: "u8 list \<Rightarrow> console \<Rightarrow> guk_stop + nat \<times> console"
  assumes send_prefix: "console_ok k s \<Longrightarrow>
    \<exists>n s'. send data s = Inr (n, s') \<and> console_ok k s' \<and> same_mode s s' \<and> n \<le> length data \<and>
      stream k s' = stream k s @ take n data \<and> c_clock s' = Suc (c_clock s) \<and>
      (data \<noteq> [] \<longrightarrow> 0 < dmn (c_clock s) \<longrightarrow> 0 < n)"
begin

definition prints :: "(guk_stop + console) option \<Rightarrow> console \<Rightarrow> u8 list \<Rightarrow> bool" where
  "prints r s text \<longleftrightarrow> (\<exists>s'. r = Some (Inr s') \<and> console_ok k s' \<and> same_mode s s' \<and>
     stream k s' = stream k s @ text)"

lemma printsI:
  "r = Some (Inr s') \<Longrightarrow> console_ok k s' \<Longrightarrow> same_mode s s' \<Longrightarrow> stream k s' = stream k s @ text \<Longrightarrow>
    prints r s text"
  by (auto simp: prints_def)

lemma checked_print_progress:
  assumes "console_ok k s" "data \<noteq> []" "c_clock s \<le> t" "0 < dmn t"
  shows "\<exists>n s'. 0 < n \<and> n \<le> length data \<and> console_ok k s' \<and> same_mode s s' \<and>
    stream k s' = stream k s @ take n data \<and>
    checked_print send data s = checked_print send (drop n data) s'"
  using assms
proof (induction "t - c_clock s" arbitrary: s)
  case 0
  then obtain n s' where "send data s = Inr (n, s')" "console_ok k s'" "same_mode s s'" "n \<le> length data"
    "stream k s' = stream k s @ take n data" "0 < n" using send_prefix[of s data] by (auto simp: le_antisym)
  then show ?case using 0(3) by (subst checked_print.simps) auto
next
  case (Suc x)
  obtain n s' where n: "send data s = Inr (n, s')" "console_ok k s'" "same_mode s s'" "n \<le> length data"
    "stream k s' = stream k s @ take n data" "c_clock s' = Suc (c_clock s)"
    using send_prefix[OF Suc(3), of data] by blast
  have e: "checked_print send data s = checked_print send (drop n data) s'"
    using n(1) Suc(4) by (subst checked_print.simps) simp
  show ?case
  proof (cases "n = 0")
    case True
    then show ?thesis using Suc(1)[of s'] Suc(2,4,5,6) n e by (auto simp: same_mode_def)
  next
    case False
    then show ?thesis using n e by blast
  qed
qed

lemma checked_print_all:
  assumes live: "\<And>t. \<exists>t'\<ge>t. 0 < dmn t'" and "console_ok k s"
  shows "prints (checked_print send data s) s data"
  using assms(2)
proof (induction "length data" arbitrary: data s rule: less_induct)
  case less
  show ?case
  proof (cases "data = []")
    case True
    then show ?thesis using less.prems by (subst checked_print.simps) (simp add: prints_def same_mode_def)
  next
    case False
    obtain t where "c_clock s \<le> t" "0 < dmn t" using live by blast
    then obtain n s' where n: "0 < n" "n \<le> length data" "console_ok k s'" "same_mode s s'"
      "stream k s' = stream k s @ take n data"
      and e: "checked_print send data s = checked_print send (drop n data) s'"
      using checked_print_progress[OF less.prems False] by blast
    have "prints (checked_print send (drop n data) s') s' (drop n data)"
      using less.hyps[OF _ n(3), of "drop n data"] n(1,2) by simp
    then show ?thesis using n(4,5) unfolding e by (auto simp: prints_def same_mode_def)
  qed
qed

lemma prints_seq:
  "prints r s xs \<Longrightarrow> (\<And>s'. console_ok k s' \<Longrightarrow> prints (f s') s' ys) \<Longrightarrow> prints (seq_print r f) s (xs @ ys)"
  by (fastforce simp: prints_def seq_print_def same_mode_def)

lemma print_lines_crlf:
  assumes "\<And>t. \<exists>t'\<ge>t. 0 < dmn t'" "console_ok k s" "pre @ rest \<noteq> []" "10 \<notin> set pre"
  shows "prints (print_lines send before pre rest s) s (crlf (pre @ rest))"
  using assms(2-)
proof (induction rest arbitrary: pre s rule: induct_list012)
  case 1
  then have "last pre \<noteq> 10" by (metis append_Nil2 last_in_set)
  then show ?case using 1 checked_print_all[OF assms(1), of s pre] by (simp add: crlf_plain)
next
  case (2 x)
  have "prints (seq_print (checked_print send pre s) (checked_print send [13, 10])) s (pre @ [13, 10])"
    by (rule prints_seq[OF checked_print_all checked_print_all]) (use assms(1) 2 in auto)
  then show ?case using 2 checked_print_all[OF assms(1), of s "pre @ [x]"] by (simp add: crlf_plain)
next
  case (3 x y rest)
  show ?case
  proof (cases "x = 10")
    case True
    have "prints (seq_print (checked_print send (pre @ [13, 10]) s) (print_lines send before [] (y # rest)))
      s ((pre @ [13, 10]) @ crlf (y # rest))"
      by (rule prints_seq[OF checked_print_all]) (use assms(1) 3(2)[of _ "[]"] 3(3) in auto)
    then show ?thesis using True 3(5) by (simp add: crlf_plain)
  next
    case False
    then show ?thesis using 3(2)[of s "pre @ [x]"] 3(3-) by (simp add: crlf_plain)
  qed
qed

end

lemma send_no_notify_prefix:
  assumes "console_ok k s"
  shows "\<exists>n s'. xencons_ring_send_no_notify k dmn data s = Inr (n, s') \<and> console_ok k s' \<and>
    same_mode s s' \<and> n \<le> length data \<and> stream k s' = stream k s @ take n data \<and>
    c_clock s' = Suc (c_clock s) \<and> (data \<noteq> [] \<longrightarrow> 0 < dmn (c_clock s) \<longrightarrow> 0 < n)"
proof -
  let ?s = "daemon_read k dmn s"
  have k: "k < 32" and le: "unat (out_prod ?s - out_cons ?s) \<le> 2 ^ k"
    using daemon_read_ok(1)[OF assms] by (auto simp: console_ok_def)
  have m: "same_mode s ?s" "c_clock ?s = Suc (c_clock s)"
    by (simp_all add: same_mode_def daemon_read_def Let_def)
  obtain arr' prd' n where l: "send_loop k (out_cons ?s) (xc_out ?s) (out_prod ?s) data = (arr', prd', n)"
    by (metis prod_cases3)
  let ?t = "?s\<lparr>xc_out := arr', out_prod := prd'\<rparr>"
  have "xencons_ring_send_no_notify k dmn data s = Inr (n, ?t)"
    using le l by (simp add: xencons_ring_send_no_notify_def Let_def bug_on_def)
  moreover have "stream k ?t = stream k s @ take n data" "console_ok k ?t" "n \<le> length data"
    "data \<noteq> [] \<longrightarrow> 0 < dmn (c_clock s) \<longrightarrow> 0 < n"
    using send_loop_ok[OF k le l] daemon_read_ok(2,3)[OF assms] k by (auto simp: stream_def console_ok_def)
  ultimately show ?thesis using m by (auto simp: same_mode_def)
qed

interpretation quiet: ring_sender k dmn "xencons_ring_send_no_notify k dmn" for k dmn
  by unfold_locales (rule send_no_notify_prefix)

interpretation notifying: ring_sender k dmn "xencons_ring_send k dmn" for k dmn
proof
  fix s :: console and data :: "u8 list"
  assume "console_ok k s"
  from send_no_notify_prefix[OF this, of dmn data] obtain n s' where
    "xencons_ring_send_no_notify k dmn data s = Inr (n, s')" "console_ok k s'" "same_mode s s'"
    "n \<le> length data" "stream k s' = stream k s @ take n data" "c_clock s' = Suc (c_clock s)"
    "data \<noteq> [] \<longrightarrow> 0 < dmn (c_clock s) \<longrightarrow> 0 < n" by (elim exE conjE) (rule that)
  then show "\<exists>n s'. xencons_ring_send k dmn data s = Inr (n, s') \<and> console_ok k s' \<and> same_mode s s' \<and>
    n \<le> length data \<and> stream k s' = stream k s @ take n data \<and> c_clock s' = Suc (c_clock s) \<and>
    (data \<noteq> [] \<longrightarrow> 0 < dmn (c_clock s) \<longrightarrow> 0 < n)"
    by (simp add: xencons_ring_send_def xencons_notify_daemon_def xc_log_def console_ok_def stream_def
        same_mode_def)
qed

lemma console_print_sends:
  assumes "\<And>t. \<exists>t'\<ge>t. 0 < dmn t'" "console_ok k s" "data \<noteq> []"
    and "\<not> console_dying s" "console_initialised s"
  shows "\<exists>s'. console_print k ki dmn before data s = Some (Inr s') \<and> console_ok k s' \<and>
    same_mode s s' \<and> stream k s' = stream k s @ crlf data"
  using quiet.print_lines_crlf[OF assms(1,2), of "[]" data before]
    notifying.print_lines_crlf[OF assms(1,2), of "[]" data before] assms(3-)
  by (auto simp: console_print_def send_fn_def quiet.prints_def notifying.prints_def)

lemma cstr_upto: "m (p + j) = 0 \<Longrightarrow> \<exists>xs. cstr m p xs \<and> length xs \<le> j"
proof (induction j arbitrary: p)
  case 0
  then show ?case by (intro exI[of _ "[]"]) simp
next
  case (Suc j)
  show ?case
  proof (cases "m p = 0")
    case True
    then show ?thesis by (intro exI[of _ "[]"]) simp
  next
    case False
    obtain xs where "cstr m (Suc p) xs" "length xs \<le> j" using Suc.IH[of "Suc p"] Suc.prems by auto
    then show ?thesis using False by (intro exI[of _ "m p # xs"]) simp
  qed
qed

lemma mem_text_cstr: "cstr m p xs \<Longrightarrow> mem_text m p (length xs) = xs"
  by (rule nth_equalityI) (simp_all add: mem_text_def cstr_nth)


definition sample_console :: console where
  "sample_console = \<lparr>xc_in = \<lambda>_. 0, xc_out = \<lambda>_. 0, in_cons = 0, in_prod = 0, out_cons = 0xFFFFFFFE,
     out_prod = 1, console_initialised = True, console_dying = False, send_notifies = True,
     console_evtchn = 2, c_bound = True, c_log = [], c_got = [], c_clock = 0\<rparr>"


lemma recv_loop_take:
  "recv_loop ki inp cons prd len = take len (ring_data ki inp cons prd)"
proof (induction ki inp cons prd len rule: recv_loop.induct)
  case (2 ki inp cons prd len)
  show ?case
  proof (cases "cons = prd")
    case True
    then show ?thesis by (simp add: ring_data_Nil_iff[of ki inp prd prd, simplified])
  next
    case False
    then have "1 \<le> unat (prd - cons)" by (simp add: unat_gt_0 Suc_le_eq)
    then have "ring_data ki inp (cons + 1) prd = tl (ring_data ki inp cons prd)"
      using ring_drop[of 1 prd cons ki inp] by (simp add: drop_Suc)
    moreover have "ring_data ki inp cons prd ! 0 = inp (mask_idx ki cons)" "ring_data ki inp cons prd \<noteq> []"
      using False ring_data_nth[of 0 prd cons ki inp] by (auto simp: ring_data_Nil_iff unat_gt_0)
    ultimately show ?thesis
      using False 2 by (cases "ring_data ki inp cons prd") auto
  qed
qed simp

definition pending_input :: "nat \<Rightarrow> console \<Rightarrow> u8 list" where
  "pending_input ki s = ring_data ki (xc_in s) (in_cons s) (in_prod s)"

lemma recv_input:
  assumes "length (pending_input ki s) \<le> 2 ^ ki"
  shows "\<exists>s'. xencons_ring_recv ki len s = Inr (take len (pending_input ki s), s') \<and>
    pending_input ki s' = drop len (pending_input ki s)"
proof -
  let ?n = "min (unat (in_prod s - in_cons s)) len"
  have "ring_data ki (xc_in s) (in_cons s + of_nat ?n) (in_prod s) = drop ?n (pending_input ki s)"
    unfolding pending_input_def by (rule ring_drop) simp
  moreover have "drop ?n (pending_input ki s) = drop len (pending_input ki s)"
    by (simp add: pending_input_def min_def)
  ultimately show ?thesis
    using assms
    by (simp add: xencons_ring_recv_def bug_on_def recv_loop_take Let_def xencons_notify_daemon_def
        xc_log_def pending_input_def)
qed

lemma recv_bug: "2 ^ ki < length (pending_input ki s) \<Longrightarrow> xencons_ring_recv ki len s = Inl BUG"
  by (simp add: xencons_ring_recv_def pending_input_def)

text \<open>
  C39. Reading from the console stops with a \<open>BUG\<close> exactly when the indices of the input ring are more
  than its size apart. Otherwise a read that finds input returns the oldest bytes, as many as asked for
  or as there are, and takes exactly those off the ring; a read that finds none waits, and when it is
  scheduled again it returns exactly when it gets input.
\<close>

theorem console_input_exact:
  "if 2 ^ ki < length (pending_input ki s)
   then guk_console_readbytes ki len s = Inl BUG \<and> readbytes_turn ki len s = Inl BUG
   else (\<exists>s'. guk_console_readbytes ki len s =
           Inr (if pending_input ki s = [] then None else Some (take len (pending_input ki s)), s') \<and>
         pending_input ki s' = drop len (pending_input ki s)) \<and>
        (\<exists>s'. readbytes_turn ki len s =
           Inr (if take len (pending_input ki s) = [] then None
                else Some (take len (pending_input ki s)), s') \<and>
         pending_input ki s' = drop len (pending_input ki s))"
proof (cases "2 ^ ki < length (pending_input ki s)")
  case True
  then show ?thesis
    by (simp add: recv_bug readbytes_turn_def guk_console_readbytes_def xencons_ring_avail_def
        pending_input_def)
next
  case False
  then obtain s' where r: "xencons_ring_recv ki len s = Inr (take len (pending_input ki s), s')"
    "pending_input ki s' = drop len (pending_input ki s)"
    using recv_input[of ki s len] by auto
  have l: "pending_input ki (xc_log e t) = pending_input ki t" for e t
    by (simp add: pending_input_def xc_log_def)
  have a: "xencons_ring_avail ki s = Inr (in_prod s - in_cons s)"
    using False by (simp add: xencons_ring_avail_def pending_input_def bug_on_def)
  have e: "pending_input ki s = [] \<longleftrightarrow> in_prod s - in_cons s = 0"
    by (simp add: pending_input_def ring_data_Nil_iff)
  have "\<exists>s'. guk_console_readbytes ki len s =
      Inr (if pending_input ki s = [] then None else Some (take len (pending_input ki s)), s') \<and>
    pending_input ki s' = drop len (pending_input ki s)"
    unfolding guk_console_readbytes_def a e using r e by (auto simp: l)
  moreover have "\<exists>s'. readbytes_turn ki len s =
      Inr (if take len (pending_input ki s) = [] then None else Some (take len (pending_input ki s)), s') \<and>
    pending_input ki s' = drop len (pending_input ki s)"
    unfolding readbytes_turn_def r(1) using r(2) by (simp add: l)
  ultimately show ?thesis using False by simp
qed

end
