(* ===== verification/Guk_Spinlock.thy ===== *)
theory Guk_Spinlock
  imports Guk_Prelude
begin

text \<open>
  Spin locks (\<open>spinlock.c\<close>, \<open>include/guk/spinlock.h\<close>, \<open>include/x86/arch_spinlock.h\<close>). Any number of
  threads take and release one lock; every access to the lock is a step of its own, and the steps of
  different threads interleave freely. A thread is at one of the places of \<open>lock_pc\<close>. The exchange
  instruction of \<open>_raw_spin_trylock\<close> and \<open>_raw_spin_unlock\<close> is atomic. The lemmas show mutual
  exclusion and that the counters and the interrupt mask are those of a lock holder.
\<close>

type_synonym tid = nat

record spinlock =
  slock :: u8
  break_lock :: u32
  spin_count :: u64
  lock_owner :: "tid option"

definition SPIN_LOCK_UNLOCKED :: spinlock where
  "SPIN_LOCK_UNLOCKED = \<lparr>slock = 1, break_lock = 0, spin_count = 0, lock_owner = None\<rparr>"

definition SPIN_LOCK_MAX :: u64 where "SPIN_LOCK_MAX = 100000000"

definition spin_is_locked :: "spinlock \<Rightarrow> bool" where
  "spin_is_locked x \<longleftrightarrow> sint (slock x) \<le> 0"

definition spin_can_lock :: "spinlock \<Rightarrow> bool" where
  "spin_can_lock x \<longleftrightarrow> \<not> spin_is_locked x"

definition raw_spin_unlock :: "spinlock \<Rightarrow> spinlock" where
  "raw_spin_unlock x = x\<lparr>slock := 1\<rparr>"

definition raw_spin_trylock :: "spinlock \<Rightarrow> bool \<times> spinlock" where
  "raw_spin_trylock x = (0 < sint (slock x), x\<lparr>slock := 0\<rparr>)"

text \<open>
  Places in \<open>guk_spin_lock\<close> and \<open>guk_spin_lock_irqsave\<close> (the flag says which): before
  \<open>preempt_disable\<close>, before the attempt, after a failed one, at the \<open>while\<close> of the spinning loop, after
  a successful attempt, holding the lock; and in the unlocking functions after the lock is released.
\<close>

datatype lock_pc =
  Idle | Enter bool | Try bool | Failed bool | Spin bool | Got bool | Holding bool | Released bool | Stuck

record lock_thread =
  lt_pc :: lock_pc
  lt_preempt_count :: int
  lt_lock_count :: int
  lt_flags :: bool

record lock_sys =
  ls_lock :: spinlock
  ls_thread :: "tid \<Rightarrow> lock_thread"
  ls_irqs_off :: "tid \<Rightarrow> bool"

definition lgoto :: "tid \<Rightarrow> lock_pc \<Rightarrow> lock_sys \<Rightarrow> lock_sys" where
  "lgoto t pc s = s\<lparr>ls_thread := (ls_thread s)(t := (ls_thread s t)\<lparr>lt_pc := pc\<rparr>)\<rparr>"

definition add_preempt :: "tid \<Rightarrow> int \<Rightarrow> lock_sys \<Rightarrow> lock_sys" where
  "add_preempt t n s = s\<lparr>ls_thread := (ls_thread s)(t :=
     (ls_thread s t)\<lparr>lt_preempt_count := lt_preempt_count (ls_thread s t) + n\<rparr>)\<rparr>"

definition add_lock_count :: "tid \<Rightarrow> int \<Rightarrow> lock_sys \<Rightarrow> lock_sys" where
  "add_lock_count t n s = s\<lparr>ls_thread := (ls_thread s)(t :=
     (ls_thread s t)\<lparr>lt_lock_count := lt_lock_count (ls_thread s t) + n\<rparr>)\<rparr>"

text \<open>The event mask belongs to the CPU; a thread with preemption disabled stays on its CPU, so the
  mask is kept per thread here.\<close>

definition lirq_save :: "bool \<Rightarrow> tid \<Rightarrow> lock_sys \<Rightarrow> lock_sys" where
  "lirq_save irq t s =
     (if irq then s\<lparr>ls_thread := (ls_thread s)(t := (ls_thread s t)\<lparr>lt_flags := ls_irqs_off s t\<rparr>),
                    ls_irqs_off := (ls_irqs_off s)(t := True)\<rparr>
      else s)"

definition lirq_restore :: "bool \<Rightarrow> tid \<Rightarrow> lock_sys \<Rightarrow> lock_sys" where
  "lirq_restore irq t s =
     (if irq then s\<lparr>ls_irqs_off := (ls_irqs_off s)(t := lt_flags (ls_thread s t))\<rparr> else s)"

definition lock_enter :: "bool \<Rightarrow> tid \<Rightarrow> lock_sys \<Rightarrow> lock_sys" where
  "lock_enter irq t s = lgoto t (Try irq) (lirq_save irq t (add_preempt t 1 s))"

definition lock_try :: "bool \<Rightarrow> tid \<Rightarrow> lock_sys \<Rightarrow> lock_sys" where
  "lock_try irq t s =
     (case raw_spin_trylock (ls_lock s) of (ok, l) \<Rightarrow>
        lgoto t (if ok then Got irq else Failed irq) (s\<lparr>ls_lock := l\<rparr>))"

definition lock_failed :: "bool \<Rightarrow> tid \<Rightarrow> lock_sys \<Rightarrow> lock_sys" where
  "lock_failed irq t s =
     (let s = add_preempt t (- 1) (lirq_restore irq t s);
          l = ls_lock s
      in lgoto t (Spin irq) (s\<lparr>ls_lock := if break_lock l = 0 then l\<lparr>break_lock := 1\<rparr> else l\<rparr>))"

definition lock_spin :: "bool \<Rightarrow> tid \<Rightarrow> lock_sys \<Rightarrow> lock_sys" where
  "lock_spin irq t s =
     (let l = ls_lock s
      in if \<not> spin_can_lock l \<and> break_lock l \<noteq> 0 then
           let l = l\<lparr>spin_count := spin_count l + 1\<rparr>
           in lgoto t (if spin_count l > SPIN_LOCK_MAX then Stuck else Spin irq) (s\<lparr>ls_lock := l\<rparr>)
         else lgoto t (Enter irq) s)"

definition lock_got :: "bool \<Rightarrow> tid \<Rightarrow> lock_sys \<Rightarrow> lock_sys" where
  "lock_got irq t s =
     (let l = (ls_lock s)\<lparr>break_lock := 0, spin_count := 0\<rparr>;
          l = (if irq then l\<lparr>lock_owner := Some t\<rparr> else l)
      in lgoto t (Holding irq) (add_lock_count t 1 (s\<lparr>ls_lock := l\<rparr>)))"

text \<open>\<open>guk_spin_unlock\<close> and \<open>guk_spin_unlock_irqrestore\<close>: up to the release, and what follows it.\<close>

definition unlock_release :: "bool \<Rightarrow> tid \<Rightarrow> lock_sys \<Rightarrow> lock_sys" where
  "unlock_release irq t s =
     (let s = add_lock_count t (- 1) s
      in lgoto t (Released irq) (s\<lparr>ls_lock := raw_spin_unlock (ls_lock s)\<rparr>))"

definition unlock_finish :: "bool \<Rightarrow> tid \<Rightarrow> lock_sys \<Rightarrow> guk_stop + lock_sys" where
  "unlock_finish irq t s =
     (let s = lirq_restore irq t s
      in if lt_lock_count (ls_thread s t) < 0 then Inl BUG
         else Inr (lgoto t Idle (add_preempt t (- 1) s)))"

section \<open>All interleavings\<close>

inductive lock_step :: "lock_sys \<Rightarrow> lock_sys \<Rightarrow> bool" where
  call: "lt_pc (ls_thread s t) = Idle \<Longrightarrow> lock_step s (lgoto t (Enter irq) s)"
| enter: "lt_pc (ls_thread s t) = Enter irq \<Longrightarrow> lock_step s (lock_enter irq t s)"
| attempt: "lt_pc (ls_thread s t) = Try irq \<Longrightarrow> lock_step s (lock_try irq t s)"
| failed: "lt_pc (ls_thread s t) = Failed irq \<Longrightarrow> lock_step s (lock_failed irq t s)"
| spin: "lt_pc (ls_thread s t) = Spin irq \<Longrightarrow> lock_step s (lock_spin irq t s)"
| got: "lt_pc (ls_thread s t) = Got irq \<Longrightarrow> lock_step s (lock_got irq t s)"
| release: "lt_pc (ls_thread s t) = Holding irq \<Longrightarrow> lock_step s (unlock_release irq t s)"
| finish: "lt_pc (ls_thread s t) = Released irq \<Longrightarrow> unlock_finish irq t s = Inr s' \<Longrightarrow> lock_step s s'"

definition lock_init :: "lock_sys \<Rightarrow> bool" where
  "lock_init s \<longleftrightarrow> ls_lock s = SPIN_LOCK_UNLOCKED \<and>
     (\<forall>t. lt_pc (ls_thread s t) = Idle \<and> lt_lock_count (ls_thread s t) = 0 \<and>
          lt_preempt_count (ls_thread s t) = 0 \<and> \<not> ls_irqs_off s t)"

inductive lock_reach :: "lock_sys \<Rightarrow> bool" where
  init: "lock_init s \<Longrightarrow> lock_reach s"
| step: "lock_reach s \<Longrightarrow> lock_step s s' \<Longrightarrow> lock_reach s'"

fun owns :: "lock_pc \<Rightarrow> bool" where
  "owns (Got irq) = True"
| "owns (Holding irq) = True"
| "owns _ = False"

text \<open>What the preemption counter, the lock counter and the event mask of a thread are at each place.\<close>

fun counts :: "lock_pc \<Rightarrow> int \<times> int \<times> bool" where
  "counts (Try irq) = (1, 0, irq)"
| "counts (Failed irq) = (1, 0, irq)"
| "counts (Got irq) = (1, 0, irq)"
| "counts (Holding irq) = (1, 1, irq)"
| "counts (Released irq) = (1, 0, irq)"
| "counts _ = (0, 0, False)"

definition thread_ok :: "lock_sys \<Rightarrow> tid \<Rightarrow> bool" where
  "thread_ok s t \<longleftrightarrow> (let x = ls_thread s t in
     (lt_preempt_count x, lt_lock_count x, ls_irqs_off s t) = counts (lt_pc x) \<and>
     (ls_irqs_off s t \<longrightarrow> \<not> lt_flags x))"

definition lock_inv :: "lock_sys \<Rightarrow> bool" where
  "lock_inv s \<longleftrightarrow> (\<forall>t. thread_ok s t) \<and>
     (slock (ls_lock s) = 1 \<and> (\<forall>t. \<not> owns (lt_pc (ls_thread s t))) \<or>
      slock (ls_lock s) = 0 \<and> (\<exists>!t. owns (lt_pc (ls_thread s t))))"

lemmas lock_ops = lock_enter_def lock_try_def lock_failed_def lock_spin_def lock_got_def
  unlock_release_def unlock_finish_def lgoto_def add_preempt_def add_lock_count_def lirq_save_def
  lirq_restore_def raw_spin_trylock_def raw_spin_unlock_def Let_def

lemma lock_step_cases:
  assumes "lock_step s s'" "lock_inv s"
  obtains t where "thread_ok s' t" "\<And>u. u \<noteq> t \<Longrightarrow> ls_thread s' u = ls_thread s u \<and> ls_irqs_off s' u = ls_irqs_off s u"
    "slock (ls_lock s') = slock (ls_lock s) \<and> owns (lt_pc (ls_thread s' t)) = owns (lt_pc (ls_thread s t)) \<or>
     slock (ls_lock s) = 1 \<and> slock (ls_lock s') = 0 \<and> owns (lt_pc (ls_thread s' t)) \<or>
     owns (lt_pc (ls_thread s t)) \<and> slock (ls_lock s') = 1 \<and> \<not> owns (lt_pc (ls_thread s' t))"
proof -
  have ok: "thread_ok s t" for t using assms(2) by (simp add: lock_inv_def)
  have sl: "slock (ls_lock s) = 0 \<or> slock (ls_lock s) = 1" using assms(2) by (auto simp: lock_inv_def)
  show ?thesis
    using assms(1)
  proof (cases rule: lock_step.cases)
    case (call t irq)
    then show ?thesis using ok[of t] by (intro that[of t]) (auto simp: lock_ops thread_ok_def)
  next
    case (enter t irq)
    then show ?thesis using ok[of t] by (intro that[of t]) (auto simp: lock_ops thread_ok_def)
  next
    case (attempt t irq)
    then show ?thesis using ok[of t] sl by (intro that[of t]) (auto simp: lock_ops thread_ok_def)
  next
    case (failed t irq)
    then show ?thesis using ok[of t] by (intro that[of t]) (auto simp: lock_ops thread_ok_def)
  next
    case (spin t irq)
    then show ?thesis using ok[of t] by (intro that[of t]) (auto simp: lock_ops thread_ok_def)
  next
    case (got t irq)
    then show ?thesis using ok[of t] by (intro that[of t]) (auto simp: lock_ops thread_ok_def)
  next
    case (release t irq)
    then show ?thesis using ok[of t] by (intro that[of t]) (auto simp: lock_ops thread_ok_def)
  next
    case (finish t irq)
    then show ?thesis using ok[of t]
      by (intro that[of t]) (auto simp: lock_ops thread_ok_def split: if_splits)
  qed
qed

lemma lock_step_inv:
  assumes "lock_step s s'" "lock_inv s" shows "lock_inv s'"
proof -
  obtain t where ok: "thread_ok s' t"
    and fr: "\<And>u. u \<noteq> t \<Longrightarrow> ls_thread s' u = ls_thread s u \<and> ls_irqs_off s' u = ls_irqs_off s u"
    and d: "slock (ls_lock s') = slock (ls_lock s) \<and> owns (lt_pc (ls_thread s' t)) = owns (lt_pc (ls_thread s t)) \<or>
     slock (ls_lock s) = 1 \<and> slock (ls_lock s') = 0 \<and> owns (lt_pc (ls_thread s' t)) \<or>
     owns (lt_pc (ls_thread s t)) \<and> slock (ls_lock s') = 1 \<and> \<not> owns (lt_pc (ls_thread s' t))"
    using assms by (rule lock_step_cases) (rule that)
  have all: "thread_ok s' u" for u
    using ok fr[of u] assms(2) by (cases "u = t") (auto simp: lock_inv_def thread_ok_def)
  have o: "owns (lt_pc (ls_thread s' u)) = (if u = t then owns (lt_pc (ls_thread s' t))
    else owns (lt_pc (ls_thread s u)))" for u using fr[of u] by auto
  from d consider
    (same) "slock (ls_lock s') = slock (ls_lock s)" "\<And>u. owns (lt_pc (ls_thread s' u)) = owns (lt_pc (ls_thread s u))"
  | (take) "slock (ls_lock s) = 1" "slock (ls_lock s') = 0" "\<And>u. owns (lt_pc (ls_thread s' u)) = (u = t \<or> owns (lt_pc (ls_thread s u)))"
  | (free) "owns (lt_pc (ls_thread s t))" "slock (ls_lock s') = 1" "\<And>u. owns (lt_pc (ls_thread s' u)) = (u \<noteq> t \<and> owns (lt_pc (ls_thread s u)))"
    using o by (metis (full_types))
  then show ?thesis
    using assms(2) all by cases (auto simp: lock_inv_def)
qed

lemma lock_reach_inv: "lock_reach s \<Longrightarrow> lock_inv s"
proof (induction rule: lock_reach.induct)
  case (init s)
  then show ?case by (auto simp: lock_inv_def lock_init_def thread_ok_def SPIN_LOCK_UNLOCKED_def)
qed (rule lock_step_inv)

text \<open>
  C5. Whatever the interleaving of threads that take and release the lock with or without saving the event mask,
  at most one thread holds it; the holder has preemption disabled, counts exactly one lock, and has events
  masked if it asked for that. The lock byte is free exactly when nobody holds the lock, then the next
  attempt succeeds, and releasing never trips the check of the lock counter.
\<close>

theorem spin_lock_mutual_exclusion:
  assumes "lock_reach s"
  shows "(lt_pc (ls_thread s t) = Holding irq \<and> lt_pc (ls_thread s u) = Holding irq' \<longrightarrow> t = u) \<and>
    (lt_pc (ls_thread s t) = Holding irq \<longrightarrow> lt_preempt_count (ls_thread s t) = 1 \<and>
       lt_lock_count (ls_thread s t) = 1 \<and> ls_irqs_off s t = irq \<and> spin_is_locked (ls_lock s)) \<and>
    (lt_pc (ls_thread s t) = Try irq \<longrightarrow>
       (lt_pc (ls_thread (lock_try irq t s) t) = Got irq \<longleftrightarrow> (\<forall>u. \<not> owns (lt_pc (ls_thread s u))))) \<and>
    (lt_pc (ls_thread s t) = Released irq \<longrightarrow> (\<exists>s'. unlock_finish irq t s = Inr s'))"
proof -
  note inv = lock_reach_inv[OF assms]
  have ok: "thread_ok s t" using inv by (simp add: lock_inv_def)
  have "t = u" if "lt_pc (ls_thread s t) = Holding irq" "lt_pc (ls_thread s u) = Holding irq'"
  proof -
    have "owns (lt_pc (ls_thread s t))" "owns (lt_pc (ls_thread s u))" using that by simp_all
    then show ?thesis using inv by (auto simp: lock_inv_def)
  qed
  moreover have "spin_is_locked (ls_lock s)" if "owns (lt_pc (ls_thread s t))"
    using inv that by (auto simp: lock_inv_def spin_is_locked_def)
  moreover have "lt_pc (ls_thread (lock_try irq t s) t) = Got irq \<longleftrightarrow> (\<forall>u. \<not> owns (lt_pc (ls_thread s u)))"
    using inv by (auto simp: lock_inv_def lock_ops)
  moreover have "\<exists>s'. unlock_finish irq t s = Inr s'" if "lt_pc (ls_thread s t) = Released irq"
    using ok that by (auto simp: thread_ok_def lock_ops)
  ultimately show ?thesis using ok by (auto simp: thread_ok_def Let_def)
qed

definition lock_boot :: lock_sys where
  "lock_boot = \<lparr>ls_lock = SPIN_LOCK_UNLOCKED,
     ls_thread = (\<lambda>_. \<lparr>lt_pc = Idle, lt_preempt_count = 0, lt_lock_count = 0, lt_flags = False\<rparr>),
     ls_irqs_off = (\<lambda>_. False)\<rparr>"

text \<open>Thread 1 takes the lock and thread 2 tries in vain.\<close>

definition lock_run :: lock_sys where
  "lock_run = lock_try False 2 (lock_enter False 2 (lgoto 2 (Enter False)
     (lock_got True 1 (lock_try True 1 (lock_enter True 1 (lgoto 1 (Enter True) lock_boot))))))"

lemma spin_lock_mutual_exclusion_witness:
  "lock_reach lock_run \<and> lt_pc (ls_thread lock_run 1) = Holding True \<and>
    lt_pc (ls_thread lock_run 2) = Failed False \<and> lt_preempt_count (ls_thread lock_run 1) = 1 \<and>
    lt_lock_count (ls_thread lock_run 1) = 1 \<and> ls_irqs_off lock_run 1 \<and> spin_is_locked (ls_lock lock_run)"
proof -
  let ?a = "lgoto 1 (Enter True) lock_boot" let ?b = "lock_enter True 1 ?a" let ?c = "lock_try True 1 ?b"
  let ?d = "lock_got True 1 ?c" let ?e = "lgoto 2 (Enter False) ?d" let ?f = "lock_enter False 2 ?e"
  note ops = lock_boot_def lock_ops SPIN_LOCK_UNLOCKED_def
  have "lock_init lock_boot" by (simp add: lock_init_def lock_boot_def)
  then have "lock_reach lock_boot" by (rule lock_reach.init)
  then have "lock_reach ?a" by (rule lock_reach.step) (rule lock_step.call, simp add: ops)
  then have "lock_reach ?b" by (rule lock_reach.step) (rule lock_step.enter, simp add: ops)
  then have "lock_reach ?c" by (rule lock_reach.step) (rule lock_step.attempt, simp add: ops)
  then have "lock_reach ?d" by (rule lock_reach.step) (rule lock_step.got, simp add: ops)
  then have "lock_reach ?e" by (rule lock_reach.step) (rule lock_step.call, simp add: ops)
  then have "lock_reach ?f" by (rule lock_reach.step) (rule lock_step.enter, simp add: ops)
  then have r: "lock_reach lock_run"
    unfolding lock_run_def by (rule lock_reach.step) (rule lock_step.attempt, simp add: ops)
  have "lt_pc (ls_thread lock_run 1) = Holding True" "lt_pc (ls_thread lock_run 2) = Failed False"
    by (simp_all add: lock_run_def ops)
  then show ?thesis using spin_lock_mutual_exclusion[OF r, of 1 True 1 True] r by simp
qed

end
