(* ===== verification/Guk_Threads.thy ===== *)
theory Guk_Threads
  imports Guk_Prelude Guk_Strings
begin

text \<open>
  Threads of the microkernel (\<open>include/guk/sched.h\<close>, \<open>sched.c\<close>, the thread setup of
  \<open>arch/x86/sched.c\<close> and the CPU states of \<open>smp.c\<close>): the thread structure and its
  flags, the ready, sleep, zombie and joiner queues, blocking, waking, sleeping, joining and
  exiting. The queues are lists of thread pointers: \<open>Guk_Clist\<close> shows that the circular
  lists of \<open>list.h\<close> behave like that as long as a node is linked once, which is part of the
  invariant proved in \<open>Guk_Sched\<close>. A critical section under one of the scheduler's locks is
  one step. What the code outside the scheduler does (the application scheduler, Xen, the
  allocators) is an argument of the operation, and calls to it are recorded in \<open>out\<close>.
\<close>

section \<open>Thread flags\<close>

datatype thread_flag = RUNNABLE | RUNNING | RESCHED | DYING | REQ_DEBUG_SUSPEND | STEPPING
  | DEBUG_SUSPEND | INTERRUPTED | UKERNEL | JOIN | AUX1 | AUX2 | SLEEP | APPSCHED | WATCH

fun FLAG :: "thread_flag \<Rightarrow> u32" where
  "FLAG RUNNABLE = 0x00000001"
| "FLAG RUNNING = 0x00000002"
| "FLAG RESCHED = 0x00000004"
| "FLAG DYING = 0x00000008"
| "FLAG REQ_DEBUG_SUSPEND = 0x00000010"
| "FLAG STEPPING = 0x00000020"
| "FLAG DEBUG_SUSPEND = 0x00000040"
| "FLAG INTERRUPTED = 0x00000080"
| "FLAG UKERNEL = 0x00000100"
| "FLAG JOIN = 0x00000200"
| "FLAG AUX1 = 0x00000400"
| "FLAG AUX2 = 0x00000800"
| "FLAG SLEEP = 0x00001000"
| "FLAG APPSCHED = 0x00002000"
| "FLAG WATCH = 0x00004000"

type_synonym tptr = nat
type_synonym sqptr = nat

record thread =
  t_preempt_count :: u32
  t_flags :: u32
  t_regs :: u64
  t_id :: u16
  t_appsched_id :: u16
  t_guk_stack_allocated :: bool
  t_stack :: u64
  t_stack_size :: u64
  t_timeslice :: u64
  t_resched_running_time :: u64
  t_start_running_time :: u64
  t_cum_running_time :: u64
  t_cpu :: u32
  t_lock_count :: u32
  t_sp :: u64
  t_ip :: u64
  t_specific :: u64
  t_joiners :: "tptr list"

definition flag_test :: "thread_flag \<Rightarrow> thread \<Rightarrow> bool" where
  "flag_test f t \<longleftrightarrow> t_flags t AND FLAG f \<noteq> 0"

definition flag_set :: "thread_flag \<Rightarrow> thread \<Rightarrow> thread" where
  "flag_set f t = t\<lparr>t_flags := t_flags t OR FLAG f\<rparr>"

definition flag_clear :: "thread_flag \<Rightarrow> thread \<Rightarrow> thread" where
  "flag_clear f t = t\<lparr>t_flags := t_flags t AND NOT (FLAG f)\<rparr>"

section \<open>State of the scheduler\<close>

datatype sq_flag = ACTIVE | EXPIRED

fun SQ_FLAG :: "sq_flag \<Rightarrow> u32" where
  "SQ_FLAG ACTIVE = 0x00000001"
| "SQ_FLAG EXPIRED = 0x00000002"

record sleep_queue =
  sq_flags :: u32
  sq_wakeup_time :: u64
  sq_thread :: tptr

definition sq_test :: "sq_flag \<Rightarrow> sleep_queue \<Rightarrow> bool" where
  "sq_test f q \<longleftrightarrow> sq_flags q AND SQ_FLAG f \<noteq> 0"

definition sq_set :: "sq_flag \<Rightarrow> sleep_queue \<Rightarrow> sleep_queue" where
  "sq_set f q = q\<lparr>sq_flags := sq_flags q OR SQ_FLAG f\<rparr>"

definition sq_clear :: "sq_flag \<Rightarrow> sleep_queue \<Rightarrow> sleep_queue" where
  "sq_clear f q = q\<lparr>sq_flags := sq_flags q AND NOT (SQ_FLAG f)\<rparr>"

datatype cpu_state = CPU_DOWN | CPU_UP | CPU_SUSPENDING | CPU_RESUMING | CPU_SLEEPING

datatype sched_effect =
    AttachUpcall u16 u32 u32
  | DetachUpcall u16 u32
  | BlockUpcall u16 u32
  | WakeUpcall u16 u32
  | DescheduleUpcall u32
  | NotifyIpi u32
  | SetTimer u64
  | PreemptSchedule u32
  | InvokeDestroy tptr
  | FreeStackPages u64
  | FreeThreadStack u64 u64
  | FreeThread tptr

record sched =
  thr :: "tptr \<Rightarrow> thread"
  sqs :: "sqptr \<Rightarrow> sleep_queue"
  ready_queue :: "tptr list"
  sleep_list :: "sqptr list"
  zombie_queue :: "tptr list"
  thread_list :: "tptr list"
  upcalls_active :: bool
  scheduler_upcalls_allowed :: bool
  timeslice :: u64
  trace_cpu :: u32
  num_sched_cpus :: u32
  debug_thread_id :: u16
  thread_id :: u16
  smp_init_completed :: bool
  smp_active :: u32
  suspend_count :: u32
  idle_thread :: "u32 \<Rightarrow> tptr"
  current_thread :: "u32 \<Rightarrow> tptr"
  cpu_states :: "u32 \<Rightarrow> cpu_state"
  irqcount :: "u32 \<Rightarrow> u32"
  irqs_off :: "u32 \<Rightarrow> bool"
  stack_mem :: "u64 \<Rightarrow> u64"
  out :: "sched_effect list"

abbreviation has :: "sched \<Rightarrow> thread_flag \<Rightarrow> tptr \<Rightarrow> bool" where
  "has s f t \<equiv> flag_test f (thr s t)"

definition upd :: "tptr \<Rightarrow> (thread \<Rightarrow> thread) \<Rightarrow> sched \<Rightarrow> sched" where
  "upd t f s = s\<lparr>thr := (thr s)(t := f (thr s t))\<rparr>"

definition upd_sq :: "sqptr \<Rightarrow> (sleep_queue \<Rightarrow> sleep_queue) \<Rightarrow> sched \<Rightarrow> sched" where
  "upd_sq q f s = s\<lparr>sqs := (sqs s)(q := f (sqs s q))\<rparr>"

definition emit :: "sched_effect \<Rightarrow> sched \<Rightarrow> sched" where
  "emit e s = s\<lparr>out := out s @ [e]\<rparr>"

text \<open>\<open>list_del_init\<close> of the \<open>ready_list\<close> link takes the thread out of whichever queue it is
  linked into: the ready queue, the zombie queue, or the joiners of some thread.\<close>

definition ready_list_del_init :: "tptr \<Rightarrow> sched \<Rightarrow> sched" where
  "ready_list_del_init t s = s\<lparr>ready_queue := removeAll t (ready_queue s),
     zombie_queue := removeAll t (zombie_queue s),
     thr := (\<lambda>j. (thr s j)\<lparr>t_joiners := removeAll t (t_joiners (thr s j))\<rparr>)\<rparr>"

definition ready_add_tail :: "tptr \<Rightarrow> sched \<Rightarrow> sched" where
  "ready_add_tail t s = s\<lparr>ready_queue := ready_queue s @ [t]\<rparr>"

section \<open>Preemption counter\<close>

definition add_preempt_count :: "tptr \<Rightarrow> u32 \<Rightarrow> sched \<Rightarrow> guk_stop + sched" where
  "add_preempt_count t v s =
     (let n = t_preempt_count (thr s t) + v
      in bug_on (sint n < 0) (upd t (\<lambda>x. x\<lparr>t_preempt_count := n\<rparr>) s))"

definition preempt_disable :: "u32 \<Rightarrow> sched \<Rightarrow> guk_stop + sched" where
  "preempt_disable c s = add_preempt_count (current_thread s c) 1 s"

definition preempt_check_resched :: "u32 \<Rightarrow> sched \<Rightarrow> sched" where
  "preempt_check_resched c s =
     (if has s RESCHED (current_thread s c) then emit (PreemptSchedule c) s else s)"

definition preempt_enable :: "u32 \<Rightarrow> sched \<Rightarrow> guk_stop + sched" where
  "preempt_enable c s = res_bind (add_preempt_count (current_thread s c) (- 1) s)
     (\<lambda>s. Inr (preempt_check_resched c s))"

definition PREEMPT_ACTIVE :: u32 where "PREEMPT_ACTIVE = 0x10000000"

definition is_preemptible :: "thread \<Rightarrow> bool" where
  "is_preemptible t \<longleftrightarrow> t_preempt_count t = 0 \<or> t_preempt_count t = PREEMPT_ACTIVE"

section \<open>Signalling other CPUs\<close>

definition smp_signal_cpu :: "u32 \<Rightarrow> u32 \<Rightarrow> sched \<Rightarrow> sched" where
  "smp_signal_cpu c cpu s =
     (if smp_init_completed s then
        if cpu \<noteq> c \<and> cpu_states s cpu = CPU_SLEEPING then emit (NotifyIpi cpu) s else s
      else s)"

definition guk_kick_cpu :: "u32 \<Rightarrow> u32 \<Rightarrow> sched \<Rightarrow> sched" where
  "guk_kick_cpu c cpu s =
     (if 0 \<le> sint cpu \<and> smp_init_completed s then smp_signal_cpu c cpu s else s)"

section \<open>Blocking and waking\<close>

definition block :: "u32 \<Rightarrow> tptr \<Rightarrow> sched \<Rightarrow> guk_stop + sched" where
  "block c t s =
     (if has s RUNNABLE t then
        if upcalls_active s \<and> has s APPSCHED t then
          res_bind (preempt_disable c s) (\<lambda>s.
          preempt_enable c
            (emit (BlockUpcall (t_appsched_id (thr s t)) c) (upd t (flag_clear RUNNABLE) s)))
        else Inr (ready_list_del_init t (upd t (flag_clear RUNNABLE) s))
      else Inr s)"

definition db_wake :: "u32 \<Rightarrow> tptr \<Rightarrow> sched \<Rightarrow> guk_stop + sched" where
  "db_wake c t s = res_bind
     (if upcalls_active s \<and> has s APPSCHED t then
        res_bind (preempt_disable c s) (\<lambda>s.
        preempt_enable c
          (emit (WakeUpcall (t_appsched_id (thr s t)) c) (upd t (flag_set RUNNABLE) s)))
      else if \<not> has s RUNNABLE t then Inr (ready_add_tail t (upd t (flag_set RUNNABLE) s))
      else Inr s)
     (\<lambda>s. Inr (if t_cpu (thr s t) \<noteq> c then guk_kick_cpu c (t_cpu (thr s t)) s else s))"

definition guk_wake :: "u32 \<Rightarrow> tptr \<Rightarrow> sched \<Rightarrow> guk_stop + sched" where
  "guk_wake c t s =
     (let s = upd t (\<lambda>x. x\<lparr>t_regs := 0\<rparr>) s
      in if has s DEBUG_SUSPEND t then Inr s
         else if has s REQ_DEBUG_SUSPEND t then
           Inr (upd t (flag_set DEBUG_SUSPEND \<circ> flag_clear REQ_DEBUG_SUSPEND) s)
         else if has s DYING t then Inl BUG
         else if \<not> has s RUNNABLE t \<or> (upcalls_active s \<and> has s APPSCHED t) then db_wake c t s
         else Inr s)"

section \<open>The sleep queue\<close>

text \<open>\<open>s_time_t\<close> is a signed 64-bit count of nanoseconds.\<close>

fun sleep_insert :: "(sqptr \<Rightarrow> sleep_queue) \<Rightarrow> sqptr \<Rightarrow> sqptr list \<Rightarrow> sqptr list" where
  "sleep_insert m q [] = [q]"
| "sleep_insert m q (e # es) =
     (if sint (sq_wakeup_time (m e)) > sint (sq_wakeup_time (m q)) then q # e # es
      else e # sleep_insert m q es)"

definition guk_sleep_queue_add :: "sqptr \<Rightarrow> sched \<Rightarrow> sched" where
  "guk_sleep_queue_add q s =
     upd_sq q (sq_set ACTIVE) (s\<lparr>sleep_list := sleep_insert (sqs s) q (sleep_list s)\<rparr>)"

definition guk_sleep_queue_del :: "sqptr \<Rightarrow> sched \<Rightarrow> sched" where
  "guk_sleep_queue_del q s =
     upd_sq q (sq_clear ACTIVE) (s\<lparr>sleep_list := removeAll q (sleep_list s)\<rparr>)"

definition SECONDS :: "u64 \<Rightarrow> u64" where "SECONDS n = n * 1000000000"
definition MILLISECS :: "u64 \<Rightarrow> u64" where "MILLISECS n = n * 1000000"
definition MAX_SLEEP :: u64 where "MAX_SLEEP = 10"

definition blocking_time :: "u32 \<Rightarrow> u64 \<Rightarrow> u64 \<Rightarrow> sched \<Rightarrow> u64" where
  "blocking_time cpu orig now s =
     (let w = (case sleep_list s of
          [] \<Rightarrow> now + SECONDS MAX_SLEEP
        | q # _ \<Rightarrow>
            if has s UKERNEL (sq_thread (sqs s q)) \<or> t_cpu (thr s (sq_thread (sqs s q))) = cpu
            then sq_wakeup_time (sqs s q) else now + SECONDS MAX_SLEEP)
      in if sint w < sint orig then - 1 else w)"

fun wake_expired_loop :: "u32 \<Rightarrow> u64 \<Rightarrow> sqptr list \<Rightarrow> sched \<Rightarrow> guk_stop + sched" where
  "wake_expired_loop c now [] s = Inr s"
| "wake_expired_loop c now (q # qs) s =
     (if sq_test EXPIRED (sqs s q) then wake_expired_loop c now qs s
      else if sint (sq_wakeup_time (sqs s q)) \<le> sint now then
        res_bind (guk_wake c (sq_thread (sqs s q)) (upd_sq q (sq_set EXPIRED) s))
          (wake_expired_loop c now qs)
      else Inr s)"

definition wake_expired :: "u32 \<Rightarrow> u64 \<Rightarrow> sched \<Rightarrow> guk_stop + sched" where
  "wake_expired c now s = wake_expired_loop c now (sleep_list s) s"

text \<open>Timers: \<open>guk_create_timer\<close> does not test the result of \<open>xmalloc\<close>, so a failed
  allocation writes through the null pointer.\<close>

definition init_sleep_queue :: "sqptr \<Rightarrow> sched \<Rightarrow> sched" where
  "init_sleep_queue q s = upd_sq q (\<lambda>x. x\<lparr>sq_flags := 0\<rparr>) s"

definition guk_create_timer :: "sqptr option \<Rightarrow> sched \<Rightarrow> guk_stop + sqptr \<times> sched" where
  "guk_create_timer xm s =
     (case xm of None \<Rightarrow> Inl FAULT | Some q \<Rightarrow> Inr (q, init_sleep_queue q s))"

definition guk_add_timer :: "u32 \<Rightarrow> u64 \<Rightarrow> sqptr \<Rightarrow> u64 \<Rightarrow> sched \<Rightarrow> sched" where
  "guk_add_timer c now q timeout s =
     guk_sleep_queue_add q (upd_sq q (\<lambda>x. x\<lparr>sq_thread := current_thread s c,
       sq_wakeup_time := now + timeout * 1000000\<rparr>) s)"

definition guk_remove_timer :: "sqptr \<Rightarrow> sched \<Rightarrow> int \<times> sched" where
  "guk_remove_timer q s =
     (let s = guk_sleep_queue_del q s
      in if sq_test EXPIRED (sqs s q) then (1, upd_sq q (sq_clear EXPIRED) s) else (0, s))"

text \<open>\<open>guk_nanosleep\<close> up to its call of \<open>schedule\<close>, and what the thread does once it runs
  again; the sleep queue object is on its stack.\<close>

definition guk_nanosleep :: "u32 \<Rightarrow> u64 \<Rightarrow> sqptr \<Rightarrow> u64 \<Rightarrow> sched \<Rightarrow> guk_stop + sched" where
  "guk_nanosleep c now q nanosecs s =
     (let t = current_thread s c;
          s = upd_sq q (\<lambda>x. x\<lparr>sq_flags := 0, sq_thread := t\<rparr>) s
      in res_bind (preempt_disable c s) (\<lambda>s.
         res_bind (block c t s) (\<lambda>s.
         let s = upd_sq q (\<lambda>x. x\<lparr>sq_wakeup_time := now + nanosecs\<rparr>) s;
             s = upd t (flag_set SLEEP) s;
             s = guk_sleep_queue_add q s
         in preempt_enable c s)))"

definition nanosleep_return :: "tptr \<Rightarrow> sqptr \<Rightarrow> sched \<Rightarrow> int \<times> sched" where
  "nanosleep_return t q s =
     (let s = (if has s SLEEP t then guk_sleep_queue_del q (upd t (flag_clear SLEEP) s) else s);
          s = upd_sq q (sq_clear EXPIRED) s
      in if has s INTERRUPTED t then (- 1, upd t (flag_clear INTERRUPTED) s) else (0, s))"

definition guk_sleep :: "u32 \<Rightarrow> u64 \<Rightarrow> sqptr \<Rightarrow> u32 \<Rightarrow> sched \<Rightarrow> guk_stop + sched" where
  "guk_sleep c now q millisecs s = guk_nanosleep c now q (MILLISECS (ucast millisecs)) s"

section \<open>Joining, exiting and reaping\<close>

definition guk_join_thread :: "u32 \<Rightarrow> tptr \<Rightarrow> sched \<Rightarrow> guk_stop + bool \<times> sched" where
  "guk_join_thread c joinee s =
     (let t = current_thread s c
      in if \<not> has s DYING t then
           res_bind (block c t (upd t (\<lambda>x. x\<lparr>t_regs := 0\<rparr>) s)) (\<lambda>s.
           Inr (True, upd joinee (\<lambda>x. x\<lparr>t_joiners := t_joiners x @ [t]\<rparr>)
                        (upd t (flag_set JOIN) s)))
         else Inr (False, s))"

definition join_return :: "tptr \<Rightarrow> sched \<Rightarrow> int \<times> sched" where
  "join_return t s =
     (if has s INTERRUPTED t then (- 1, upd t (flag_clear INTERRUPTED) s) else (0, s))"

fun wake_joiners_loop :: "u32 \<Rightarrow> tptr list \<Rightarrow> sched \<Rightarrow> guk_stop + sched" where
  "wake_joiners_loop c [] s = Inr s"
| "wake_joiners_loop c (t # ts) s =
     res_bind (guk_wake c t (ready_list_del_init t (upd t (flag_clear JOIN) s)))
       (wake_joiners_loop c ts)"

definition wake_joiners :: "u32 \<Rightarrow> tptr \<Rightarrow> sched \<Rightarrow> guk_stop + sched" where
  "wake_joiners c joinee s = wake_joiners_loop c (t_joiners (thr s joinee)) s"

definition reap_thread :: "u32 \<Rightarrow> tptr \<Rightarrow> sched \<Rightarrow> guk_stop + sched" where
  "reap_thread c t s =
     res_bind (let s = ready_list_del_init t s
               in if t_joiners (thr s t) \<noteq> [] then wake_joiners c t s else Inr s) (\<lambda>s.
     let s = (if t_guk_stack_allocated (thr s t) then emit (FreeStackPages (t_stack (thr s t))) s
              else emit (FreeThreadStack (t_stack (thr s t)) (t_stack_size (thr s t))) s);
         s = s\<lparr>thread_list := removeAll t (thread_list s)\<rparr>
     in Inr (emit (FreeThread t) s))"

fun reap_loop :: "u32 \<Rightarrow> tptr list \<Rightarrow> sched \<Rightarrow> guk_stop + sched" where
  "reap_loop c [] s = Inr s"
| "reap_loop c (t # ts) s =
     res_bind (if has s DYING t then
                 if \<not> has s RUNNING t \<and> t_cpu (thr s t) = c then reap_thread c t s else Inr s
               else Inr s)
       (reap_loop c ts)"

definition reap_dead :: "u32 \<Rightarrow> sched \<Rightarrow> guk_stop + sched" where
  "reap_dead c s = reap_loop c (zombie_queue s) s"

definition exit_thread :: "u32 \<Rightarrow> sched \<Rightarrow> guk_stop + sched" where
  "exit_thread c s =
     (let t = current_thread s c;
          s = (if \<not> has s UKERNEL t then emit (InvokeDestroy t) s else s)
      in res_bind (preempt_disable c s) (\<lambda>s.
         if \<not> has s RUNNING t then Inl BUG else
         res_bind (block c t s) (\<lambda>s.
         let s = upd t (flag_set DYING) s;
             s = s\<lparr>zombie_queue := zombie_queue s @ [t]\<rparr>
         in res_bind (if t_joiners (thr s t) \<noteq> [] then wake_joiners c t s else Inr s)
              (preempt_enable c))))"

definition guk_interrupt :: "u32 \<Rightarrow> tptr \<Rightarrow> sched \<Rightarrow> guk_stop + sched" where
  "guk_interrupt c t s =
     (if \<not> (has s RUNNABLE t \<or> has s RUNNING t \<or> has s DYING t) then
        let s = (if has s JOIN t then upd t (flag_clear JOIN) (ready_list_del_init t s) else s)
        in guk_wake c t (upd t (flag_set INTERRUPTED) s)
      else Inr s)"

section \<open>Application scheduler\<close>

definition guk_register_upcalls :: "sched \<Rightarrow> int \<times> sched" where
  "guk_register_upcalls s =
     (if scheduler_upcalls_allowed s \<and> \<not> upcalls_active s then (0, s\<lparr>upcalls_active := True\<rparr>)
      else (1, s))"

definition guk_attach_to_appsched :: "u32 \<Rightarrow> tptr \<Rightarrow> u16 \<Rightarrow> sched \<Rightarrow> guk_stop + sched" where
  "guk_attach_to_appsched c t i s =
     (if upcalls_active s then
        res_bind (preempt_disable c s) (\<lambda>s.
        res_bind (block c t s) (\<lambda>s.
        let s = upd t (\<lambda>x. (flag_set RUNNABLE (flag_set APPSCHED x))\<lparr>t_appsched_id := i\<rparr>) s
        in preempt_enable c (emit (AttachUpcall i (t_cpu (thr s t)) c) s)))
      else Inr s)"

definition guk_detach_from_appsched :: "u32 \<Rightarrow> tptr \<Rightarrow> sched \<Rightarrow> guk_stop + sched" where
  "guk_detach_from_appsched c t s =
     (if upcalls_active s then
        res_bind (preempt_disable c s) (\<lambda>s.
        let s = emit (DetachUpcall (t_appsched_id (thr s t)) c) s;
            s = upd t (\<lambda>x. flag_clear RUNNABLE ((flag_clear APPSCHED x)\<lparr>t_appsched_id := - 1\<rparr>)) s
        in res_bind (guk_wake c t s) (preempt_enable c))
      else Inr s)"

section \<open>Creating threads\<close>

text \<open>Addresses of code and of the shared local space, fixed at link time.\<close>

record code_addrs =
  a_idle_thread_fn :: u64
  a_idle_thread_starter :: u64
  a_thread_starter :: u64
  a_local_space :: u64

definition STACK_SIZE :: u64 where "STACK_SIZE = 4096 * push_bit 2 1"

definition stack_push :: "tptr \<Rightarrow> u64 \<Rightarrow> sched \<Rightarrow> sched" where
  "stack_push t v s =
     (let s = upd t (\<lambda>x. x\<lparr>t_sp := t_sp x - 8\<rparr>) s
      in s\<lparr>stack_mem := (stack_mem s)(t_sp (thr s t) := v)\<rparr>)"

text \<open>\<open>xm\<close> is what \<open>xmalloc\<close> returns for the thread structure, \<open>pages\<close> what
  \<open>alloc_pages\<close> returns for the stack, 0 being the null pointer.\<close>

definition arch_create_thread ::
  "code_addrs \<Rightarrow> tptr option \<Rightarrow> u64 \<Rightarrow> u64 \<Rightarrow> u64 \<Rightarrow> u64 \<Rightarrow> u64 \<Rightarrow> sched \<Rightarrow> tptr option \<times> sched" where
  "arch_create_thread A xm pages function stack stack_size data s =
     (case xm of None \<Rightarrow> (None, s)
      | Some t \<Rightarrow>
          if stack = 0 \<and> pages = 0 then (None, emit (FreeThread t) s)
          else
            let s = (if stack \<noteq> 0 then upd t (\<lambda>x. x\<lparr>t_stack := stack,
                       t_guk_stack_allocated := False, t_stack_size := stack_size\<rparr>) s
                     else upd t (\<lambda>x. x\<lparr>t_stack := pages,
                       t_guk_stack_allocated := True, t_stack_size := STACK_SIZE\<rparr>) s);
                s = upd t (\<lambda>x. x\<lparr>t_specific := 0, t_sp := t_stack x + t_stack_size x\<rparr>) s;
                s = stack_push t data (stack_push t function (stack_push t (a_local_space A) s));
                s = upd t (\<lambda>x. x\<lparr>t_ip := (if function = a_idle_thread_fn A
                      then a_idle_thread_starter A else a_thread_starter A)\<rparr>) s
            in (Some t, s))"

text \<open>\<open>fpage\<close> is the page \<open>alloc_page\<close> returns for the floating point area and
  \<open>pick_cpu\<close> the answer of the application scheduler.\<close>

definition init_thread :: "u32 \<Rightarrow> u32 \<Rightarrow> u64 \<Rightarrow> u16 \<Rightarrow> thread \<Rightarrow> thread" where
  "init_thread flags cpu ts i x = flag_clear RUNNING (x\<lparr>t_flags := flags, t_regs := 0, t_cpu := cpu,
     t_preempt_count := 0, t_resched_running_time := 0, t_cum_running_time := 0,
     t_timeslice := ts, t_lock_count := 0, t_appsched_id := - 1, t_joiners := [], t_id := i\<rparr>)"

definition create_thread_with_id_stack ::
  "u32 \<Rightarrow> code_addrs \<Rightarrow> tptr option \<Rightarrow> u64 \<Rightarrow> u64 \<Rightarrow> u32 \<Rightarrow>
   u64 \<Rightarrow> u32 \<Rightarrow> u64 \<Rightarrow> u64 \<Rightarrow> u64 \<Rightarrow> u16 \<Rightarrow> sched \<Rightarrow> guk_stop + tptr option \<times> sched" where
  "create_thread_with_id_stack c A xm pages fpage pick_cpu function flags stack stack_size data i s =
     (case arch_create_thread A xm pages function stack stack_size data s of
        (None, s) \<Rightarrow> Inr (None, s)
      | (Some t, s) \<Rightarrow>
          if fpage = 0 then Inr (None, upd t (\<lambda>x. x\<lparr>t_flags := flags, t_regs := 0\<rparr>) s)
          else
            let cpu = (if stack = 0 \<or> \<not> upcalls_active s then - 1 else pick_cpu);
                s = upd t (init_thread flags cpu (timeslice s) i) s;
                s = s\<lparr>thread_list := thread_list s @ [t]\<rparr>
            in if i = 0 then Inl BUG
               else res_bind (guk_wake c t s) (\<lambda>s. Inr (Some t, s)))"

definition guk_create_thread_with_stack ::
  "u32 \<Rightarrow> code_addrs \<Rightarrow> tptr option \<Rightarrow> u64 \<Rightarrow> u64 \<Rightarrow> u32 \<Rightarrow>
   u64 \<Rightarrow> u32 \<Rightarrow> u64 \<Rightarrow> u64 \<Rightarrow> u64 \<Rightarrow> sched \<Rightarrow> guk_stop + tptr option \<times> sched" where
  "guk_create_thread_with_stack c A xm pages fpage pick_cpu function flags stack stack_size data s =
     create_thread_with_id_stack c A xm pages fpage pick_cpu function flags stack stack_size data
       (thread_id s) (s\<lparr>thread_id := thread_id s + 1\<rparr>)"

definition create_thread ::
  "u32 \<Rightarrow> code_addrs \<Rightarrow> tptr option \<Rightarrow> u64 \<Rightarrow> u64 \<Rightarrow> u64 \<Rightarrow> u32 \<Rightarrow> u64 \<Rightarrow> sched \<Rightarrow>
   guk_stop + tptr option \<times> sched" where
  "create_thread c A xm pages fpage function flags data s =
     guk_create_thread_with_stack c A xm pages fpage 0 function flags 0 0 data s"

definition create_debug_thread ::
  "u32 \<Rightarrow> code_addrs \<Rightarrow> tptr option \<Rightarrow> u64 \<Rightarrow> u64 \<Rightarrow> u64 \<Rightarrow> u64 \<Rightarrow> sched \<Rightarrow>
   guk_stop + tptr option \<times> sched" where
  "create_debug_thread c A xm pages fpage function data s =
     create_thread_with_id_stack c A xm pages fpage 0 function (FLAG UKERNEL) 0 0 data
       (debug_thread_id s) (s\<lparr>debug_thread_id := debug_thread_id s + 1\<rparr>)"

definition create_idle_thread ::
  "code_addrs \<Rightarrow> tptr option \<Rightarrow> u64 \<Rightarrow> u64 \<Rightarrow> u32 \<Rightarrow> sched \<Rightarrow> guk_stop + tptr \<times> sched" where
  "create_idle_thread A xm pages fpage cpu s =
     (case arch_create_thread A xm pages (a_idle_thread_fn A) 0 0 (ucast cpu) s of
        (None, s) \<Rightarrow> Inl FAULT
      | (Some t, s) \<Rightarrow> if fpage = 0 then Inl FAULT else
          Inr (t, upd t (\<lambda>x. flag_set RUNNING (x\<lparr>t_flags := FLAG UKERNEL, t_regs := 0, t_cpu := cpu,
            t_preempt_count := 1, t_resched_running_time := 0, t_lock_count := 0,
            t_appsched_id := - 1, t_joiners := [], t_id := ucast cpu\<rparr>)) s))"

section \<open>Queries and settings\<close>

fun get_thread_by_id_loop :: "(tptr \<Rightarrow> thread) \<Rightarrow> u16 \<Rightarrow> tptr list \<Rightarrow> tptr option" where
  "get_thread_by_id_loop m i [] = None"
| "get_thread_by_id_loop m i (t # ts) =
     (if t_id (m t) = i then Some t else get_thread_by_id_loop m i ts)"

definition get_thread_by_id :: "u16 \<Rightarrow> sched \<Rightarrow> tptr option" where
  "get_thread_by_id i s = get_thread_by_id_loop (thr s) i (thread_list s)"

definition guk_sched_num_cpus :: "sched \<Rightarrow> u32 \<times> sched" where
  "guk_sched_num_cpus s =
     (if 0 < sint (num_sched_cpus s) then (num_sched_cpus s, s)
      else let n = (if 0 < sint (trace_cpu s) then smp_active s - 1 else smp_active s)
           in (n, s\<lparr>num_sched_cpus := n\<rparr>))"

definition guk_set_timeslice :: "tptr \<Rightarrow> u32 \<Rightarrow> sched \<Rightarrow> u32 \<times> sched" where
  "guk_set_timeslice t ms s =
     (ucast (t_timeslice (thr s t)), upd t (\<lambda>x. x\<lparr>t_timeslice := MILLISECS (scast ms)\<rparr>) s)"

definition guk_not_idle_or_stepped :: "u32 \<Rightarrow> sched \<Rightarrow> tptr option" where
  "guk_not_idle_or_stepped c s =
     (let t = current_thread s c
      in if t \<noteq> idle_thread s c \<and> \<not> has s STEPPING t then Some t else None)"

fun runnable_scan :: "sched \<Rightarrow> u32 \<Rightarrow> tptr list \<Rightarrow> bool" where
  "runnable_scan s cpu [] = False"
| "runnable_scan s cpu (t # ts) =
     (if has s RUNNABLE t \<and> \<not> has s RUNNING t \<and> (has s UKERNEL t \<or> t_cpu (thr s t) = cpu)
      then True else runnable_scan s cpu ts)"

text \<open>The preemption counter goes up and down around the upcall of \<open>runnable_threads\<close>; the
  idle thread calls it with interrupts disabled, so nothing is scheduled in between.\<close>

definition runnable_threads :: "u32 \<Rightarrow> (u32 \<Rightarrow> bool) \<Rightarrow> sched \<Rightarrow> bool" where
  "runnable_threads cpu runnable_upcall s =
     (if runnable_scan s cpu (ready_queue s) then True
      else if upcalls_active s then runnable_upcall cpu else False)"

definition init_sched :: "mem \<Rightarrow> nat \<Rightarrow> nat \<Rightarrow> nat \<Rightarrow> nat \<Rightarrow> sched \<Rightarrow> sched option" where
  "init_sched m cmd_line appsched_opt trace_cpu_opt timeslice_opt s =
     Option.bind (strstr m cmd_line appsched_opt) (\<lambda>a.
     Option.bind (num_option m cmd_line trace_cpu_opt) (\<lambda>tc.
     Option.bind (num_option m cmd_line timeslice_opt) (\<lambda>v.
     let s = s\<lparr>scheduler_upcalls_allowed := (a \<noteq> None), trace_cpu := word_of_int tc\<rparr>
     in Some (if 0 < v then s\<lparr>timeslice := MILLISECS (word_of_int v)\<rparr> else s))))"

section \<open>Flags behave like separate booleans\<close>

fun flag_index :: "thread_flag \<Rightarrow> nat" where
  "flag_index RUNNABLE = 0" | "flag_index RUNNING = 1" | "flag_index RESCHED = 2"
| "flag_index DYING = 3" | "flag_index REQ_DEBUG_SUSPEND = 4" | "flag_index STEPPING = 5"
| "flag_index DEBUG_SUSPEND = 6" | "flag_index INTERRUPTED = 7" | "flag_index UKERNEL = 8"
| "flag_index JOIN = 9" | "flag_index AUX1 = 10" | "flag_index AUX2 = 11"
| "flag_index SLEEP = 12" | "flag_index APPSCHED = 13" | "flag_index WATCH = 14"

lemma FLAG_index: "FLAG f = 2 ^ flag_index f" and flag_index_less: "flag_index f < 32"
  by (cases f; simp)+

lemma flag_index_inject: "flag_index f = flag_index g \<longleftrightarrow> f = g"
  by (cases f; cases g; simp)

lemma and_exp_nonzero_iff:
  "(w :: u32) AND 2 ^ n \<noteq> 0 \<longleftrightarrow> n < 32 \<and> bit w n"
proof -
  have "w AND 2 ^ n \<noteq> 0 \<longleftrightarrow> (\<exists>i. bit (w AND 2 ^ n) i)"
    by (metis bit_0_eq bit_eqI bot_apply bot_bool_def)
  also have "\<dots> \<longleftrightarrow> n < 32 \<and> bit w n" by (auto simp: bit_simps)
  finally show ?thesis .
qed

lemma flag_test_bit: "flag_test f t \<longleftrightarrow> bit (t_flags t) (flag_index f)"
  using flag_index_less [of f] by (simp add: flag_test_def FLAG_index and_exp_nonzero_iff)

lemma flag_test_set [simp]: "flag_test f (flag_set g t) \<longleftrightarrow> f = g \<or> flag_test f t"
  using flag_index_less [of f] 
  by (auto simp: flag_test_bit flag_set_def FLAG_index bit_simps flag_index_inject)

lemma flag_test_clear [simp]: "flag_test f (flag_clear g t) \<longleftrightarrow> f \<noteq> g \<and> flag_test f t"
  using flag_index_less [of f] 
  by (auto simp: flag_test_bit flag_clear_def FLAG_index bit_simps flag_index_inject)

lemma flag_test_update [simp]:
  "flag_test f (t\<lparr>t_preempt_count := a\<rparr>) = flag_test f t"
  "flag_test f (t\<lparr>t_regs := b\<rparr>) = flag_test f t"
  "flag_test f (t\<lparr>t_appsched_id := d\<rparr>) = flag_test f t"
  "flag_test f (t\<lparr>t_resched_running_time := b\<rparr>) = flag_test f t"
  "flag_test f (t\<lparr>t_start_running_time := b\<rparr>) = flag_test f t"
  "flag_test f (t\<lparr>t_cum_running_time := b\<rparr>) = flag_test f t"
  "flag_test f (t\<lparr>t_timeslice := b\<rparr>) = flag_test f t"
  "flag_test f (t\<lparr>t_cpu := a\<rparr>) = flag_test f t"
  "flag_test f (t\<lparr>t_stack := b\<rparr>) = flag_test f t"
  "flag_test f (t\<lparr>t_stack_size := b\<rparr>) = flag_test f t"
  "flag_test f (t\<lparr>t_guk_stack_allocated := k\<rparr>) = flag_test f t"
  "flag_test f (t\<lparr>t_specific := b\<rparr>) = flag_test f t"
  "flag_test f (t\<lparr>t_sp := b\<rparr>) = flag_test f t"
  "flag_test f (t\<lparr>t_ip := b\<rparr>) = flag_test f t"
  "flag_test f (t\<lparr>t_joiners := j\<rparr>) = flag_test f t"
  by (simp_all add: flag_test_def)

lemma flag_select [simp]:
  "t_cpu (flag_set f t) = t_cpu t" "t_cpu (flag_clear f t) = t_cpu t"
  "t_joiners (flag_set f t) = t_joiners t" "t_joiners (flag_clear f t) = t_joiners t"
  "t_appsched_id (flag_set f t) = t_appsched_id t"
  "t_appsched_id (flag_clear f t) = t_appsched_id t"
  "t_preempt_count (flag_set f t) = t_preempt_count t"
  "t_preempt_count (flag_clear f t) = t_preempt_count t"
  "t_timeslice (flag_set f t) = t_timeslice t" "t_timeslice (flag_clear f t) = t_timeslice t"
  "t_id (flag_set f t) = t_id t" "t_id (flag_clear f t) = t_id t"
  "t_lock_count (flag_set f t) = t_lock_count t" "t_lock_count (flag_clear f t) = t_lock_count t"
  by (simp_all add: flag_set_def flag_clear_def)

fun sq_index :: "sq_flag \<Rightarrow> nat" where
  "sq_index ACTIVE = 0" | "sq_index EXPIRED = 1"

lemma SQ_FLAG_index: "SQ_FLAG f = 2 ^ sq_index f" and sq_index_less: "sq_index f < 32"
  by (cases f; simp)+

lemma sq_index_inject: "sq_index f = sq_index g \<longleftrightarrow> f = g"
  by (cases f; cases g; simp)

lemma sq_test_bit: "sq_test f q \<longleftrightarrow> bit (sq_flags q) (sq_index f)"
  using sq_index_less [of f] by (simp add: sq_test_def SQ_FLAG_index and_exp_nonzero_iff)

lemma sq_test_set [simp]: "sq_test f (sq_set g q) \<longleftrightarrow> f = g \<or> sq_test f q"
  using sq_index_less [of f]
  by (auto simp: sq_test_bit sq_set_def SQ_FLAG_index bit_simps sq_index_inject)

lemma sq_test_clear [simp]: "sq_test f (sq_clear g q) \<longleftrightarrow> f \<noteq> g \<and> sq_test f q"
  using sq_index_less [of f]
  by (auto simp: sq_test_bit sq_clear_def SQ_FLAG_index bit_simps sq_index_inject)

lemma sq_select [simp]:
  "sq_wakeup_time (sq_set f q) = sq_wakeup_time q" "sq_wakeup_time (sq_clear f q) = sq_wakeup_time q"
  "sq_thread (sq_set f q) = sq_thread q" "sq_thread (sq_clear f q) = sq_thread q"
  by (simp_all add: sq_set_def sq_clear_def)

end
