(* ===== verification/Guk_Sched_Spec.thy ===== *)
theory Guk_Sched_Spec
  imports Guk_Sched
begin

text \<open>
  An abstract scheduler: which threads are runnable, running, dying, joining or under the
  application scheduler as sets, and the queues as lists. \<open>sabs\<close> maps the kernel's state to
  it; the refinement lemmas say what each operation of \<open>sched.c\<close> does to the abstract state, and
  the invariant of the scheduler is stated and kept there.
\<close>

section \<open>Abstract state\<close>

record asched =
  aRunnable :: "tptr set"
  aRunning :: "tptr set"
  aDying :: "tptr set"
  aJoin :: "tptr set"
  aApp :: "tptr set"
  aSusp :: "tptr set"
  aReq :: "tptr set"
  aReady :: "tptr list"
  aZombie :: "tptr list"
  aJoiners :: "tptr \<Rightarrow> tptr list"
  aCpu :: "tptr \<Rightarrow> u32"
  aSleepers :: "tptr set"
  aLive :: "tptr set"
  aUp :: bool
  aIdle :: "u32 \<Rightarrow> tptr"
  aCur :: "u32 \<Rightarrow> tptr"

definition sabs :: "sched \<Rightarrow> asched" where
  "sabs s = \<lparr>aRunnable = {t. has s RUNNABLE t}, aRunning = {t. has s RUNNING t},
     aDying = {t. has s DYING t}, aJoin = {t. has s JOIN t}, aApp = {t. has s APPSCHED t},
     aSusp = {t. has s DEBUG_SUSPEND t}, aReq = {t. has s REQ_DEBUG_SUSPEND t},
     aReady = ready_queue s, aZombie = zombie_queue s, aJoiners = (\<lambda>t. t_joiners (thr s t)),
     aCpu = (\<lambda>t. t_cpu (thr s t)), aSleepers = (\<lambda>q. sq_thread (sqs s q)) ` set (sleep_list s),
     aLive = set (thread_list s), aUp = upcalls_active s, aIdle = idle_thread s, aCur = current_thread s\<rparr>"

lemma sabs_sel [simp]:
  "aRunnable (sabs s) = {t. has s RUNNABLE t}" "aRunning (sabs s) = {t. has s RUNNING t}"
  "aDying (sabs s) = {t. has s DYING t}" "aJoin (sabs s) = {t. has s JOIN t}"
  "aApp (sabs s) = {t. has s APPSCHED t}" "aSusp (sabs s) = {t. has s DEBUG_SUSPEND t}"
  "aReq (sabs s) = {t. has s REQ_DEBUG_SUSPEND t}" "aReady (sabs s) = ready_queue s"
  "aZombie (sabs s) = zombie_queue s" "aJoiners (sabs s) = (\<lambda>t. t_joiners (thr s t))"
  "aCpu (sabs s) = (\<lambda>t. t_cpu (thr s t))"
  "aSleepers (sabs s) = (\<lambda>q. sq_thread (sqs s q)) ` set (sleep_list s)"
  "aLive (sabs s) = set (thread_list s)" "aUp (sabs s) = upcalls_active s" "aIdle (sabs s) = idle_thread s"
  "aCur (sabs s) = current_thread s"
  by (simp_all add: sabs_def)

lemma asched_eqI:
  fixes a b :: asched
  assumes "aRunnable a = aRunnable b" "aRunning a = aRunning b" "aDying a = aDying b"
    "aJoin a = aJoin b" "aApp a = aApp b" "aSusp a = aSusp b" "aReq a = aReq b"
    "aReady a = aReady b" "aZombie a = aZombie b" "aJoiners a = aJoiners b" "aCpu a = aCpu b"
    "aSleepers a = aSleepers b" "aLive a = aLive b" "aUp a = aUp b" "aIdle a = aIdle b" "aCur a = aCur b"
  shows "a = b"
  using assms by simp

section \<open>Abstract operations\<close>

definition a_unlink :: "tptr \<Rightarrow> asched \<Rightarrow> asched" where
  "a_unlink t a = a\<lparr>aReady := removeAll t (aReady a), aZombie := removeAll t (aZombie a),
     aJoiners := (\<lambda>j. removeAll t (aJoiners a j))\<rparr>"

definition a_block :: "tptr \<Rightarrow> asched \<Rightarrow> asched" where
  "a_block t a =
     (if t \<in> aRunnable a then
        if aUp a \<and> t \<in> aApp a then a\<lparr>aRunnable := aRunnable a - {t}\<rparr>
        else a_unlink t (a\<lparr>aRunnable := aRunnable a - {t}\<rparr>)
      else a)"

definition a_ready :: "tptr \<Rightarrow> asched \<Rightarrow> asched" where
  "a_ready t a =
     (if aUp a \<and> t \<in> aApp a then a\<lparr>aRunnable := insert t (aRunnable a)\<rparr>
      else if t \<notin> aRunnable a
      then a\<lparr>aRunnable := insert t (aRunnable a), aReady := aReady a @ [t]\<rparr> else a)"

definition a_wake :: "tptr \<Rightarrow> asched \<Rightarrow> asched" where
  "a_wake t a =
     (if t \<in> aSusp a then a
      else if t \<in> aReq a then a\<lparr>aSusp := insert t (aSusp a), aReq := aReq a - {t}\<rparr>
      else a_ready t a)"

section \<open>What the primitive updates do to the abstract state\<close>

lemma flag_set_cases [simp]:
  "{u. flag_test f ((m(t := flag_set g x)) u)} =
     (if f = g then insert t {u. flag_test f ((m(t := x)) u)} else {u. flag_test f ((m(t := x)) u)})"
  by auto

lemma sabs_emit [simp]: "sabs (emit e s) = sabs s"
  by (simp add: sabs_def emit_def)

lemma sabs_upd_same:
  assumes "\<And>f. flag_test f (g (thr s t)) = has s f t" "t_cpu (g (thr s t)) = t_cpu (thr s t)"
    "t_joiners (g (thr s t)) = t_joiners (thr s t)"
  shows "sabs (upd t g s) = sabs s"
  using assms by (auto simp: sabs_def upd_def fun_eq_iff)

lemma thr_upd [simp]: "thr (upd t g s) = (thr s)(t := g (thr s t))"
  by (simp add: upd_def)

lemma upd_sel [simp]:
  "sqs (upd t g s) = sqs s" "ready_queue (upd t g s) = ready_queue s"
  "sleep_list (upd t g s) = sleep_list s" "zombie_queue (upd t g s) = zombie_queue s"
  "upcalls_active (upd t g s) = upcalls_active s" "idle_thread (upd t g s) = idle_thread s"
  "current_thread (upd t g s) = current_thread s" "irqs_off (upd t g s) = irqs_off s"
  "thread_id (upd t g s) = thread_id s" "thread_list (upd t g s) = thread_list s"
  "cpu_states (upd t g s) = cpu_states s" "irqcount (upd t g s) = irqcount s"
  "smp_init_completed (upd t g s) = smp_init_completed s"
  by (simp_all add: upd_def)

lemma emit_sel [simp]:
  "thr (emit e s) = thr s" "sqs (emit e s) = sqs s" "ready_queue (emit e s) = ready_queue s"
  "sleep_list (emit e s) = sleep_list s" "zombie_queue (emit e s) = zombie_queue s"
  "upcalls_active (emit e s) = upcalls_active s" "idle_thread (emit e s) = idle_thread s"
  "current_thread (emit e s) = current_thread s" "irqs_off (emit e s) = irqs_off s"
  "thread_id (emit e s) = thread_id s" "thread_list (emit e s) = thread_list s"
  "cpu_states (emit e s) = cpu_states s" "irqcount (emit e s) = irqcount s"
  "smp_init_completed (emit e s) = smp_init_completed s"
  by (simp_all add: emit_def)

lemma sabs_set_RUNNABLE:
  "sabs (upd t (flag_set RUNNABLE) s) = (sabs s)\<lparr>aRunnable := insert t {u. has s RUNNABLE u}\<rparr>"
  by (auto simp: sabs_def fun_eq_iff)

lemma sabs_clear_RUNNABLE:
  "sabs (upd t (flag_clear RUNNABLE) s) = (sabs s)\<lparr>aRunnable := {u. has s RUNNABLE u} - {t}\<rparr>"
  by (auto simp: sabs_def fun_eq_iff)

lemma sabs_set_RUNNING:
  "sabs (upd t (flag_set RUNNING) s) = (sabs s)\<lparr>aRunning := insert t {u. has s RUNNING u}\<rparr>"
  by (auto simp: sabs_def fun_eq_iff)

lemma sabs_clear_RUNNING:
  "sabs (upd t (flag_clear RUNNING) s) = (sabs s)\<lparr>aRunning := {u. has s RUNNING u} - {t}\<rparr>"
  by (auto simp: sabs_def fun_eq_iff)

lemma sabs_set_DYING:
  "sabs (upd t (flag_set DYING) s) = (sabs s)\<lparr>aDying := insert t {u. has s DYING u}\<rparr>"
  by (auto simp: sabs_def fun_eq_iff)

lemma sabs_set_JOIN:
  "sabs (upd t (flag_set JOIN) s) = (sabs s)\<lparr>aJoin := insert t {u. has s JOIN u}\<rparr>"
  by (auto simp: sabs_def fun_eq_iff)

lemma sabs_clear_JOIN:
  "sabs (upd t (flag_clear JOIN) s) = (sabs s)\<lparr>aJoin := {u. has s JOIN u} - {t}\<rparr>"
  by (auto simp: sabs_def fun_eq_iff)

lemma sabs_set_other:
  "f \<in> {RESCHED, STEPPING, INTERRUPTED, SLEEP} \<Longrightarrow> sabs (upd t (flag_set f) s) = sabs s"
  "f \<in> {RESCHED, STEPPING, INTERRUPTED, SLEEP} \<Longrightarrow> sabs (upd t (flag_clear f) s) = sabs s"
  by (auto simp: sabs_def fun_eq_iff)

lemma sabs_unlink: "sabs (ready_list_del_init t s) = a_unlink t (sabs s)"
  by (simp add: sabs_def ready_list_del_init_def a_unlink_def)

lemma ready_list_del_init_sel [simp]:
  "has (ready_list_del_init t s) f u = has s f u"
  "t_cpu (thr (ready_list_del_init t s) u) = t_cpu (thr s u)"
  "ready_queue (ready_list_del_init t s) = removeAll t (ready_queue s)"
  "thread_list (ready_list_del_init t s) = thread_list s"
  "thread_id (ready_list_del_init t s) = thread_id s"
  "upcalls_active (ready_list_del_init t s) = upcalls_active s"
  "idle_thread (ready_list_del_init t s) = idle_thread s"
  "current_thread (ready_list_del_init t s) = current_thread s"
  by (simp_all add: ready_list_del_init_def)

lemma ready_add_tail_sel [simp]:
  "thr (ready_add_tail t s) = thr s" "ready_queue (ready_add_tail t s) = ready_queue s @ [t]"
  "thread_list (ready_add_tail t s) = thread_list s" "thread_id (ready_add_tail t s) = thread_id s"
  "upcalls_active (ready_add_tail t s) = upcalls_active s"
  "idle_thread (ready_add_tail t s) = idle_thread s"
  "current_thread (ready_add_tail t s) = current_thread s"
  by (simp_all add: ready_add_tail_def)

lemma sabs_ready_add: "sabs (ready_add_tail t s) = (sabs s)\<lparr>aReady := ready_queue s @ [t]\<rparr>"
  by (simp add: sabs_def ready_add_tail_def)

lemma sabs_upd_sq_same:
  "(q \<in> set (sleep_list s) \<Longrightarrow> sq_thread (g (sqs s q)) = sq_thread (sqs s q)) \<Longrightarrow>
   sabs (upd_sq q g s) = sabs s"
proof -
  assume "q \<in> set (sleep_list s) \<Longrightarrow> sq_thread (g (sqs s q)) = sq_thread (sqs s q)"
  then have "(\<lambda>x. sq_thread (((sqs s)(q := g (sqs s q))) x)) ` set (sleep_list s) =
      (\<lambda>x. sq_thread (sqs s x)) ` set (sleep_list s)"
    by (intro image_cong) auto
  then show ?thesis by (simp add: sabs_def upd_sq_def)
qed

lemma upd_sq_sel [simp]:
  "thr (upd_sq q g s) = thr s" "sqs (upd_sq q g s) = (sqs s)(q := g (sqs s q))"
  "ready_queue (upd_sq q g s) = ready_queue s" "sleep_list (upd_sq q g s) = sleep_list s"
  "current_thread (upd_sq q g s) = current_thread s" "idle_thread (upd_sq q g s) = idle_thread s"
  "zombie_queue (upd_sq q g s) = zombie_queue s" "upcalls_active (upd_sq q g s) = upcalls_active s"
  "thread_list (upd_sq q g s) = thread_list s" "thread_id (upd_sq q g s) = thread_id s"
  "cpu_states (upd_sq q g s) = cpu_states s" "irqs_off (upd_sq q g s) = irqs_off s"
  "irqcount (upd_sq q g s) = irqcount s"
  "smp_init_completed (upd_sq q g s) = smp_init_completed s"
  by (simp_all add: upd_sq_def)

section \<open>Frame: what the queue operations leave alone\<close>

definition core where
  "core s = (sleep_list s, sqs s, thread_list s, thread_id s, cpu_states s, irqs_off s, irqcount s,
     smp_init_completed s, idle_thread s, current_thread s, upcalls_active s)"

lemma coreD:
  assumes "core s' = core s"
  shows "sleep_list s' = sleep_list s" "sqs s' = sqs s" "thread_list s' = thread_list s"
    "thread_id s' = thread_id s" "cpu_states s' = cpu_states s" "irqs_off s' = irqs_off s"
    "irqcount s' = irqcount s" "smp_init_completed s' = smp_init_completed s"
    "idle_thread s' = idle_thread s" "current_thread s' = current_thread s"
    "upcalls_active s' = upcalls_active s"
  using assms by (simp_all add: core_def)

lemma core_basic [simp]:
  "core (upd t g s)  = core s" "core (emit e s) = core s" "core (ready_list_del_init t s) = core s"
  "core (ready_add_tail t s) = core s" "core (guk_kick_cpu c cpu s) = core s"
  by (simp_all add: core_def upd_def emit_def ready_list_del_init_def ready_add_tail_def
      guk_kick_cpu_def smp_signal_cpu_def)

lemma core_add_preempt: "add_preempt_count t v s = Inr s' \<Longrightarrow> core s' = core s"
  by (auto simp: add_preempt_count_def Let_def bug_on_def split: if_splits)

lemma core_preempt: "preempt_disable c s = Inr s' \<Longrightarrow> core s' = core s"
  "preempt_enable c s = Inr s' \<Longrightarrow> core s' = core s"
  by (auto simp: preempt_disable_def preempt_enable_def preempt_check_resched_def res_bind_Inr_iff
      dest: core_add_preempt split: if_splits)

lemma core_block: "block c t s = Inr s' \<Longrightarrow> core s' = core s"
  by (auto simp: block_def res_bind_Inr_iff split: if_splits dest!: core_preempt)

lemma core_db_wake: "db_wake c t s = Inr s' \<Longrightarrow> core s' = core s"
  by (auto simp: db_wake_def res_bind_Inr_iff split: if_splits dest!: core_preempt)

lemma core_wake: "guk_wake c t s = Inr s' \<Longrightarrow> core s' = core s"
  by (auto simp: guk_wake_def Let_def split: if_splits dest!: core_db_wake)

lemma core_wake_joiners_loop: "wake_joiners_loop c ts s = Inr s' \<Longrightarrow> core s' = core s"
proof (induction ts arbitrary: s)
  case (Cons t ts)
  then obtain u where "guk_wake c t (ready_list_del_init t (upd t (flag_clear JOIN) s)) = Inr u"
    and r: "wake_joiners_loop c ts u = Inr s'" by (auto simp: res_bind_Inr_iff)
  then show ?case using Cons.IH [OF r] core_wake by simp
qed simp

section \<open>Refinement: the operations on the abstract state\<close>

lemma add_preempt_countD:
  assumes "add_preempt_count t v s = Inr s'"
  shows "s' = upd t (\<lambda>x. x\<lparr>t_preempt_count := t_preempt_count (thr s t) + v\<rparr>) s"
  using assms by (auto simp: add_preempt_count_def Let_def bug_on_def split: if_splits)

lemma sabs_add_preempt_count: "add_preempt_count t v s = Inr s' \<Longrightarrow> sabs s' = sabs s"
  by (drule add_preempt_countD) (simp add: sabs_upd_same)

lemma sabs_preempt_disable: "preempt_disable c s = Inr s' \<Longrightarrow> sabs s' = sabs s"
  unfolding preempt_disable_def by (rule sabs_add_preempt_count)

lemma sabs_preempt_enable: "preempt_enable c s = Inr s' \<Longrightarrow> sabs s' = sabs s"
  by (auto simp: preempt_enable_def res_bind_Inr_iff preempt_check_resched_def
      dest: sabs_add_preempt_count)

lemma sabs_kick [simp]: "sabs (guk_kick_cpu c cpu s) = sabs s"
  by (simp add: guk_kick_cpu_def smp_signal_cpu_def)

lemma has_sabs: "sabs s' = sabs s \<Longrightarrow>
  has s' RUNNABLE t = has s RUNNABLE t \<and> has s' APPSCHED t = has s APPSCHED t \<and>
  upcalls_active s' = upcalls_active s"
  by (metis sabs_sel(1) sabs_sel(5) sabs_sel(14) mem_Collect_eq)

lemma block_refines: "block c t s = Inr s' \<Longrightarrow> sabs s' = a_block t (sabs s)"
proof -
  assume B: "block c t s = Inr s'"
  show ?thesis
  proof (cases "has s RUNNABLE t \<and> upcalls_active s \<and> has s APPSCHED t")
    case True
    with B obtain u where u: "preempt_disable c s = Inr u"
      and e: "preempt_enable c (emit (BlockUpcall (t_appsched_id (thr u t)) c)
                (upd t (flag_clear RUNNABLE) u)) = Inr s'"
      by (auto simp: block_def res_bind_Inr_iff)
    from u have U: "sabs u = sabs s" by (rule sabs_preempt_disable)
    have "sabs s' = sabs (upd t (flag_clear RUNNABLE) u)"
      using sabs_preempt_enable [OF e] by simp
    also have "\<dots> = (sabs u)\<lparr>aRunnable := aRunnable (sabs u) - {t}\<rparr>"
      by (simp add: sabs_clear_RUNNABLE)
    finally show ?thesis using True by (simp add: U a_block_def)
  next
    case False
    with B show ?thesis
      by (auto simp: block_def a_block_def sabs_unlink sabs_clear_RUNNABLE split: if_splits)
  qed
qed

lemma db_wake_refines: "db_wake c t s = Inr s' \<Longrightarrow> sabs s' = a_ready t (sabs s)"
proof -
  assume W: "db_wake c t s = Inr s'"
  show ?thesis
  proof (cases "upcalls_active s \<and> has s APPSCHED t")
    case True
    with W obtain u v where u: "preempt_disable c s = Inr u"
      and e: "preempt_enable c (emit (WakeUpcall (t_appsched_id (thr u t)) c)
                (upd t (flag_set RUNNABLE) u)) = Inr v"
      and v: "sabs s' = sabs v"
      by (auto simp: db_wake_def res_bind_Inr_iff)
    from u have U: "sabs u = sabs s" by (rule sabs_preempt_disable)
    have "sabs v = sabs (upd t (flag_set RUNNABLE) u)"
      using sabs_preempt_enable [OF e] by simp
    also have "\<dots> = (sabs u)\<lparr>aRunnable := insert t (aRunnable (sabs u))\<rparr>"
      by (simp add: sabs_set_RUNNABLE)
    finally show ?thesis using True by (simp add: U v a_ready_def)
  next
    case False
    with W show ?thesis
      by (auto simp: db_wake_def a_ready_def sabs_ready_add sabs_set_RUNNABLE split: if_splits)
  qed
qed

lemma sabs_suspend:
  "sabs (upd t (flag_set DEBUG_SUSPEND \<circ> flag_clear REQ_DEBUG_SUSPEND) s) =
   (sabs s)\<lparr>aSusp := insert t {u. has s DEBUG_SUSPEND u},
     aReq := {u. has s REQ_DEBUG_SUSPEND u} - {t}\<rparr>"
  by (auto simp: sabs_def fun_eq_iff)

lemma sabs_regs [simp]: "sabs (upd t (\<lambda>x. x\<lparr>t_regs := r\<rparr>) s) = sabs s"
  by (simp add: sabs_upd_same)

lemma guk_wake_refines: "guk_wake c t s = Inr s' \<Longrightarrow> sabs s' = a_wake t (sabs s)"
proof -
  assume W: "guk_wake c t s = Inr s'"
  let ?u = "upd t (\<lambda>x. x\<lparr>t_regs := 0\<rparr>) s"
  have U: "sabs ?u = sabs s" by simp
  consider (susp) "has ?u DEBUG_SUSPEND t" | (req) "\<not> has ?u DEBUG_SUSPEND t" "has ?u REQ_DEBUG_SUSPEND t"
    | (wake) "\<not> has ?u DEBUG_SUSPEND t" "\<not> has ?u REQ_DEBUG_SUSPEND t" by blast
  then show ?thesis
  proof cases
    case susp with W show ?thesis by (auto simp: guk_wake_def Let_def a_wake_def)
  next
    case req with W have "s' = upd t (flag_set DEBUG_SUSPEND \<circ> flag_clear REQ_DEBUG_SUSPEND) ?u"
      by (auto simp: guk_wake_def Let_def)
    then have "sabs s' = (sabs ?u)\<lparr>aSusp := insert t (aSusp (sabs ?u)), aReq := aReq (sabs ?u) - {t}\<rparr>"
      by (simp only: sabs_suspend sabs_sel)
    then show ?thesis using req by (simp add: U a_wake_def)
  next
    case wake
    show ?thesis
    proof (cases "has s RUNNABLE t \<and> \<not> (upcalls_active s \<and> has s APPSCHED t)")
      case True with W wake show ?thesis
        by (auto simp: guk_wake_def Let_def a_wake_def a_ready_def split: if_splits)
    next
      case False
      with W wake have "db_wake c t ?u = Inr s'" 
        by (auto simp: guk_wake_def Let_def split: if_splits)
      from db_wake_refines [OF this] wake show ?thesis by (simp add: a_wake_def)
    qed
  qed
qed

section \<open>Invariant\<close>

text \<open>The ready queue holds exactly the runnable threads the microkernel schedules itself; a
  dying or joining thread is not runnable, and no thread is linked into two queues.\<close>

definition queues_ok :: "asched \<Rightarrow> bool" where
  "queues_ok a \<longleftrightarrow>
     distinct (aReady a) \<and> set (aReady a) = aRunnable a - aApp a \<and> (aApp a \<noteq> {} \<longrightarrow> aUp a) \<and>
     distinct (aZombie a) \<and> set (aZombie a) \<subseteq> aDying a \<and> aDying a \<inter> aRunnable a = {} \<and>
     (\<forall>j. distinct (aJoiners a j)) \<and> (\<forall>j. set (aJoiners a j) \<subseteq> aJoin a) \<and>
     aJoin a \<inter> (aRunnable a \<union> aDying a) = {} \<and>
     (\<forall>i j t. t \<in> set (aJoiners a i) \<longrightarrow> t \<in> set (aJoiners a j) \<longrightarrow> i = j) \<and>
     aSleepers a \<inter> (aJoin a \<union> aDying a) = {}"

text \<open>Idle threads are never queued; the current thread of a CPU is its idle thread or a running
  thread that has the CPU's number.\<close>

definition cpus_ok :: "asched \<Rightarrow> bool" where
  "cpus_ok a \<longleftrightarrow> inj (aIdle a) \<and>
     range (aIdle a) \<inter> (aRunnable a \<union> aDying a \<union> aJoin a \<union> aApp a) = {} \<and>
     (\<forall>c. aCpu a (aIdle a c) = c) \<and>
     (\<forall>c. aCur a c = aIdle a c \<or>
       aCur a c \<in> aRunning a \<and> aCpu a (aCur a c) = c \<and> aCur a c \<notin> range (aIdle a))"

text \<open>Queued, sleeping and current threads exist: they are in the list of all threads.\<close>

definition live_ok :: "asched \<Rightarrow> bool" where
  "live_ok a \<longleftrightarrow> aRunnable a \<union> aJoin a \<union> aSleepers a \<union> set (aZombie a) \<subseteq> aLive a \<and>
     range (aIdle a) \<inter> aLive a = {} \<and> (\<forall>c. aCur a c = aIdle a c \<or> aCur a c \<in> aLive a)"

definition ainv :: "asched \<Rightarrow> bool" where
  "ainv a \<longleftrightarrow> queues_ok a \<and> cpus_ok a \<and> live_ok a"

lemma ainvI: "queues_ok a \<Longrightarrow> cpus_ok a \<Longrightarrow> live_ok a \<Longrightarrow> ainv a"
  by (simp add: ainv_def)

lemma ainvD: "ainv a \<Longrightarrow> queues_ok a" "ainv a \<Longrightarrow> cpus_ok a" "ainv a \<Longrightarrow> live_ok a"
  by (simp_all add: ainv_def)

lemma no_dup_current:
  assumes "ainv a" and "aCur a c = aCur a d"
  shows "c = d"
proof -
  have C: "inj (aIdle a)"
    "\<And>c. aCur a c = aIdle a c \<or>
       aCur a c \<in> aRunning a \<and> aCpu a (aCur a c) = c \<and> aCur a c \<notin> range (aIdle a)"
    using assms(1) by (auto simp: ainv_def cpus_ok_def)
  from C(2) [of c] C(2) [of d] assms(2) show ?thesis
    by (metis C(1) injD rangeI)
qed

lemma queues_ok_block: "queues_ok a \<Longrightarrow> queues_ok (a_block t a)"
  by (auto simp: queues_ok_def a_block_def a_unlink_def distinct_removeAll)

lemma cpus_ok_block: "cpus_ok a \<Longrightarrow> cpus_ok (a_block t a)"
  by (auto simp: cpus_ok_def a_block_def a_unlink_def)

lemma live_ok_block: "live_ok a \<Longrightarrow> live_ok (a_block t a)"
  by (auto simp: live_ok_def a_block_def a_unlink_def)

lemma ainv_block [guk_inv]: "ainv a \<Longrightarrow> ainv (a_block t a)"
  by (simp add: ainv_def queues_ok_block cpus_ok_block live_ok_block)

lemma queues_ok_ready:
  "queues_ok a \<Longrightarrow> t \<notin> aJoin a \<Longrightarrow> t \<notin> aDying a \<Longrightarrow> queues_ok (a_ready t a)"
  by (auto simp: queues_ok_def a_ready_def)

lemma cpus_ok_ready: "cpus_ok a \<Longrightarrow> t \<notin> range (aIdle a) \<Longrightarrow> cpus_ok (a_ready t a)"
  by (auto simp: cpus_ok_def a_ready_def)

lemma live_ok_ready: "live_ok a \<Longrightarrow> t \<in> aLive a \<Longrightarrow> live_ok (a_ready t a)"
  by (auto simp: live_ok_def a_ready_def)

lemma ainv_susp: "ainv (a\<lparr>aSusp := x, aReq := y\<rparr>) = ainv a"
  by (simp add: ainv_def queues_ok_def cpus_ok_def live_ok_def)

lemma ainv_live: "ainv a \<Longrightarrow> t \<in> aLive a \<Longrightarrow> t \<notin> range (aIdle a)"
  by (auto simp: ainv_def live_ok_def)

lemma ainv_ready:
  "ainv a \<Longrightarrow> t \<in> aLive a \<Longrightarrow> t \<notin> aJoin a \<Longrightarrow> t \<notin> aDying a \<Longrightarrow> ainv (a_ready t a)"
  using ainv_live [of a t] by (simp add: ainv_def queues_ok_ready cpus_ok_ready live_ok_ready)

lemma ainv_wake [guk_inv]:
  "ainv a \<Longrightarrow> t \<in> aLive a \<Longrightarrow> t \<notin> aJoin a \<Longrightarrow> t \<notin> aDying a \<Longrightarrow> ainv (a_wake t a)"
  by (simp add: a_wake_def ainv_susp ainv_ready)

text \<open>Releasing a joiner: it is no longer joining, is unlinked and woken.\<close>

definition a_release :: "tptr \<Rightarrow> asched \<Rightarrow> asched" where
  "a_release t a = a_wake t (a_unlink t (a\<lparr>aJoin := aJoin a - {t}\<rparr>))"

lemma queues_ok_unjoin:
  "queues_ok a \<Longrightarrow> t \<in> aJoin a \<Longrightarrow> queues_ok (a_unlink t (a\<lparr>aJoin := aJoin a - {t}\<rparr>))"
  by (auto simp: queues_ok_def a_unlink_def distinct_removeAll)

lemma cpus_ok_unjoin: "cpus_ok a \<Longrightarrow> cpus_ok (a_unlink t (a\<lparr>aJoin := aJoin a - {t}\<rparr>))"
  by (auto simp: cpus_ok_def a_unlink_def)

lemma live_ok_unjoin: "live_ok a \<Longrightarrow> live_ok (a_unlink t (a\<lparr>aJoin := aJoin a - {t}\<rparr>))"
  by (auto simp: live_ok_def a_unlink_def)

lemma ainv_release:
  assumes "ainv a" "t \<in> aJoin a"
  shows "ainv (a_release t a)"
proof -
  have "ainv (a_unlink t (a\<lparr>aJoin := aJoin a - {t}\<rparr>))"
    using assms by (simp add: ainv_def queues_ok_unjoin cpus_ok_unjoin live_ok_unjoin)
  moreover have "t \<notin> aDying a" "t \<in> aLive a"
    using assms by (auto simp: ainv_def queues_ok_def live_ok_def)
  ultimately show ?thesis
    unfolding a_release_def by (intro ainv_wake) (auto simp: a_unlink_def)
qed

lemma a_ready_sel [simp]:
  "aJoin (a_ready t a) = aJoin a" "aDying (a_ready t a) = aDying a" "aIdle (a_ready t a) = aIdle a"
  "aCur (a_ready t a) = aCur a" "aCpu (a_ready t a) = aCpu a" "aRunning (a_ready t a) = aRunning a"
  "aJoiners (a_ready t a) = aJoiners a" "aSleepers (a_ready t a) = aSleepers a"
  "aUp (a_ready t a) = aUp a" "aLive (a_ready t a) = aLive a" "aZombie (a_ready t a) = aZombie a" "aApp (a_ready t a) = aApp a"
  by (simp_all add: a_ready_def)

lemma a_wake_sel [simp]:
  "aJoin (a_wake t a) = aJoin a" "aDying (a_wake t a) = aDying a" "aIdle (a_wake t a) = aIdle a"
  "aCur (a_wake t a) = aCur a" "aCpu (a_wake t a) = aCpu a" "aRunning (a_wake t a) = aRunning a"
  "aJoiners (a_wake t a) = aJoiners a" "aSleepers (a_wake t a) = aSleepers a"
  "aUp (a_wake t a) = aUp a" "aLive (a_wake t a) = aLive a" "aZombie (a_wake t a) = aZombie a" "aApp (a_wake t a) = aApp a"
  by (simp_all add: a_wake_def)

lemma a_block_sel [simp]:
  "aJoin (a_block t a) = aJoin a" "aDying (a_block t a) = aDying a" "aIdle (a_block t a) = aIdle a"
  "aCur (a_block t a) = aCur a" "aCpu (a_block t a) = aCpu a" "aRunning (a_block t a) = aRunning a"
  "aSleepers (a_block t a) = aSleepers a" "aUp (a_block t a) = aUp a" "aLive (a_block t a) = aLive a" "aApp (a_block t a) = aApp a"
  "t \<notin> aRunnable (a_block t a)"
  by (simp_all add: a_block_def a_unlink_def)

lemma a_release_sel [simp]:
  "aJoin (a_release t a) = aJoin a - {t}" "aDying (a_release t a) = aDying a"
  "aIdle (a_release t a) = aIdle a" "aCur (a_release t a) = aCur a"
  "aCpu (a_release t a) = aCpu a" "aRunning (a_release t a) = aRunning a"
  "aSleepers (a_release t a) = aSleepers a"
  "aLive (a_release t a) = aLive a" "aUp (a_release t a) = aUp a"
  "aJoiners (a_release t a) = (\<lambda>j. removeAll t (aJoiners a j))"
  "aZombie (a_release t a) = removeAll t (aZombie a)"
  by (simp_all add: a_release_def a_unlink_def)

lemma wake_joiners_loop_refines:
  "wake_joiners_loop c ts s = Inr s' \<Longrightarrow> sabs s' = fold a_release ts (sabs s)"
proof (induction ts arbitrary: s)
  case (Cons t ts)
  then obtain u where u: "guk_wake c t (ready_list_del_init t (upd t (flag_clear JOIN) s)) = Inr u"
    and r: "wake_joiners_loop c ts u = Inr s'" by (auto simp: res_bind_Inr_iff)
  have "sabs u = a_release t (sabs s)"
    by (simp add: guk_wake_refines [OF u] a_release_def sabs_unlink sabs_clear_JOIN)
  with Cons.IH [OF r] show ?case by simp
qed simp

lemma ainv_fold_release:
  "ainv a \<Longrightarrow> set ts \<subseteq> aJoin a \<Longrightarrow> distinct ts \<Longrightarrow> ainv (fold a_release ts a)"
proof (induction ts arbitrary: a)
  case (Cons t ts)
  have "ainv (a_release t a)" using Cons.prems by (intro ainv_release) auto
  moreover have "set ts \<subseteq> aJoin (a_release t a)" using Cons.prems by auto
  ultimately show ?case using Cons by simp
qed simp

lemma fold_release_sel [simp]:
  "aDying (fold a_release ts a) = aDying a" "aIdle (fold a_release ts a) = aIdle a"
  "aCur (fold a_release ts a) = aCur a" "aCpu (fold a_release ts a) = aCpu a"
  "aRunning (fold a_release ts a) = aRunning a" "aLive (fold a_release ts a) = aLive a"
  "aSleepers (fold a_release ts a) = aSleepers a" "aUp (fold a_release ts a) = aUp a"
  by (induction ts arbitrary: a) simp_all

section \<open>The invariant and the single operations\<close>

lemma ainv_wake_joiners:
  assumes "wake_joiners c j s = Inr s'" and "ainv (sabs s)"
  shows "ainv (sabs s')"
proof -
  have "set (t_joiners (thr s j)) \<subseteq> aJoin (sabs s)" "distinct (t_joiners (thr s j))"
    using assms(2) by (auto simp: ainv_def queues_ok_def)
  then show ?thesis
    using assms wake_joiners_loop_refines ainv_fold_release
    by (fastforce simp: wake_joiners_def)
qed

lemma ainv_wake_expired_loop:
  "wake_expired_loop c now qs s = Inr s' \<Longrightarrow> set qs \<subseteq> set (sleep_list s) \<Longrightarrow> ainv (sabs s) \<Longrightarrow>
   ainv (sabs s') \<and> aCur (sabs s') = aCur (sabs s) \<and> aIdle (sabs s') = aIdle (sabs s) \<and>
   aCpu (sabs s') = aCpu (sabs s)"
proof (induction qs arbitrary: s)
  case (Cons q qs)
  show ?case
  proof (cases "\<not> sq_test EXPIRED (sqs s q) \<and> sint (sq_wakeup_time (sqs s q)) \<le> sint now")
    case True
    with Cons.prems obtain u
      where u: "guk_wake c (sq_thread (sqs s q)) (upd_sq q (sq_set EXPIRED) s) = Inr u"
        and r: "wake_expired_loop c now qs u = Inr s'" by (auto simp: res_bind_Inr_iff)
    have A: "sabs u = a_wake (sq_thread (sqs s q)) (sabs s)"
      using guk_wake_refines [OF u] by (simp add: sabs_upd_sq_same)
    have in_s: "sq_thread (sqs s q) \<in> aSleepers (sabs s)" using Cons.prems(2) by auto
    then have "sq_thread (sqs s q) \<in> aLive (sabs s)" "sq_thread (sqs s q) \<notin> aJoin (sabs s)"
      "sq_thread (sqs s q) \<notin> aDying (sabs s)"
      using Cons.prems(3) unfolding ainv_def queues_ok_def live_ok_def by blast+
    then have I: "ainv (sabs u)" using A Cons.prems(3) by (simp add: ainv_wake)
    have "sleep_list u = sleep_list s" using coreD(1) [OF core_wake [OF u]] by simp
    then show ?thesis using Cons.IH [OF r _ I] Cons.prems(2) A by simp
  next
    case False
    then show ?thesis using Cons by (auto split: if_splits)
  qed
qed simp

end
