(* ===== verification/Guk_Sched_Inv.thy ===== *)
theory Guk_Sched_Inv
  imports Guk_Sched_Spec
begin

text \<open>
  The scheduler as a transition system: one step is one operation of \<open>sched.c\<close> run by one CPU,
  with the guards its callers have to respect. The invariant of \<open>Guk_Sched_Spec\<close> holds in
  every reachable state.
\<close>

section \<open>Joining, exiting, reaping, interrupting\<close>

lemma ainv_join:
  assumes J: "guk_join_thread c j s = Inr (b, s')" and I: "ainv (sabs s)"
    and T: "current_thread s c \<in> set (thread_list s)" "\<not> has s JOIN (current_thread s c)"
      "current_thread s c \<notin> (\<lambda>q. sq_thread (sqs s q)) ` set (sleep_list s)"
  shows "ainv (sabs s')"
proof (cases "has s DYING (current_thread s c)")
  case True with J I show ?thesis by (simp add: guk_join_thread_def Let_def)
next
  case False
  let ?t = "current_thread s c"
  from J False obtain u where u: "block c ?t (upd ?t (\<lambda>x. x\<lparr>t_regs := 0\<rparr>) s) = Inr u"
    and s': "s' = upd j (\<lambda>x. x\<lparr>t_joiners := t_joiners x @ [?t]\<rparr>) (upd ?t (flag_set JOIN) u)"
    by (auto simp: guk_join_thread_def Let_def res_bind_Inr_iff)
  let ?a = "a_block ?t (sabs s)"
  have U: "sabs u = ?a" using block_refines [OF u] by simp
  have A: "ainv ?a" using I by (rule ainv_block)
  have S: "sabs s' = (sabs u)\<lparr>aJoin := insert ?t (aJoin (sabs u)),
      aJoiners := (aJoiners (sabs u))(j := aJoiners (sabs u) j @ [?t])\<rparr>"
    unfolding s' by (rule asched_eqI) (auto simp: fun_eq_iff)
  have N: "?t \<notin> aJoin ?a" "?t \<notin> aDying ?a" "?t \<notin> aRunnable ?a" "?t \<in> aLive ?a" "?t \<notin> aSleepers ?a"
    using T False by simp_all
  have "?t \<notin> range (aIdle ?a)" using ainv_live [OF A N(4)] .
  then show ?thesis
    using A N unfolding S U ainv_def queues_ok_def cpus_ok_def live_ok_def by auto
qed

lemma wake_joiners_if:
  "(if t_joiners (thr s t) \<noteq> [] then wake_joiners c t s else Inr s) = wake_joiners c t s"
  by (simp add: wake_joiners_def)

lemma ainv_exit:
  assumes E: "exit_thread c s = Inr s'" and I: "ainv (sabs s)"
    and T: "current_thread s c \<in> set (thread_list s)" "\<not> has s JOIN (current_thread s c)"
      "\<not> has s DYING (current_thread s c)"
      "current_thread s c \<notin> (\<lambda>q. sq_thread (sqs s q)) ` set (sleep_list s)"
  shows "ainv (sabs s')"
proof -
  let ?t = "current_thread s c"
  let ?s = "if \<not> has s UKERNEL ?t then emit (InvokeDestroy ?t) s else s"
  let ?z = "\<lambda>v. (upd ?t (flag_set DYING) v)\<lparr>zombie_queue := zombie_queue v @ [?t]\<rparr>"
  from E obtain u where u: "preempt_disable c ?s = Inr u"
    and r: "(if \<not> has u RUNNING ?t then Inl BUG else res_bind (block c ?t u) (\<lambda>v.
      res_bind (wake_joiners c ?t (?z v)) (preempt_enable c))) = Inr s'"
    unfolding exit_thread_def Let_def wake_joiners_if upd_sel
    by (subst (asm) res_bind_Inr_iff) (elim exE conjE, rule that)
  from r obtain v w where v: "block c ?t u = Inr v" and w: "wake_joiners c ?t (?z v) = Inr w"
    and e: "preempt_enable c w = Inr s'"
    by (auto simp: res_bind_Inr_iff split: if_split_asm)
  let ?a = "a_block ?t (sabs s)"
  have V: "sabs v = ?a" 
    using block_refines [OF v] sabs_preempt_disable [OF u] by (simp split: if_splits)
  have A: "ainv ?a" using I by (rule ainv_block)
  have Z: "sabs (?z v) = (sabs v)\<lparr>aDying := insert ?t (aDying (sabs v)), aZombie := aZombie (sabs v) @ [?t]\<rparr>"
    by (rule asched_eqI) (auto simp: fun_eq_iff)
  have N: "?t \<notin> aJoin ?a" "?t \<notin> aDying ?a" "?t \<notin> aRunnable ?a" "?t \<in> aLive ?a" "?t \<notin> aSleepers ?a"
    using T by simp_all
  have "?t \<notin> range (aIdle ?a)" using ainv_live [OF A N(4)] .
  then have "ainv (sabs (?z v))"
    using A N unfolding Z V ainv_def queues_ok_def cpus_ok_def live_ok_def by auto
  then have "ainv (sabs w)" by (rule ainv_wake_joiners [OF w])
  then show ?thesis using sabs_preempt_enable [OF e] by simp
qed

lemma ainv_unlink_zombie: "ainv a \<Longrightarrow> t \<in> aDying a \<Longrightarrow> ainv (a_unlink t a)"
  by (auto simp: ainv_def queues_ok_def cpus_ok_def live_ok_def a_unlink_def distinct_removeAll)

lemma ainv_unlive:
  assumes I: "ainv a" and T: "t \<in> aDying a" "t \<notin> set (aZombie a)" "t \<notin> aRunning a"
  shows "ainv (a\<lparr>aLive := aLive a - {t}\<rparr>)" (is "ainv ?x")
proof -
  have "t \<notin> aRunnable a" "t \<notin> aJoin a" "t \<notin> aSleepers a"
    using T ainvD(1) [OF I] unfolding queues_ok_def by blast+
  moreover have "aCur a c \<noteq> t \<or> aCur a c = aIdle a c" for c
    using T ainvD(2) [OF I] unfolding cpus_ok_def by metis
  ultimately have "live_ok ?x" using T ainvD(3) [OF I] unfolding live_ok_def by auto
  then show ?thesis using I by (simp add: ainv_def queues_ok_def cpus_ok_def)
qed

lemma ainv_reap_thread:
  assumes R: "reap_thread c t s = Inr s'" and I: "ainv (sabs s)"
    and D: "has s DYING t" "\<not> has s RUNNING t"
  shows "ainv (sabs s') \<and> aDying (sabs s') = aDying (sabs s) \<and> aRunning (sabs s') = aRunning (sabs s)
    \<and> core s' = core (s\<lparr>thread_list := removeAll t (thread_list s)\<rparr>)"
proof -
  let ?u = "ready_list_del_init t s"
  from R obtain v where v: "wake_joiners c t ?u = Inr v"
    and r: "(let s = (if t_guk_stack_allocated (thr v t) then emit (FreeStackPages (t_stack (thr v t))) v
        else emit (FreeThreadStack (t_stack (thr v t)) (t_stack_size (thr v t))) v)
      in Inr (emit (FreeThread t) (s\<lparr>thread_list := removeAll t (thread_list s)\<rparr>))) = Inr s'"
    unfolding reap_thread_def Let_def wake_joiners_if by (auto simp: res_bind_Inr_iff)
  then have s': "sabs s' = sabs (v\<lparr>thread_list := removeAll t (thread_list v)\<rparr>)"
    and cr: "core s' = core (v\<lparr>thread_list := removeAll t (thread_list v)\<rparr>)"
    by (auto simp: Let_def sabs_def core_def emit_def split: if_splits)
  let ?a = "a_unlink t (sabs s)"
  have A: "ainv ?a" using I D by (intro ainv_unlink_zombie) auto
  then have iv: "ainv (sabs v)" using ainv_wake_joiners [OF v] by (simp add: sabs_unlink)
  have fv: "sabs v = fold a_release (t_joiners (thr ?u t)) ?a"
    using v wake_joiners_loop_refines by (fastforce simp: wake_joiners_def sabs_unlink)
  have z: "t \<notin> set (aZombie (fold a_release ts a))" if "t \<notin> set (aZombie a)" for ts a
    using that by (induction ts arbitrary: a) auto
  have "t \<notin> set (aZombie (sabs v))" unfolding fv by (rule z) (simp add: a_unlink_def)
  moreover have "aDying (sabs v) = aDying (sabs s)" "aRunning (sabs v) = aRunning (sabs s)"
    unfolding fv by (simp_all add: a_unlink_def)
  moreover have L: "sabs s' = (sabs v)\<lparr>aLive := aLive (sabs v) - {t}\<rparr>"
    unfolding s' by (simp add: sabs_def)
  moreover have "core v = core s"
    using v core_wake_joiners_loop by (fastforce simp: wake_joiners_def)
  ultimately show ?thesis
    using ainv_unlive [OF iv, of t] D cr by (auto simp: core_def)
qed

lemma ainv_reap_loop:
  "reap_loop c ts s = Inr s' \<Longrightarrow> ainv (sabs s) \<Longrightarrow> ainv (sabs s')"
proof (induction ts arbitrary: s)
  case (Cons t ts)
  let ?m = "if has s DYING t then
      if \<not> has s RUNNING t \<and> t_cpu (thr s t) = c then reap_thread c t s else Inr s else Inr s"
  from Cons.prems(1) obtain u where u: "?m = Inr u" and r: "reap_loop c ts u = Inr s'"
    unfolding reap_loop.simps res_bind_Inr_iff by (elim exE conjE) (rule that)
  from u Cons.prems(2) have "ainv (sabs u)"
    by (auto dest: ainv_reap_thread split: if_splits)
  then show ?case by (rule Cons.IH [OF r])
qed simp

lemma ainv_interrupt:
  assumes "guk_interrupt c t s = Inr s'" and "ainv (sabs s)" and "t \<in> set (thread_list s)"
  shows "ainv (sabs s')"
proof (cases "has s RUNNABLE t \<or> has s RUNNING t \<or> has s DYING t")
  case True with assms show ?thesis by (simp add: guk_interrupt_def)
next
  case False
  let ?u = "if has s JOIN t then upd t (flag_clear JOIN) (ready_list_del_init t s) else s"
  from False assms(1) have w: "guk_wake c t (upd t (flag_set INTERRUPTED) ?u) = Inr s'"
    unfolding guk_interrupt_def Let_def by simp
  have A: "sabs s' = a_wake t (sabs ?u)"
    using guk_wake_refines [OF w] sabs_set_other(1) [of INTERRUPTED t ?u] by simp
  have U: "sabs (upd t (flag_clear JOIN) (ready_list_del_init t s)) =
      a_unlink t ((sabs s)\<lparr>aJoin := aJoin (sabs s) - {t}\<rparr>)"
    by (rule asched_eqI) (auto simp: a_unlink_def ready_list_del_init_def fun_eq_iff)
  have "ainv (sabs ?u)" "t \<notin> aJoin (sabs ?u)" "t \<in> aLive (sabs ?u)" "t \<notin> aDying (sabs ?u)"
    using assms(2,3) False queues_ok_unjoin [of "sabs s" t] cpus_ok_unjoin [of "sabs s" t]
      live_ok_unjoin [of "sabs s" t] unfolding U ainv_def
    by (auto simp: U a_unlink_def) 
  then show ?thesis unfolding A by (intro ainv_wake)
qed

section \<open>Choosing the next thread\<close>

lemma ainv_rotate_prev:
  assumes "ainv (sabs s)"
  shows "ainv (sabs (rotate_prev c prev s))"
    and "aCur (sabs (rotate_prev c prev s)) = aCur (sabs s)"
    and "aIdle (sabs (rotate_prev c prev s)) = aIdle (sabs s)"
    and "aCpu (sabs (rotate_prev c prev s)) = aCpu (sabs s)"
    and "aRunning (sabs (rotate_prev c prev s)) = aRunning (sabs s)"
    and "aRunnable (sabs (rotate_prev c prev s)) = aRunnable (sabs s)"
    and "aUp (sabs (rotate_prev c prev s)) = aUp (sabs s)"
proof -
  let ?r = "rotate_prev c prev s"
  show "ainv (sabs ?r)"
  proof (cases "(\<not> upcalls_active s \<or> \<not> has s APPSCHED prev) \<and> has s RUNNABLE prev \<and>
      prev \<noteq> idle_thread s c")
    case True
    then have R: "sabs ?r = (a_unlink prev (sabs s))\<lparr>aReady := removeAll prev (aReady (sabs s)) @ [prev]\<rparr>"
      by (simp add: rotate_prev_def sabs_ready_add sabs_unlink)
    have "prev \<in> aRunnable (sabs s)" "prev \<notin> aApp (sabs s)"
      using True assms by (auto simp: ainv_def queues_ok_def)
    then show ?thesis using assms unfolding R ainv_def queues_ok_def cpus_ok_def live_ok_def
      by (auto simp: a_unlink_def distinct_removeAll)
  next
    case False
    then have "?r = s" unfolding rotate_prev_def by (simp only: if_False split: if_split) blast
    then show ?thesis using assms by simp
  qed
qed (auto simp: rotate_prev_def fun_eq_iff)

lemma pick_loop_eligible:
  "pick_loop s cpu i ts = Inr (Some t) \<Longrightarrow> eligible s cpu t \<and> t \<in> set ts"
  by (induction s cpu i ts rule: pick_loop.induct) (auto split: if_splits)

lemma ainv_set_running:
  "ainv (sabs s) \<Longrightarrow> ainv (sabs (upd t (flag_set RUNNING) s))"
  unfolding sabs_set_RUNNING by (auto simp: ainv_def queues_ok_def cpus_ok_def live_ok_def)

lemma pick_thread_inv:
  assumes P: "pick_thread c upcall prev cpu s = Inr (nxt, s')" and I: "ainv (sabs s)"
  shows "ainv (sabs s')" and "current_thread s' = current_thread s"
    and "idle_thread s' = idle_thread s" and "has s' RUNNING nxt"
    and "(\<lambda>t. t_cpu (thr s' t)) = (\<lambda>t. t_cpu (thr s t))"
    and "nxt = idle_thread s c \<or> \<not> (has s RUNNING nxt \<and> t_cpu (thr s nxt) \<noteq> cpu)"
    and "irqs_off s' = irqs_off s"
proof -
  let ?r = "rotate_prev c prev s"
  note R = ainv_rotate_prev [OF I, of c prev, simplified]
  have has_r: "has ?r RUNNING t = has s RUNNING t" for t using R(5) by blast
  have cpu_r: "t_cpu (thr ?r t) = t_cpu (thr s t)" for t using R(4) by metis
  have irq_r: "irqs_off ?r = irqs_off s"
    by (simp add: rotate_prev_def ready_add_tail_def ready_list_del_init_def)
  obtain r where r: "pick_loop ?r cpu 0 (ready_queue ?r) = Inr r"
    using P by (cases "pick_loop ?r cpu 0 (ready_queue ?r)") (simp_all add: pick_thread_def Let_def)
  let ?u = "upd nxt (flag_set RUNNING) ?r"
  have E: "(s' = ?u \<or> s' = emit (DescheduleUpcall cpu) ?u) \<and>
    (nxt = idle_thread ?r c \<or> \<not> (has ?r RUNNING nxt \<and> t_cpu (thr ?r nxt) \<noteq> cpu))"
  proof (cases r)
    case None
    then show ?thesis using P r unfolding pick_thread_def Let_def
      by (cases "if upcalls_active ?r then upcall cpu else None") (simp_all split: if_split_asm)
  next
    case (Some t)
    have "t = nxt" using P r Some by (simp add: pick_thread_def Let_def split: if_split_asm)
    then show ?thesis using P r Some
      by (cases "has ?r RUNNING nxt \<and> t_cpu (thr ?r nxt) \<noteq> cpu")
        (auto simp: pick_thread_def Let_def split: if_split_asm)
  qed
  then have e: "sabs s' = sabs ?u" "thr s' = thr ?u" "core s' = core ?u" by auto
  have n: "nxt = idle_thread ?r c \<or> \<not> (has ?r RUNNING nxt \<and> t_cpu (thr ?r nxt) \<noteq> cpu)"
    using E by blast
  show "ainv (sabs s')" unfolding e(1) by (rule ainv_set_running) (rule R(1))
  show "current_thread s' = current_thread s" "idle_thread s' = idle_thread s"
    using coreD [OF e(3)] R(2,3) by simp_all
  show "has s' RUNNING nxt" by (simp add: e(2))
  show "(\<lambda>t. t_cpu (thr s' t)) = (\<lambda>t. t_cpu (thr s t))" by (simp add: e(2) cpu_r fun_eq_iff)
  show "nxt = idle_thread s c \<or> \<not> (has s RUNNING nxt \<and> t_cpu (thr s nxt) \<noteq> cpu)"
    using n by (simp add: has_r cpu_r R(3))
  show "irqs_off s' = irqs_off s" using coreD(6) [OF e(3)] irq_r by simp
qed

lemma core_wake_expired_loop:
  "wake_expired_loop c now qs s = Inr s' \<Longrightarrow> core (s'\<lparr>sqs := sqs s\<rparr>) = core s"
proof (induction qs arbitrary: s)
  case (Cons q qs)
  show ?case
  proof (cases "\<not> sq_test EXPIRED (sqs s q) \<and> sint (sq_wakeup_time (sqs s q)) \<le> sint now")
    case True
    with Cons.prems obtain u
      where u: "guk_wake c (sq_thread (sqs s q)) (upd_sq q (sq_set EXPIRED) s) = Inr u"
        and r: "wake_expired_loop c now qs u = Inr s'" by (auto simp: res_bind_Inr_iff)
    have "core (s'\<lparr>sqs := sqs u\<rparr>) = core u" by (rule Cons.IH [OF r])
    then show ?thesis using core_wake [OF u] by (simp add: core_def)
  next
    case False
    then show ?thesis using Cons by (auto simp: core_def split: if_splits)
  qed
qed (simp add: core_def)

lemma schedule_pick_inv:
  assumes P: "schedule_pick c upcall now rt s = Inr (nxt, s')" and I: "ainv (sabs s)"
  shows "ainv (sabs s') \<and> current_thread s' = current_thread s \<and>
    (nxt = idle_thread s' c \<or> has s' RUNNABLE nxt \<and> has s' RUNNING nxt \<and>
      (\<forall>d. d \<noteq> c \<longrightarrow> current_thread s d \<noteq> nxt))"
proof -
  let ?p = "current_thread s c"
  let ?s = "upd ?p (\<lambda>x. x\<lparr>t_cum_running_time := t_cum_running_time x + (rt - t_start_running_time x)\<rparr>) s"
  from P obtain u v where u: "wake_expired c now ?s = Inr u" and v: "preempt_disable c u = Inr v"
    and f: "(if cpu_states v (t_cpu (thr v ?p)) \<noteq> CPU_UP then Inr (idle_thread v (t_cpu (thr v ?p)), v)
       else res_bind (pick_thread c upcall ?p (t_cpu (thr v ?p)) v) (\<lambda>(nxt, s).
         if \<not> has s RUNNABLE nxt \<and> nxt \<noteq> idle_thread s (t_cpu (thr v ?p)) then Inl BUG
         else Inr (nxt, s))) = Inr (nxt, s')"
    unfolding schedule_pick_def Let_def
    by (simp only: split: if_split_asm) (auto simp only: res_bind_Inr_iff Inr_Inl_False)
  have U: "ainv (sabs u) \<and> aCur (sabs u) = aCur (sabs ?s) \<and> aIdle (sabs u) = aIdle (sabs ?s) \<and>
      aCpu (sabs u) = aCpu (sabs ?s)"
    using u I by (intro ainv_wake_expired_loop [of c now "sleep_list ?s" ?s])
      (simp_all add: wake_expired_def sabs_upd_same)
  have V: "sabs v = sabs u" using v by (rule sabs_preempt_disable)
  have iv: "ainv (sabs v)" using U V by simp
  have cv: "current_thread v = current_thread s" and idv: "idle_thread v = idle_thread s"
    using U V sabs_sel(15,16) [of v] sabs_sel(15,16) [of ?s] by (simp_all del: sabs_sel)
  have cpu: "t_cpu (thr v ?p) = c"
    using iv unfolding ainv_def cpus_ok_def by (metis cv sabs_sel(11,15,16))
  show ?thesis
  proof (cases "cpu_states v c = CPU_UP")
    case False with f cpu iv cv show ?thesis by auto
  next
    case True
    with f cpu obtain n w where w: "pick_thread c upcall ?p c v = Inr (nxt, s')"
      and n: "has s' RUNNABLE nxt \<or> nxt = idle_thread s' c"
      by (auto simp: res_bind_Inr_iff split: if_split_asm)
    note K = pick_thread_inv [OF w iv]
    have "current_thread s d \<noteq> nxt" if "d \<noteq> c" "nxt \<noteq> idle_thread v c" for d
    proof
      assume eq: "current_thread s d = nxt"
      have "nxt = idle_thread v d \<or> has v RUNNING nxt \<and> t_cpu (thr v nxt) = d"
        using iv eq unfolding ainv_def cpus_ok_def by (auto simp: cv)
      then show False
      proof
        assume d: "nxt = idle_thread v d"
        then have "nxt \<noteq> idle_thread s' c" using that K(3) by simp
        with n have "has s' RUNNABLE nxt" by simp
        then show False using K(1,3) d unfolding ainv_def cpus_ok_def by auto
      next
        assume "has v RUNNING nxt \<and> t_cpu (thr v nxt) = d"
        then show False using K(6) that by simp
      qed
    qed
    then show ?thesis using K n cv by auto
  qed
qed

section \<open>Switching\<close>

lemma ainv_cur_idle: "ainv a \<Longrightarrow> aCur a d = aIdle a c \<Longrightarrow> d = c"
  unfolding ainv_def cpus_ok_def by (metis injD rangeI)

lemma sabs_set_cpu:
  "sabs (upd t (\<lambda>x. x\<lparr>t_cpu := k\<rparr>) s) = (sabs s)\<lparr>aCpu := (\<lambda>u. t_cpu (thr s u))(t := k)\<rparr>"
  by (rule asched_eqI) (auto simp: fun_eq_iff)

lemma sabs_set_current:
  "sabs (s\<lparr>irqs_off := k, current_thread := f\<rparr>) = (sabs s)\<lparr>aCur := f\<rparr>"
  by (simp add: sabs_def)

lemma sabs_schedule_commit:
  assumes v: "schedule_commit c rt nxt u = Inr v"
  shows "sabs v = (sabs u)\<lparr>aCpu := (aCpu (sabs u))(nxt := t_cpu (thr u (current_thread u c))),
    aCur := (if current_thread u c = nxt then aCur (sabs u) else (aCur (sabs u))(c := nxt))\<rparr>"
proof -
  let ?p = "current_thread u c"
  define w where "w = upd nxt (\<lambda>x. x\<lparr>t_cpu := t_cpu (thr u ?p)\<rparr>) u"
  define x where "x = (if \<not> has w STEPPING ?p then upd ?p (flag_clear RESCHED) w else w)"
  define y where "y = upd nxt (\<lambda>x. x\<lparr>t_resched_running_time := rt + t_timeslice x\<rparr>) x"
  define z where "z = upd nxt (\<lambda>x. x\<lparr>t_start_running_time := rt\<rparr>)
    (set_timer_interrupt (t_timeslice (thr y nxt)) y)"
  have Z: "sabs z = (sabs u)\<lparr>aCpu := (aCpu (sabs u))(nxt := t_cpu (thr u ?p))\<rparr>"
    unfolding z_def set_timer_interrupt_def y_def x_def
    by (simp add: sabs_upd_same sabs_set_other) (simp add: w_def sabs_set_cpu)
  have cz: "current_thread z = current_thread u"
    by (simp add: z_def set_timer_interrupt_def y_def x_def w_def)
  have V: "(if ?p = nxt then Inr z else if irqs_off z c then Inl BUG
      else Inr (z\<lparr>irqs_off := (irqs_off z)(c := True), current_thread := (current_thread z)(c := nxt)\<rparr>))
      = Inr v"
    using v unfolding schedule_commit_def Let_def w_def [symmetric] x_def [symmetric]
      y_def [symmetric] z_def [symmetric] by (simp split: if_split_asm)
  show ?thesis
  proof (cases "?p = nxt")
    case True with V Z show ?thesis by simp
  next
    case False
    with V have "v = z\<lparr>irqs_off := (irqs_off z)(c := True), current_thread := (current_thread z)(c := nxt)\<rparr>"
      by (simp split: if_split_asm)
    then show ?thesis using False Z by (simp add: sabs_set_current cz)
  qed
qed

lemma ainv_schedule:
  assumes S: "guk_schedule c upcall now rt s = Inr s'" and I: "ainv (sabs s)"
  shows "ainv (sabs s')"
proof -
  let ?p = "current_thread s c"
  from S obtain nxt u v where u: "schedule_pick c upcall now rt s = Inr (nxt, u)"
    and v: "schedule_commit c rt nxt u = Inr v"
    and s': "s' = (if ?p \<noteq> nxt then switch_thread_in c ?p v else v)"
    unfolding guk_schedule_def Let_def by (auto simp: res_bind_Inr_iff)
  from schedule_pick_inv [OF u I] have iu: "ainv (sabs u)" and cu: "current_thread u = current_thread s"
    and n: "nxt = idle_thread u c \<or> has u RUNNABLE nxt \<and> has u RUNNING nxt \<and>
      (\<forall>d. d \<noteq> c \<longrightarrow> current_thread u d \<noteq> nxt)" by simp_all
  have cpu: "t_cpu (thr u ?p) = c"
    using iu unfolding ainv_def cpus_ok_def by (metis cu sabs_sel(11,15,16))
  have V: "sabs v = (sabs u)\<lparr>aCpu := (aCpu (sabs u))(nxt := c),
      aCur := (if ?p = nxt then aCur (sabs u) else (aCur (sabs u))(c := nxt))\<rparr>"
    using sabs_schedule_commit [OF v] cpu by (simp add: cu)
  have V': "aCur (sabs v) = (aCur (sabs u))(c := nxt)" unfolding V by (auto simp: cu)
  have S': "sabs s' = (sabs v)\<lparr>aRunning := aRunning (sabs v) - (if ?p = nxt then {} else {?p})\<rparr>"
    unfolding s' switch_thread_in_def by (intro asched_eqI) (auto simp: fun_eq_iff)
  let ?a = "sabs u"
  have A: "sabs s' = ?a\<lparr>aCpu := (aCpu ?a)(nxt := c), aCur := (aCur ?a)(c := nxt),
      aRunning := aRunning ?a - (if ?p = nxt then {} else {?p})\<rparr>"
    unfolding S' using V' by (simp add: V)
  have others: "aCur ?a d \<noteq> nxt" "aCur ?a d \<noteq> ?p" if "d \<noteq> c" for d
    using that n no_dup_current [OF iu, of d c] ainv_cur_idle [OF iu, of d c] by (auto simp: cu)
  have q: "queues_ok (sabs s')" using iu unfolding A ainv_def queues_ok_def by simp
  have nl: "nxt = idle_thread u c \<or> nxt \<in> aLive ?a"
    using n iu unfolding ainv_def live_ok_def by auto
  have l: "live_ok (sabs s')" using iu nl unfolding A ainv_def live_ok_def by auto
  have nr: "nxt \<notin> range (aIdle ?a)" if "nxt \<noteq> idle_thread u c"
    using n that iu unfolding ainv_def cpus_ok_def by auto
  have inj: "inj (idle_thread u)" using iu by (simp add: ainv_def cpus_ok_def)
  have nd: "c = d" if "nxt = idle_thread u d" for d
  proof (cases "nxt = idle_thread u c")
    case True then show ?thesis using that injD [OF inj, of c d] by simp
  next
    case False then show ?thesis using nr that by auto
  qed
  have "cpus_ok (sabs s')"
    unfolding cpus_ok_def
  proof (intro conjI allI)
    fix d
    show "aCpu (sabs s') (aIdle (sabs s') d) = d"
      using iu nd [of d] unfolding A ainv_def cpus_ok_def by auto
    show "aCur (sabs s') d = aIdle (sabs s') d \<or> aCur (sabs s') d \<in> aRunning (sabs s') \<and>
        aCpu (sabs s') (aCur (sabs s') d) = d \<and> aCur (sabs s') d \<notin> range (aIdle (sabs s'))"
    proof (cases "d = c")
      case True
      then show ?thesis using n nr unfolding A by auto
    next
      case False
      then show ?thesis using iu others [OF False] unfolding A ainv_def cpus_ok_def by auto
    qed
  qed (use iu in \<open>auto simp: A ainv_def cpus_ok_def\<close>)
  then show ?thesis using q l by (simp add: ainv_def)
qed

section \<open>Application scheduler, creation, sleeping\<close>

lemma ainv_attach:
  assumes "guk_attach_to_appsched c t i s = Inr s'" and I: "ainv (sabs s)"
    and T: "t \<in> set (thread_list s)" "\<not> has s JOIN t" "\<not> has s DYING t"
  shows "ainv (sabs s')"
proof (cases "upcalls_active s")
  case False with assms show ?thesis by (simp add: guk_attach_to_appsched_def)
next
  case True
  let ?g = "\<lambda>x. (flag_set RUNNABLE (flag_set APPSCHED x))\<lparr>t_appsched_id := i\<rparr>"
  from assms(1) True obtain u v where u: "preempt_disable c s = Inr u" and v: "block c t u = Inr v"
    and e: "preempt_enable c (emit (AttachUpcall i (t_cpu (thr (upd t ?g v) t)) c) (upd t ?g v)) = Inr s'"
    unfolding guk_attach_to_appsched_def Let_def by (auto simp: res_bind_Inr_iff)
  let ?a = "a_block t (sabs s)"
  have V: "sabs v = ?a" using block_refines [OF v] sabs_preempt_disable [OF u] by simp
  have A: "ainv ?a" using I by (rule ainv_block)
  have S: "sabs s' = (sabs v)\<lparr>aApp := insert t (aApp (sabs v)), aRunnable := insert t (aRunnable (sabs v))\<rparr>"
    unfolding sabs_preempt_enable [OF e] by (rule asched_eqI) (auto simp: fun_eq_iff)
  have N: "t \<notin> aJoin ?a" "t \<notin> aDying ?a" "t \<notin> aRunnable ?a" "t \<in> aLive ?a" "aUp ?a"
    using T True by simp_all
  have "t \<notin> range (aIdle ?a)" using ainv_live [OF A N(4)] .
  then show ?thesis
    using A N unfolding S V ainv_def queues_ok_def cpus_ok_def live_ok_def by auto
qed

lemma ainv_detach:
  assumes "guk_detach_from_appsched c t s = Inr s'" and I: "ainv (sabs s)"
    and T: "t \<in> set (thread_list s)" "\<not> has s JOIN t" "\<not> has s DYING t" "has s APPSCHED t"
  shows "ainv (sabs s')"
proof (cases "upcalls_active s")
  case False with assms show ?thesis by (simp add: guk_detach_from_appsched_def)
next
  case True
  let ?g = "\<lambda>x. flag_clear RUNNABLE ((flag_clear APPSCHED x)\<lparr>t_appsched_id := - 1\<rparr>)"
  from assms(1) True obtain u v where u: "preempt_disable c s = Inr u"
    and v: "guk_wake c t (upd t ?g (emit (DetachUpcall (t_appsched_id (thr u t)) c) u)) = Inr v"
    and e: "preempt_enable c v = Inr s'"
    unfolding guk_detach_from_appsched_def Let_def by (auto simp: res_bind_Inr_iff)
  let ?a = "sabs s" let ?b = "?a\<lparr>aApp := aApp ?a - {t}, aRunnable := aRunnable ?a - {t}\<rparr>"
  have U: "sabs u = ?a" using u by (rule sabs_preempt_disable)
  have G: "sabs (upd t ?g (emit x u)) = (sabs u)\<lparr>aApp := aApp (sabs u) - {t}, aRunnable := aRunnable (sabs u) - {t}\<rparr>" for x
    by (rule asched_eqI) (auto simp: fun_eq_iff)
  have V: "sabs v = a_wake t ?b" using guk_wake_refines [OF v] unfolding G U .
  have "ainv ?b"
  proof (rule ainvI)
    show "queues_ok ?b" using T ainvD(1) [OF I] by (auto simp: queues_ok_def)
    show "cpus_ok ?b" using ainvD(2) [OF I] by (auto simp: cpus_ok_def)
    show "live_ok ?b" using ainvD(3) [OF I] by (auto simp: live_ok_def)
  qed
  then have "ainv (a_wake t ?b)" by (rule ainv_wake) (use T in auto)
  then show ?thesis using sabs_preempt_enable [OF e] V by simp
qed

lemma init_thread_sel [simp]:
  "t_joiners (init_thread fl cpu ts i x) = []" "t_cpu (init_thread fl cpu ts i x) = cpu"
  by (simp_all add: init_thread_def)

lemma init_thread_flags:
  assumes "fl = 0 \<or> fl = FLAG UKERNEL" and "g \<noteq> UKERNEL"
  shows "\<not> flag_test g (init_thread fl cpu ts i x)" and "\<not> flag_test g (x\<lparr>t_flags := fl\<rparr>)"
  using assms by (cases g; auto simp: init_thread_def flag_test_def flag_clear_def)+

text \<open>Memory for a new thread: nothing refers to it, so its old contents do not matter.\<close>

definition a_forget :: "tptr \<Rightarrow> asched \<Rightarrow> asched" where
  "a_forget t a = a\<lparr>aRunnable := aRunnable a - {t}, aRunning := aRunning a - {t},
     aDying := aDying a - {t}, aJoin := aJoin a - {t}, aApp := aApp a - {t},
     aSusp := aSusp a - {t}, aReq := aReq a - {t}\<rparr>"

lemma ainv_forget:
  assumes I: "ainv a" and N: "t \<notin> aLive a" "t \<notin> range (aIdle a)"
  shows "ainv (a_forget t a)" (is "ainv ?x")
proof -
  have T: "t \<notin> aRunnable a" "t \<notin> set (aZombie a)" "\<And>c. aCur a c \<noteq> t" "t \<notin> aJoin a"
    using I N by (auto simp: ainv_def live_ok_def)
  have "queues_ok ?x" using T ainvD(1) [OF I] by (auto simp: queues_ok_def a_forget_def)
  moreover have "cpus_ok ?x" using T ainvD(2) [OF I] by (auto simp: cpus_ok_def a_forget_def)
  moreover have "live_ok ?x" using T ainvD(3) [OF I] by (auto simp: live_ok_def a_forget_def)
  ultimately show ?thesis by (rule ainvI)
qed

lemma ainv_new_live:
  assumes "ainv a" "t \<notin> range (aIdle a)" "t \<notin> range (aCur a)"
  shows "ainv (a\<lparr>aLive := insert t (aLive a), aJoiners := (aJoiners a)(t := []), aCpu := (aCpu a)(t := x)\<rparr>)"
  using assms unfolding ainv_def queues_ok_def cpus_ok_def live_ok_def by auto

lemma sabs_stack_push: "sabs (stack_push t v s) = sabs s" "core (stack_push t v s) = core s"
  by (auto simp: stack_push_def Let_def sabs_def core_def upd_def fun_eq_iff)

lemma arch_create_thread_refines:
  assumes "arch_create_thread A xm pages f st sz d s = (r, s')"
  shows "sabs s' = sabs s" and "core s' = core s" and "r = Some t \<Longrightarrow> xm = Some t"
  using assms
  by (auto simp: arch_create_thread_def Let_def sabs_stack_push sabs_upd_same
      split: option.splits if_splits)

lemma ainv_create:
  assumes C: "create_thread_with_id_stack c A xm pages fpage pc f fl st sz d i s = Inr (r, s')"
    and I: "ainv (sabs s)" and F: "fl = 0 \<or> fl = FLAG UKERNEL"
    and X: "\<And>t. xm = Some t \<Longrightarrow> t \<notin> set (thread_list s) \<and> t \<notin> range (idle_thread s)"
  shows "ainv (sabs s')"
proof -
  obtain a u where u: "arch_create_thread A xm pages f st sz d s = (a, u)"
    by (cases "arch_create_thread A xm pages f st sz d s")
  note U = arch_create_thread_refines [OF u]
  show ?thesis
  proof (cases a)
    case None with C u U I show ?thesis by (simp add: create_thread_with_id_stack_def)
  next
    case (Some t)
    have T: "t \<notin> aLive (sabs s)" "t \<notin> range (aIdle (sabs s))" using X U(3) Some by auto
    have iu: "ainv (a_forget t (sabs u))" using ainv_forget [OF I T] U(1) by simp
    have G: "sabs (upd t (\<lambda>x. x\<lparr>t_flags := fl, t_regs := 0\<rparr>) u) = a_forget t (sabs u)"
      by (rule asched_eqI) (auto simp: a_forget_def init_thread_flags(2) [OF F] fun_eq_iff)
    show ?thesis
    proof (cases "fpage = 0")
      case True with C u Some G iu show ?thesis by (simp add: create_thread_with_id_stack_def)
    next
      case False
      let ?cpu = "if st = 0 \<or> \<not> upcalls_active u then - 1 else pc"
      let ?v = "upd t (init_thread fl ?cpu (timeslice u) i) u"
      let ?w = "?v\<lparr>thread_list := thread_list ?v @ [t]\<rparr>"
      from C u Some False have w: "guk_wake c t ?w = Inr s'"
        by (auto simp: create_thread_with_id_stack_def Let_def res_bind_Inr_iff split: if_split_asm)
      let ?b = "a_forget t (sabs u)"
      have W: "sabs ?w = ?b\<lparr>aLive := insert t (aLive ?b), aJoiners := (aJoiners ?b)(t := []),
          aCpu := (aCpu ?b)(t := ?cpu)\<rparr>"
        by (rule asched_eqI) (auto simp: a_forget_def init_thread_flags(1) [OF F] fun_eq_iff)
      have "t \<notin> range (aCur (sabs u))" using I T U(1) by (auto simp: ainv_def live_ok_def)
      then have "ainv (sabs ?w)" unfolding W
        by (intro ainv_new_live iu) (use T U(1) in \<open>auto simp: a_forget_def\<close>)
      moreover have "t \<in> aLive (sabs ?w)" "t \<notin> aJoin (sabs ?w)" "t \<notin> aDying (sabs ?w)"
        unfolding W by (simp_all add: a_forget_def)
      ultimately show ?thesis unfolding guk_wake_refines [OF w] by (rule ainv_wake)
    qed
  qed
qed

lemma ainv_sleepers:
  assumes I: "ainv a" and X: "X \<subseteq> aSleepers a"
  shows "ainv (a\<lparr>aSleepers := X\<rparr>)" (is "ainv ?x")
proof (rule ainvI)
  show "queues_ok ?x" using X ainvD(1) [OF I] by (auto simp: queues_ok_def)
  show "cpus_ok ?x" using X ainvD(2) [OF I] by (auto simp: cpus_ok_def)
  show "live_ok ?x" using X ainvD(3) [OF I] by (auto simp: live_ok_def)
qed

lemma ainv_new_sleeper:
  assumes I: "ainv a" and T: "t \<in> aLive a" "t \<notin> aJoin a" "t \<notin> aDying a"
  shows "ainv (a\<lparr>aSleepers := insert t (aSleepers a)\<rparr>)" (is "ainv ?x")
proof (rule ainvI)
  show "queues_ok ?x" using T ainvD(1) [OF I] by (auto simp: queues_ok_def)
  show "cpus_ok ?x" using T ainvD(2) [OF I] by (auto simp: cpus_ok_def)
  show "live_ok ?x" using T ainvD(3) [OF I] by (auto simp: live_ok_def)
qed

lemma set_sleep_insert: "set (sleep_insert m q qs) = insert q (set qs)"
  by (induction qs) auto

lemma sabs_sleep_queue_add:
  "sabs (guk_sleep_queue_add q s) =
   (sabs s)\<lparr>aSleepers := insert (sq_thread (sqs s q)) (aSleepers (sabs s))\<rparr>"
  by (rule asched_eqI)
    (auto simp: guk_sleep_queue_add_def set_sleep_insert upd_sq_def image_iff)

lemma sabs_sleep_queue_del:
  "sabs (guk_sleep_queue_del q s) =
   (sabs s)\<lparr>aSleepers := (\<lambda>q. sq_thread (sqs s q)) ` (set (sleep_list s) - {q})\<rparr>"
  by (rule asched_eqI) (auto simp: guk_sleep_queue_del_def upd_sq_def image_iff)

lemma ainv_add_timer:
  assumes I: "ainv (sabs s)" and T: "current_thread s c \<in> set (thread_list s)"
    "\<not> has s JOIN (current_thread s c)" "\<not> has s DYING (current_thread s c)" "q \<notin> set (sleep_list s)"
  shows "ainv (sabs (guk_add_timer c now q timeout s))"
proof -
  let ?g = "\<lambda>x. x\<lparr>sq_thread := current_thread s c, sq_wakeup_time := now + timeout * 1000000\<rparr>"
  have "sabs (upd_sq q ?g s) = sabs s" using T by (intro sabs_upd_sq_same) simp
  then show ?thesis using T ainv_new_sleeper [OF I, of "current_thread s c"]
    by (simp add: guk_add_timer_def sabs_sleep_queue_add)
qed

lemma ainv_sleep_queue_del: "ainv (sabs s) \<Longrightarrow> ainv (sabs (guk_sleep_queue_del q s))"
  unfolding sabs_sleep_queue_del by (erule ainv_sleepers) auto

lemma ainv_remove_timer: "ainv (sabs s) \<Longrightarrow> ainv (sabs (snd (guk_remove_timer q s)))"
  by (simp add: guk_remove_timer_def Let_def sabs_upd_sq_same ainv_sleep_queue_del)

lemma nanosleepE:
  assumes N: "guk_nanosleep c now q ns s = Inr s'"
  obtains u v w where "preempt_disable c (upd_sq q (\<lambda>x. x\<lparr>sq_flags := 0, sq_thread := current_thread s c\<rparr>) s) = Inr u"
    "block c (current_thread s c) u = Inr v"
    "w = upd (current_thread s c) (flag_set SLEEP) (upd_sq q (\<lambda>x. x\<lparr>sq_wakeup_time := now + ns\<rparr>) v)"
    "preempt_enable c (guk_sleep_queue_add q w) = Inr s'"
  using N unfolding guk_nanosleep_def Let_def by (auto simp: res_bind_Inr_iff)

lemma ainv_nanosleep:
  assumes N: "guk_nanosleep c now q ns s = Inr s'" and I: "ainv (sabs s)"
    and T: "current_thread s c \<in> set (thread_list s)" "\<not> has s JOIN (current_thread s c)"
      "\<not> has s DYING (current_thread s c)" "q \<notin> set (sleep_list s)"
  shows "ainv (sabs s')"
proof -
  let ?t = "current_thread s c"
  let ?s = "upd_sq q (\<lambda>x. x\<lparr>sq_flags := 0, sq_thread := ?t\<rparr>) s"
  from N obtain u v w where u: "preempt_disable c ?s = Inr u" and v: "block c ?t u = Inr v"
    and w: "w = upd ?t (flag_set SLEEP) (upd_sq q (\<lambda>x. x\<lparr>sq_wakeup_time := now + ns\<rparr>) v)"
    and e: "preempt_enable c (guk_sleep_queue_add q w) = Inr s'" by (rule nanosleepE)
  have S: "sabs ?s = sabs s" using T by (intro sabs_upd_sq_same) simp
  have cv: "core v = core ?s" using core_block [OF v] core_preempt(1) [OF u] by simp
  have W: "sabs w = a_block ?t (sabs s)"
    using block_refines [OF v] sabs_preempt_disable [OF u]
    unfolding w by (simp add: sabs_set_other sabs_upd_sq_same S)
  have q: "sq_thread (sqs w q) = ?t" unfolding w using coreD(2) [OF cv] by simp
  have "ainv (sabs w)" unfolding W using I by (rule ainv_block)
  then have "ainv ((sabs w)\<lparr>aSleepers := insert ?t (aSleepers (sabs w))\<rparr>)"
    by (rule ainv_new_sleeper) (use T in \<open>simp_all only: W a_block_sel sabs_sel mem_Collect_eq simp_thms\<close>)
  then show ?thesis using sabs_preempt_enable [OF e] by (simp add: sabs_sleep_queue_add q)
qed

lemma ainv_nanosleep_return: "ainv (sabs s) \<Longrightarrow> ainv (sabs (snd (nanosleep_return t q s)))"
  by (auto simp: nanosleep_return_def Let_def sabs_set_other sabs_upd_sq_same ainv_sleep_queue_del)

section \<open>Order of the sleep queue\<close>

definition sleep_ok :: "sched \<Rightarrow> bool" where
  "sleep_ok s \<longleftrightarrow> distinct (sleep_list s) \<and>
     sorted_wrt (\<lambda>p q. sint (sq_wakeup_time (sqs s p)) \<le> sint (sq_wakeup_time (sqs s q))) (sleep_list s)"

lemma sleep_ok_cong:
  assumes "sleep_list s' = sleep_list s"
    and "\<And>q. q \<in> set (sleep_list s) \<Longrightarrow> sq_wakeup_time (sqs s' q) = sq_wakeup_time (sqs s q)"
  shows "sleep_ok s' = sleep_ok s"
  unfolding sleep_ok_def assms(1)
  by (metis (no_types, lifting) assms(2) sorted_wrt_mono_rel)

lemma sleep_ok_core: "core s' = core s \<Longrightarrow> sleep_ok s' = sleep_ok s"
  using coreD(1,2) [of s' s] by (intro sleep_ok_cong) simp_all

lemma sleep_insert_sorted:
  assumes "sorted_wrt (\<lambda>p q. sint (sq_wakeup_time (m p)) \<le> sint (sq_wakeup_time (m q))) qs"
  shows "sorted_wrt (\<lambda>p q. sint (sq_wakeup_time (m p)) \<le> sint (sq_wakeup_time (m q))) (sleep_insert m q qs)"
  using assms
proof (induction qs)
  case (Cons e es)
  then show ?case by (cases "sint (sq_wakeup_time (m e)) > sint (sq_wakeup_time (m q))")
      (auto simp: set_sleep_insert intro: order_trans dest: less_imp_le)
qed simp

lemma sleep_insert_distinct: "distinct qs \<Longrightarrow> q \<notin> set qs \<Longrightarrow> distinct (sleep_insert m q qs)"
  by (induction qs) (auto simp: set_sleep_insert)

lemma sleep_ok_add:
  assumes "sleep_ok s" "q \<notin> set (sleep_list s)"
  shows "sleep_ok (guk_sleep_queue_add q s)"
proof -
  let ?r = "\<lambda>m p q. sint (sq_wakeup_time (m p)) \<le> sint (sq_wakeup_time (m q))"
  have eq: "?r ((sqs s)(q := sq_set ACTIVE (sqs s q))) = ?r (sqs s)" by (auto simp: fun_eq_iff)
  show ?thesis using assms sleep_insert_sorted [of "sqs s" "sleep_list s" q]
    unfolding sleep_ok_def guk_sleep_queue_add_def
    by (simp add: upd_sq_def eq sleep_insert_distinct del: fun_upd_apply)
qed

lemma sleep_ok_del: "sleep_ok s \<Longrightarrow> sleep_ok (guk_sleep_queue_del q s)"
proof -
  assume A: "sleep_ok s"
  let ?r = "\<lambda>m p q. sint (sq_wakeup_time (m p)) \<le> sint (sq_wakeup_time (m q))"
  have eq: "?r ((sqs s)(q := sq_clear ACTIVE (sqs s q))) = ?r (sqs s)" by (auto simp: fun_eq_iff)
  show ?thesis using A unfolding sleep_ok_def guk_sleep_queue_del_def
    by (simp add: upd_sq_def eq distinct_removeAll removeAll_filter_not_eq sorted_wrt_filter
        del: fun_upd_apply)
qed

end
