(* ===== verification/Guk_Sched_Props.thy ===== *)
theory Guk_Sched_Props
  imports Guk_Sched_Inv
begin

text \<open>
  The scheduler's transition system and its correctness properties: agreement of queues and
  flags, mutual exclusion of CPUs, the choice of the next thread, the order of the sleep queue
  and the waking of expired sleepers, and the race between two CPUs in \<open>guk_schedule\<close>.
\<close>

section \<open>Operations that leave the sleep queue alone\<close>

definition slp :: "sched \<Rightarrow> sqptr list \<times> (sqptr \<Rightarrow> sleep_queue)" where
  "slp s = (sleep_list s, sqs s)"

lemma slp_core: "core s' = core s \<Longrightarrow> slp s' = slp s"
  by (simp add: slp_def core_def)

lemma slp_basic [simp]:
  "slp (upd t g s) = slp s" "slp (emit e s) = slp s" "slp (ready_list_del_init t s) = slp s"
  "slp (ready_add_tail t s) = slp s" "slp (s\<lparr>thread_list := x\<rparr>) = slp s"
  "slp (s\<lparr>zombie_queue := y\<rparr>) = slp s" "slp (s\<lparr>thread_id := z\<rparr>) = slp s"
  "slp (s\<lparr>debug_thread_id := z\<rparr>) = slp s" "slp (s\<lparr>upcalls_active := b\<rparr>) = slp s"
  "slp (switch_thread_in c t s) = slp s" "slp (rotate_prev c t s) = slp s"
  by (simp_all add: slp_def upd_def emit_def ready_list_del_init_def ready_add_tail_def
      switch_thread_in_def rotate_prev_def)

lemma slp_ops:
  "preempt_disable c s = Inr s' \<Longrightarrow> slp s' = slp s"
  "preempt_enable c s = Inr s' \<Longrightarrow> slp s' = slp s"
  "block c t s = Inr s' \<Longrightarrow> slp s' = slp s"
  "db_wake c t s = Inr s' \<Longrightarrow> slp s' = slp s"
  "guk_wake c t s = Inr s' \<Longrightarrow> slp s' = slp s"
  "wake_joiners c t s = Inr s' \<Longrightarrow> slp s' = slp s"
  by (auto intro!: slp_core dest: core_preempt core_block core_db_wake core_wake
      core_wake_joiners_loop simp: wake_joiners_def)

lemma slp_join: "guk_join_thread c j s = Inr (b, s') \<Longrightarrow> slp s' = slp s"
  by (auto simp: guk_join_thread_def Let_def res_bind_Inr_iff dest!: slp_ops split: if_split_asm)

lemma slp_interrupt: "guk_interrupt c t s = Inr s' \<Longrightarrow> slp s' = slp s"
  by (auto simp: guk_interrupt_def Let_def dest!: slp_ops split: if_split_asm)

lemma slp_exit: "exit_thread c s = Inr s' \<Longrightarrow> slp s' = slp s"
  by (auto simp: exit_thread_def Let_def wake_joiners_if res_bind_Inr_iff dest!: slp_ops
      split: if_split_asm)

lemma slp_attach: "guk_attach_to_appsched c t i s = Inr s' \<Longrightarrow> slp s' = slp s"
  by (auto simp: guk_attach_to_appsched_def Let_def res_bind_Inr_iff dest!: slp_ops
      split: if_split_asm)

lemma slp_detach: "guk_detach_from_appsched c t s = Inr s' \<Longrightarrow> slp s' = slp s"
  by (auto simp: guk_detach_from_appsched_def Let_def res_bind_Inr_iff dest!: slp_ops
      split: if_split_asm)

lemma slp_create:
  assumes "create_thread_with_id_stack c A xm pages fpage pc f fl st sz d i s = Inr (r, s')"
  shows "slp s' = slp s"
proof -
  obtain a u where u: "arch_create_thread A xm pages f st sz d s = (a, u)"
    by (cases "arch_create_thread A xm pages f st sz d s")
  have "slp u = slp s" using arch_create_thread_refines(2) [OF u] by (rule slp_core)
  then show ?thesis using assms u
    by (auto simp: create_thread_with_id_stack_def Let_def res_bind_Inr_iff dest!: slp_ops(5)
        split: option.splits if_split_asm)
qed

lemma slp_reap_thread: "reap_thread c t s = Inr s' \<Longrightarrow> slp s' = slp s"
proof -
  assume "reap_thread c t s = Inr s'"
  then obtain v where "wake_joiners c t (ready_list_del_init t s) = Inr v" and "slp s' = slp v"
    unfolding reap_thread_def Let_def wake_joiners_if res_bind_Inr_iff by (elim exE conjE) auto
  then show ?thesis using slp_ops(6) by simp
qed

lemma slp_reap_loop: "reap_loop c ts s = Inr s' \<Longrightarrow> slp s' = slp s"
proof (induction ts arbitrary: s)
  case (Cons t ts)
  let ?m = "if has s DYING t then
      if \<not> has s RUNNING t \<and> t_cpu (thr s t) = c then reap_thread c t s else Inr s else Inr s"
  from Cons.prems obtain u where u: "?m = Inr u" and r: "reap_loop c ts u = Inr s'"
    unfolding reap_loop.simps res_bind_Inr_iff by (elim exE conjE) (rule that)
  from u have "slp u = slp s" by (auto dest: slp_reap_thread split: if_split_asm)
  then show ?case using Cons.IH [OF r] by simp
qed simp

lemma wake_expired_loop_sqs:
  "wake_expired_loop c now qs s = Inr s' \<Longrightarrow>
   sq_wakeup_time (sqs s' q) = sq_wakeup_time (sqs s q) \<and> sq_thread (sqs s' q) = sq_thread (sqs s q)
   \<and> sleep_list s' = sleep_list s"
proof (induction qs arbitrary: s)
  case (Cons p qs)
  show ?case
  proof (cases "\<not> sq_test EXPIRED (sqs s p) \<and> sint (sq_wakeup_time (sqs s p)) \<le> sint now")
    case True
    with Cons.prems obtain u
      where u: "guk_wake c (sq_thread (sqs s p)) (upd_sq p (sq_set EXPIRED) s) = Inr u"
        and r: "wake_expired_loop c now qs u = Inr s'" by (auto simp: res_bind_Inr_iff)
    have "sqs u = (sqs s)(p := sq_set EXPIRED (sqs s p))" "sleep_list u = sleep_list s"
      using coreD(1,2) [OF core_wake [OF u]] by simp_all
    then show ?thesis using Cons.IH [OF r] by simp
  next
    case False
    then show ?thesis using Cons by (auto split: if_splits)
  qed
qed simp

lemma slp_pick_thread: "pick_thread c up p cpu s = Inr (n, s') \<Longrightarrow> slp s' = slp s"
  unfolding pick_thread_def Let_def res_bind_Inr_iff
  by (elim exE conjE) (auto split: option.splits if_split_asm)

lemma slp_schedule_commit: "schedule_commit c rt n s = Inr s' \<Longrightarrow> slp s' = slp s"
  unfolding schedule_commit_def Let_def set_timer_interrupt_def
  by (cases "has s DYING n"; cases "current_thread s c = n") (auto simp: slp_def split: if_split_asm)

lemma sleep_ok_slp: "slp s' = slp s \<Longrightarrow> sleep_ok s' = sleep_ok s"
  by (rule sleep_ok_cong) (simp_all add: slp_def)

lemma sleep_ok_schedule:
  assumes S: "guk_schedule c up now rt s = Inr s'" and K: "sleep_ok s"
  shows "sleep_ok s'"
proof -
  let ?p = "current_thread s c"
  let ?s = "upd ?p (\<lambda>x. x\<lparr>t_cum_running_time := t_cum_running_time x + (rt - t_start_running_time x)\<rparr>) s"
  from S obtain n u v where u: "schedule_pick c up now rt s = Inr (n, u)"
    and v: "schedule_commit c rt n u = Inr v"
    and s': "s' = (if ?p \<noteq> n then switch_thread_in c ?p v else v)"
    unfolding guk_schedule_def Let_def by (auto simp: res_bind_Inr_iff)
  from u obtain w x where w: "wake_expired c now ?s = Inr w" and x: "preempt_disable c w = Inr x"
    and f: "slp u = slp x"
    unfolding schedule_pick_def Let_def
    by (simp only: split: if_split_asm) (auto simp: res_bind_Inr_iff dest: slp_pick_thread split: if_split_asm)
  have "sleep_ok w = sleep_ok ?s"
    using w wake_expired_loop_sqs by (intro sleep_ok_cong) (fastforce simp: wake_expired_def)+
  moreover have "slp s' = slp w"
    using s' slp_schedule_commit [OF v] f slp_ops(1) [OF x] by simp
  ultimately show ?thesis using K sleep_ok_slp [of s' w] sleep_ok_slp [of ?s s] by simp
qed

lemma sleep_ok_upd_new:
  "sleep_ok s \<Longrightarrow> q \<notin> set (sleep_list s) \<Longrightarrow> sleep_ok (upd_sq q g s)"
  by (subst sleep_ok_cong [of _ s]) auto

lemma sleep_ok_upd_flags: "sleep_ok (upd_sq q (sq_clear f) s) = sleep_ok s"
  by (rule sleep_ok_cong) (auto simp: upd_sq_def)

lemma sleep_ok_nanosleep:
  assumes N: "guk_nanosleep c now q ns s = Inr s'" and K: "sleep_ok s" and Q: "q \<notin> set (sleep_list s)"
  shows "sleep_ok s'"
proof -
  from N obtain u v w where
    u: "preempt_disable c (upd_sq q (\<lambda>x. x\<lparr>sq_flags := 0, sq_thread := current_thread s c\<rparr>) s) = Inr u"
    and v: "block c (current_thread s c) u = Inr v"
    and w: "w = upd (current_thread s c) (flag_set SLEEP) (upd_sq q (\<lambda>x. x\<lparr>sq_wakeup_time := now + ns\<rparr>) v)"
    and e: "preempt_enable c (guk_sleep_queue_add q w) = Inr s'" by (rule nanosleepE)
  have c: "slp v = slp (upd_sq q (\<lambda>x. x\<lparr>sq_flags := 0, sq_thread := current_thread s c\<rparr>) s)"
    using slp_ops(1) [OF u] slp_ops(3) [OF v] by simp
  have "sleep_ok v" using sleep_ok_slp [OF c] sleep_ok_upd_new [OF K Q] by simp
  moreover have "sleep_list v = sleep_list s" using c by (simp add: slp_def)
  ultimately have "sleep_ok w" "q \<notin> set (sleep_list w)"
    unfolding w using Q sleep_ok_slp [OF slp_basic(1)] by (simp_all add: sleep_ok_upd_new)
  then show ?thesis using sleep_ok_add sleep_ok_slp [OF slp_ops(2) [OF e]] by simp
qed

section \<open>Transition system\<close>

definition sched_init :: "sched \<Rightarrow> bool" where
  "sched_init s \<longleftrightarrow> (\<forall>t. t_flags (thr s t) AND (FLAG RUNNABLE OR FLAG DYING OR FLAG JOIN OR FLAG APPSCHED) = 0 \<and>
       t_joiners (thr s t) = []) \<and>
     ready_queue s = [] \<and> sleep_list s = [] \<and> zombie_queue s = [] \<and> thread_list s = [] \<and>
     inj (idle_thread s) \<and> current_thread s = idle_thread s \<and> (\<forall>c. t_cpu (thr s (idle_thread s c)) = c)"

text \<open>A thread that runs on CPU \<open>c\<close> and may block or exit.\<close>

definition active :: "sched \<Rightarrow> u32 \<Rightarrow> bool" where
  "active s c \<longleftrightarrow> current_thread s c \<in> set (thread_list s) \<and>
     \<not> has s JOIN (current_thread s c) \<and> \<not> has s DYING (current_thread s c)"

definition sleeping_on :: "sched \<Rightarrow> tptr \<Rightarrow> bool" where
  "sleeping_on s t \<longleftrightarrow> t \<in> (\<lambda>q. sq_thread (sqs s q)) ` set (sleep_list s)"

inductive sched_step :: "sched \<Rightarrow> sched \<Rightarrow> bool" where
  create: "create_thread_with_id_stack c A xm pages fpage pc f fl st sz d i s = Inr (r, s') \<Longrightarrow>
     fl = 0 \<or> fl = FLAG UKERNEL \<Longrightarrow>
     (\<And>t. xm = Some t \<Longrightarrow> t \<notin> set (thread_list s) \<and> t \<notin> range (idle_thread s)) \<Longrightarrow> sched_step s s'"
| block: "block c t s = Inr s' \<Longrightarrow> sched_step s s'"
| wake: "guk_wake c t s = Inr s' \<Longrightarrow> t \<in> set (thread_list s) \<Longrightarrow> \<not> has s JOIN t \<Longrightarrow>
     \<not> has s DYING t \<Longrightarrow> sched_step s s'"
| db_wake: "db_wake c t s = Inr s' \<Longrightarrow> t \<in> set (thread_list s) \<Longrightarrow> \<not> has s JOIN t \<Longrightarrow>
     \<not> has s DYING t \<Longrightarrow> sched_step s s'"
| join: "guk_join_thread c j s = Inr (b, s') \<Longrightarrow> active s c \<Longrightarrow>
     \<not> sleeping_on s (current_thread s c) \<Longrightarrow> sched_step s s'"
| exit: "exit_thread c s = Inr s' \<Longrightarrow> active s c \<Longrightarrow>
     \<not> sleeping_on s (current_thread s c) \<Longrightarrow> sched_step s s'"
| reap: "reap_dead c s = Inr s' \<Longrightarrow> sched_step s s'"
| interrupt: "guk_interrupt c t s = Inr s' \<Longrightarrow> t \<in> set (thread_list s) \<Longrightarrow> sched_step s s'"
| attach: "guk_attach_to_appsched c t k s = Inr s' \<Longrightarrow> t \<in> set (thread_list s) \<Longrightarrow>
     \<not> has s JOIN t \<Longrightarrow> \<not> has s DYING t \<Longrightarrow> sched_step s s'"
| detach: "guk_detach_from_appsched c t s = Inr s' \<Longrightarrow> t \<in> set (thread_list s) \<Longrightarrow>
     \<not> has s JOIN t \<Longrightarrow> \<not> has s DYING t \<Longrightarrow> has s APPSCHED t \<Longrightarrow> sched_step s s'"
| upcalls: "sched_step s (snd (guk_register_upcalls s))"
| nanosleep: "guk_nanosleep c now q ns s = Inr s' \<Longrightarrow> active s c \<Longrightarrow> q \<notin> set (sleep_list s) \<Longrightarrow>
     sched_step s s'"
| slept: "sched_step s (snd (nanosleep_return t q s))"
| timer: "active s c \<Longrightarrow> q \<notin> set (sleep_list s) \<Longrightarrow> sched_step s (guk_add_timer c now q to s)"
| untimer: "sched_step s (snd (guk_remove_timer q s))"
| schedule: "guk_schedule c up now rt s = Inr s' \<Longrightarrow> sched_step s s'"
| other: "sabs s' = sabs s \<Longrightarrow> slp s' = slp s \<Longrightarrow> sched_step s s'"

inductive sched_reach :: "sched \<Rightarrow> bool" where
  init: "sched_init s \<Longrightarrow> sched_reach s"
| step: "sched_reach s \<Longrightarrow> sched_step s s' \<Longrightarrow> sched_reach s'"

lemma ainv_init:
  assumes "sched_init s" shows "ainv (sabs s) \<and> sleep_ok s"
proof -
  have F: "\<not> has s f t" if "f \<in> {RUNNABLE, DYING, JOIN, APPSCHED}" for f t
  proof -
    have z: "t_flags (thr s t) AND (FLAG RUNNABLE OR FLAG DYING OR FLAG JOIN OR FLAG APPSCHED) = 0"
      using assms by (simp add: sched_init_def)
    have "\<not> bit (t_flags (thr s t) AND (FLAG RUNNABLE OR FLAG DYING OR FLAG JOIN OR FLAG APPSCHED)) (flag_index f)"
      unfolding z by simp
    then show ?thesis using that flag_index_less [of f]
      by (auto simp: flag_test_bit FLAG_index bit_simps simp del: FLAG.simps)
  qed
  show ?thesis using assms F
    by (auto simp: sched_init_def ainv_def queues_ok_def cpus_ok_def live_ok_def sleep_ok_def)
qed

lemma sabs_register: "sabs (snd (guk_register_upcalls s)) =
    (if scheduler_upcalls_allowed s then (sabs s)\<lparr>aUp := True\<rparr> else sabs s)"
  by (auto simp: guk_register_upcalls_def sabs_def)

lemma ainv_up: "ainv a \<Longrightarrow> ainv (a\<lparr>aUp := True\<rparr>)"
  by (simp add: ainv_def queues_ok_def cpus_ok_def live_ok_def)

lemma sched_step_ainv:
  assumes "sched_step s s'" and "ainv (sabs s)"
  shows "ainv (sabs s')"
  using assms
proof (cases rule: sched_step.cases)
  case create then show ?thesis using assms by (metis ainv_create)
next
  case (block c t) then show ?thesis using assms block_refines ainv_block by simp
next
  case (wake c t) then show ?thesis using assms guk_wake_refines [OF wake(1)] ainv_wake by simp
next
  case (db_wake c t) then show ?thesis using assms db_wake_refines [OF db_wake(1)] ainv_ready by simp
next
  case (join c j b) then show ?thesis using assms ainv_join by (auto simp: active_def sleeping_on_def)
next
  case (exit c) then show ?thesis using assms ainv_exit by (auto simp: active_def sleeping_on_def)
next
  case (reap c) then show ?thesis using assms ainv_reap_loop by (auto simp: reap_dead_def)
next
  case (nanosleep c now q ns) then show ?thesis using assms ainv_nanosleep by (auto simp: active_def)
next
  case (timer c q now to) then show ?thesis using assms ainv_add_timer by (auto simp: active_def)
qed (use assms in \<open>auto simp: sabs_register ainv_up ainv_nanosleep_return ainv_remove_timer
      dest: ainv_interrupt ainv_attach ainv_detach ainv_schedule\<close>)

lemma sched_step_sleep_ok:
  assumes "sched_step s s'" and "sleep_ok s"
  shows "sleep_ok s'"
  using assms
proof (cases rule: sched_step.cases)
  case (nanosleep c now q ns) then show ?thesis using assms sleep_ok_nanosleep by blast
next
  case (slept t q) then show ?thesis using assms sleep_ok_slp [OF slp_basic(1)]
    by (simp add: nanosleep_return_def Let_def sleep_ok_upd_flags sleep_ok_del)
next
  case (timer c q now to) then show ?thesis using assms
    by (auto simp: guk_add_timer_def intro!: sleep_ok_add sleep_ok_upd_new)
next
  case (untimer q) then show ?thesis using assms
    by (auto simp: guk_remove_timer_def Let_def sleep_ok_upd_flags sleep_ok_del)
next
  case (schedule c up now rt) then show ?thesis using assms sleep_ok_schedule by blast
next
  case upcalls then show ?thesis using assms sleep_ok_slp [OF slp_basic(9)]
    by (simp add: guk_register_upcalls_def)
next
  case create then show ?thesis using sleep_ok_slp slp_create assms(2) by metis
next
  case block then show ?thesis using sleep_ok_slp slp_ops(3) assms(2) by metis
next
  case wake then show ?thesis using sleep_ok_slp slp_ops(5) assms(2) by metis
next
  case db_wake then show ?thesis using sleep_ok_slp slp_ops(4) assms(2) by metis
next
  case join then show ?thesis using sleep_ok_slp slp_join assms(2) by metis
next
  case exit then show ?thesis using sleep_ok_slp slp_exit assms(2) by metis
next
  case reap then show ?thesis using sleep_ok_slp slp_reap_loop reap_dead_def assms(2) by metis
next
  case interrupt then show ?thesis using sleep_ok_slp slp_interrupt assms(2) by metis
next
  case attach then show ?thesis using sleep_ok_slp slp_attach assms(2) by metis
next
  case detach then show ?thesis using sleep_ok_slp slp_detach assms(2) by metis
next
  case other then show ?thesis using sleep_ok_slp assms(2) by metis
qed

lemma sched_reach_inv: "sched_reach s \<Longrightarrow> ainv (sabs s) \<and> sleep_ok s"
  by (induction rule: sched_reach.induct)
    (auto simp: ainv_init dest: sched_step_ainv sched_step_sleep_ok)

section \<open>A boot state with two CPUs\<close>

definition zero_thread :: thread where
  "zero_thread = \<lparr>t_preempt_count = 0, t_flags = 0, t_regs = 0, t_id = 0, t_appsched_id = 0,
     t_guk_stack_allocated = False, t_stack = 0, t_stack_size = 0, t_timeslice = 0,
     t_resched_running_time = 0, t_start_running_time = 0, t_cum_running_time = 0, t_cpu = 0,
     t_lock_count = 0, t_sp = 0, t_ip = 0, t_specific = 0, t_joiners = []\<rparr>"

definition boot_sched :: sched where
  "boot_sched = \<lparr>thr = (\<lambda>t. zero_thread\<lparr>t_cpu := of_nat (t div 2), t_flags := (if odd t then FLAG UKERNEL else 0)\<rparr>),
     sqs = (\<lambda>_. \<lparr>sq_flags = 0, sq_wakeup_time = 0, sq_thread = 0\<rparr>),
     ready_queue = [], sleep_list = [], zombie_queue = [], thread_list = [],
     upcalls_active = False, scheduler_upcalls_allowed = False, timeslice = 10000000,
     trace_cpu = 0, num_sched_cpus = 0, debug_thread_id = 32, thread_id = 34,
     smp_init_completed = True, smp_active = 2, suspend_count = 0,
     idle_thread = (\<lambda>c. 2 * unat c + 1), current_thread = (\<lambda>c. 2 * unat c + 1), cpu_states = (\<lambda>_. CPU_UP),
     irqcount = (\<lambda>_. - 1), irqs_off = (\<lambda>_. False), stack_mem = (\<lambda>_. 0), out = []\<rparr>"

lemma boot_sched_init: "sched_init boot_sched"
proof -
  have "inj (\<lambda>c :: u32. 2 * unat c + 1)" by (rule injI) (simp add: word_unat_eq_iff)
  moreover have "of_nat (unat c) = c" for c :: u32 by simp
  ultimately show ?thesis
    by (auto simp: sched_init_def boot_sched_def zero_thread_def)
qed

section \<open>Facts on the choice and on waking\<close>

lemma pick_loop_find:
  "i + length ts \<le> unat (thread_id s) \<Longrightarrow> pick_loop s cpu i ts = Inr (find (eligible s cpu) ts)"
  by (induction ts arbitrary: i) auto

lemma rotate_prev_queue:
  "ready_queue (rotate_prev c prev s) =
     (if (\<not> upcalls_active s \<or> \<not> has s APPSCHED prev) \<and> has s RUNNABLE prev \<and> prev \<noteq> idle_thread s c
      then removeAll prev (ready_queue s) @ [prev] else ready_queue s)"
  and rotate_prev_sel: "thread_id (rotate_prev c prev s) = thread_id s"
    "idle_thread (rotate_prev c prev s) = idle_thread s"
    "upcalls_active (rotate_prev c prev s) = upcalls_active s"
    "has (rotate_prev c prev s) f t = has s f t"
    "t_cpu (thr (rotate_prev c prev s) t) = t_cpu (thr s t)"
  by (auto simp: rotate_prev_def)

lemma eligible_rotate: "eligible (rotate_prev c prev s) = eligible s"
  by (auto simp: fun_eq_iff eligible_def rotate_prev_sel)

lemma length_removeAll_mem: "t \<in> set xs \<Longrightarrow> length (removeAll t xs) < length xs"
  by (induction xs) (auto simp: less_Suc_eq_le)

text \<open>The preemption counter of the current thread allows one more level.\<close>

definition preempt_room :: "sched \<Rightarrow> u32 \<Rightarrow> bool" where
  "preempt_room s c \<longleftrightarrow> 0 \<le> sint (t_preempt_count (thr s (current_thread s c))) \<and>
     sint (t_preempt_count (thr s (current_thread s c))) < 2 ^ 31 - 1"

lemma sint_add_one:
  fixes n :: u32
  assumes "sint n < 2 ^ 31 - 1" shows "sint (n + 1) = sint n + 1"
proof -
  have "- (2 ^ 31) \<le> sint n" using sint_ge [of n] by simp
  then have "signed_take_bit 31 (sint n + 1) = sint n + 1"
    using assms by (intro signed_take_bit_int_eq_self) simp_all
  then show ?thesis by (simp add: sint_word_ariths)
qed

lemma preempt_pair:
  assumes "preempt_room s c" and "current_thread s' = current_thread s"
    and "\<And>u. preempt_disable c s = Inr u \<Longrightarrow>
      t_preempt_count (thr s' (current_thread s c)) = t_preempt_count (thr u (current_thread s c))"
  shows "\<exists>u v. preempt_disable c s = Inr u \<and> preempt_enable c s' = Inr v \<and>
    t_preempt_count (thr v (current_thread s c)) = t_preempt_count (thr s (current_thread s c))"
proof -
  let ?t = "current_thread s c" let ?n = "t_preempt_count (thr s ?t)"
  have n: "sint (?n + 1) = sint ?n + 1" using assms(1) by (intro sint_add_one) (simp add: preempt_room_def)
  have d: "preempt_disable c s = Inr (upd ?t (\<lambda>x. x\<lparr>t_preempt_count := ?n + 1\<rparr>) s)"
    using assms(1) n by (simp add: preempt_disable_def add_preempt_count_def Let_def preempt_room_def)
  from assms(3) [OF d] have "t_preempt_count (thr s' ?t) = ?n + 1" by simp
  then have "preempt_enable c s' = Inr (preempt_check_resched c (upd ?t (\<lambda>x. x\<lparr>t_preempt_count := ?n\<rparr>) s'))"
    using assms(1,2) by (simp add: preempt_enable_def add_preempt_count_def Let_def preempt_room_def)
  with d show ?thesis by (auto simp: preempt_check_resched_def)
qed

lemma guk_wake_total:
  assumes "\<not> has s DYING t" and R: "preempt_room s c"
  shows "\<exists>s'. guk_wake c t s = Inr s' \<and> preempt_room s' c"
proof -
  let ?u = "upd t (\<lambda>x. x\<lparr>t_regs := 0\<rparr>) s"
  have Ru: "preempt_room ?u c" using R by (auto simp: preempt_room_def)
  have kick: "preempt_room (guk_kick_cpu c k s) c = preempt_room s c" for k s
    by (auto simp: preempt_room_def guk_kick_cpu_def smp_signal_cpu_def)
  have db: "\<exists>s'. db_wake c t ?u = Inr s' \<and> preempt_room s' c"
  proof (cases "upcalls_active ?u \<and> has ?u APPSCHED t")
    case True
    obtain w where d: "preempt_disable c ?u = Inr w"
      using preempt_pair [OF Ru refl, of] Ru
      by (metis (no_types, lifting) add_preempt_count_def bug_on_simps(2) not_less preempt_disable_def
          preempt_room_def sint_add_one add_increasing2 zero_le_one)
    let ?e = "emit (WakeUpcall (t_appsched_id (thr w t)) c) (upd t (flag_set RUNNABLE) w)"
    have cw: "current_thread w = current_thread ?u" using coreD(10) [OF core_preempt(1) [OF d]] .
    have pc: "t_preempt_count (thr ?e x) = t_preempt_count (thr w x)" for x by simp
    have "\<exists>u v. preempt_disable c ?u = Inr u \<and> preempt_enable c ?e = Inr v \<and>
        t_preempt_count (thr v (current_thread ?u c)) = t_preempt_count (thr ?u (current_thread ?u c))"
      using d by (intro preempt_pair [OF Ru]) (simp add: cw, simp only: pc sum.inject)
    then obtain v where v: "preempt_enable c ?e = Inr v"
      "t_preempt_count (thr v (current_thread ?u c)) = t_preempt_count (thr ?u (current_thread ?u c))"
      by blast
    have "current_thread v = current_thread ?u" using coreD(10) [OF core_preempt(2) [OF v(1)]] cw by simp
    then have "preempt_room v c" using Ru v(2) by (simp add: preempt_room_def)
    then show ?thesis using True d v by (simp add: db_wake_def kick)
  next
    case False
    then show ?thesis using Ru
      by (cases "has ?u RUNNABLE t") (auto simp: db_wake_def kick, auto simp: preempt_room_def)
  qed
  show ?thesis using db assms(1) Ru unfolding guk_wake_def Let_def
    by (cases "has ?u DEBUG_SUSPEND t"; cases "has ?u REQ_DEBUG_SUSPEND t";
        cases "has ?u RUNNABLE t") (auto, auto simp: preempt_room_def)
qed

text \<open>Waking the sleepers of a list of queue entries that are due.\<close>

lemma a_wake_runnable:
  "aRunnable (a_wake t a) = (if t \<in> aSusp a \<union> aReq a then aRunnable a else insert t (aRunnable a))"
  "aSusp (a_wake t a) \<union> aReq (a_wake t a) = aSusp a \<union> aReq a"
  by (auto simp: a_wake_def a_ready_def)

definition held :: "sched \<Rightarrow> tptr \<Rightarrow> bool" where
  "held s t \<longleftrightarrow> has s DEBUG_SUSPEND t \<or> has s REQ_DEBUG_SUSPEND t"

lemma wake_expired_loop_correct:
  assumes "distinct qs" "preempt_room s c" "ainv (sabs s)" "set qs \<subseteq> set (sleep_list s)"
    "sorted_wrt (\<lambda>p q. sint (sq_wakeup_time (sqs s p)) \<le> sint (sq_wakeup_time (sqs s q))) qs"
  shows "\<exists>s'. wake_expired_loop c now qs s = Inr s' \<and>
    (\<forall>q. sq_test EXPIRED (sqs s' q) \<longleftrightarrow> sq_test EXPIRED (sqs s q) \<or>
       q \<in> set qs \<and> sint (sq_wakeup_time (sqs s q)) \<le> sint now) \<and>
    (\<forall>t. has s' RUNNABLE t \<longleftrightarrow> has s RUNNABLE t \<or> \<not> held s t \<and>
       (\<exists>q\<in>set qs. sq_thread (sqs s q) = t \<and> \<not> sq_test EXPIRED (sqs s q) \<and>
          sint (sq_wakeup_time (sqs s q)) \<le> sint now))"
  using assms
proof (induction qs arbitrary: s)
  case (Cons p qs)
  consider (skip) "sq_test EXPIRED (sqs s p)"
    | (wake) "\<not> sq_test EXPIRED (sqs s p)" "sint (sq_wakeup_time (sqs s p)) \<le> sint now"
    | (stop) "\<not> sq_test EXPIRED (sqs s p)" "sint (sq_wakeup_time (sqs s p)) > sint now"
    by linarith
  then show ?case
  proof cases
    case skip
    from Cons.prems have "\<exists>s'. wake_expired_loop c now qs s = Inr s' \<and>
        (\<forall>q. sq_test EXPIRED (sqs s' q) \<longleftrightarrow> sq_test EXPIRED (sqs s q) \<or>
           q \<in> set qs \<and> sint (sq_wakeup_time (sqs s q)) \<le> sint now) \<and>
        (\<forall>t. has s' RUNNABLE t \<longleftrightarrow> has s RUNNABLE t \<or> \<not> held s t \<and>
           (\<exists>q\<in>set qs. sq_thread (sqs s q) = t \<and> \<not> sq_test EXPIRED (sqs s q) \<and>
              sint (sq_wakeup_time (sqs s q)) \<le> sint now))"
      by (intro Cons.IH) auto
    then show ?thesis using skip by auto
  next
    case stop
    have "sint now < sint (sq_wakeup_time (sqs s q))" if "q \<in> set qs" for q
      using stop(2) Cons.prems(5) that by fastforce
    then show ?thesis using stop by fastforce
  next
    case wake
    let ?t = "sq_thread (sqs s p)" let ?u = "upd_sq p (sq_set EXPIRED) s"
    have "?t \<in> aSleepers (sabs s)" using Cons.prems(4) by auto
    then have T: "?t \<in> aLive (sabs s)" "?t \<notin> aJoin (sabs s)" "?t \<notin> aDying (sabs s)"
      using ainvD(1,3) [OF Cons.prems(3)] unfolding queues_ok_def live_ok_def by blast+
    then have "\<not> has ?u DYING ?t" "preempt_room ?u c"
      using Cons.prems(2) by (auto simp: preempt_room_def)
    then obtain v where v: "guk_wake c ?t ?u = Inr v" and R: "preempt_room v c"
      using guk_wake_total by blast
    have A: "sabs v = a_wake ?t (sabs s)"
      using guk_wake_refines [OF v] by (simp add: sabs_upd_sq_same)
    have I: "ainv (sabs v)" unfolding A using Cons.prems(3) T by (intro ainv_wake)
    have Q: "sqs v = (sqs s)(p := sq_set EXPIRED (sqs s p))" "sleep_list v = sleep_list s"
      using coreD(1,2) [OF core_wake [OF v]] by simp_all
    have wt: "sq_wakeup_time (sqs v q) = sq_wakeup_time (sqs s q)" for q by (simp add: Q(1))
    have run: "has v RUNNABLE t \<longleftrightarrow> has s RUNNABLE t \<or> (t = ?t \<and> \<not> held s ?t)" for t
    proof -
      have "t \<in> aRunnable (sabs v) \<longleftrightarrow> t \<in> aRunnable (sabs s) \<or> (t = ?t \<and> ?t \<notin> aSusp (sabs s) \<union> aReq (sabs s))"
        unfolding A a_wake_runnable(1) by auto
      then show ?thesis by (simp add: held_def)
    qed
    have heldv: "held v t = held s t" for t
    proof -
      have "t \<in> aSusp (sabs v) \<union> aReq (sabs v) \<longleftrightarrow> t \<in> aSusp (sabs s) \<union> aReq (sabs s)"
        unfolding A a_wake_runnable(2) by simp
      then show ?thesis by (simp add: held_def)
    qed
    have "\<exists>s'. wake_expired_loop c now qs v = Inr s' \<and>
        (\<forall>q. sq_test EXPIRED (sqs s' q) \<longleftrightarrow> sq_test EXPIRED (sqs v q) \<or>
           q \<in> set qs \<and> sint (sq_wakeup_time (sqs v q)) \<le> sint now) \<and>
        (\<forall>t. has s' RUNNABLE t \<longleftrightarrow> has v RUNNABLE t \<or> \<not> held v t \<and>
           (\<exists>q\<in>set qs. sq_thread (sqs v q) = t \<and> \<not> sq_test EXPIRED (sqs v q) \<and>
              sint (sq_wakeup_time (sqs v q)) \<le> sint now))"
      using Cons.prems R I wt by (intro Cons.IH) (auto simp: Q(2))
    moreover have "sqs v q = sqs s q" if "q \<in> set qs" for q using that Cons.prems(1) by (auto simp: Q)
    ultimately show ?thesis using wake v Q(1) by (auto simp: run heldv)
  qed
qed auto

section \<open>A race between two CPUs\<close>

text \<open>\<open>guk_schedule\<close> marks the chosen thread as running under \<open>ready_lock\<close> but stores the CPU
  number only after the lock is released. The run below creates two threads, lets CPU 1 run the
  first and then the second, and then lets CPU 0 and CPU 1 choose before either has stored the CPU
  number.\<close>

definition no_addrs :: code_addrs where
  "no_addrs = \<lparr>a_idle_thread_fn = 1, a_idle_thread_starter = 2, a_thread_starter = 3, a_local_space = 4\<rparr>"

definition start_thread :: "tptr \<Rightarrow> sched \<Rightarrow> guk_stop + tptr option \<times> sched" where
  "start_thread t s = create_thread 0 no_addrs (Some t) 4096 8192 16 0 0 s"

definition tcb :: "u32 \<Rightarrow> u32 \<Rightarrow> u32 \<Rightarrow> u16 \<Rightarrow> u64 \<Rightarrow> thread" where
  "tcb fl cpu pc i ts = zero_thread\<lparr>t_flags := fl, t_cpu := cpu, t_preempt_count := pc, t_id := i,
     t_resched_running_time := ts, t_appsched_id := - 1, t_guk_stack_allocated := True,
     t_stack := 4096, t_stack_size := STACK_SIZE, t_timeslice := 10000000,
     t_sp := 4072 + STACK_SIZE, t_ip := 3\<rparr>"

definition race1 :: sched where
  "race1 = boot_sched\<lparr>thr := (thr boot_sched)(2 := tcb 1 (- 1) 0 34 0), ready_queue := [2],
     thread_list := [2], thread_id := 35, stack_mem := (\<lambda>_. 0)(4088 + STACK_SIZE := 4,
     4080 + STACK_SIZE := 16, 4072 + STACK_SIZE := 0)\<rparr>"

definition race2 :: sched where
  "race2 = race1\<lparr>thr := (thr race1)(4 := tcb 1 (- 1) 0 35 0), ready_queue := [2, 4],
     thread_list := [2, 4], thread_id := 36\<rparr>"

definition race3 :: sched where
  "race3 = race2\<lparr>thr := (thr race2)(3 := (thr race2 3)\<lparr>t_preempt_count := 1\<rparr>,
     2 := tcb 3 1 0 34 10000000), current_thread := (current_thread race2)(1 := 2),
     out := [SetTimer 10000000]\<rparr>"

definition race4 :: sched where
  "race4 = race3\<lparr>thr := (thr race3)(2 := tcb 1 1 1 34 10000000, 4 := tcb 3 1 0 35 10000000),
     ready_queue := [4, 2], current_thread := (current_thread race3)(1 := 4),
     out := [SetTimer 10000000, SetTimer 10000000]\<rparr>"

definition race :: "sched \<Rightarrow> guk_stop + sched" where
  "race s =
     res_bind (schedule_pick 0 (\<lambda>_. None) 0 0 s) (\<lambda>(n0, s).
     res_bind (schedule_pick 1 (\<lambda>_. None) 0 0 s) (\<lambda>(n1, s).
     res_bind (schedule_commit 0 0 n0 s) (\<lambda>s. schedule_commit 1 0 n1 s)))"

lemmas run_defs = start_thread_def create_thread_def guk_create_thread_with_stack_def
  create_thread_with_id_stack_def arch_create_thread_def no_addrs_def Let_def stack_push_def
  guk_wake_def db_wake_def guk_schedule_def schedule_pick_def schedule_commit_def
  switch_thread_in_def pick_thread_def rotate_prev_def eligible_def ready_add_tail_def
  ready_list_del_init_def upd_def emit_def in_irq_def is_preemptible_def wake_expired_def
  preempt_disable_def add_preempt_count_def set_timer_interrupt_def flag_test_def flag_set_def
  flag_clear_def init_thread_def guk_kick_cpu_def smp_signal_cpu_def STACK_SIZE_def MILLISECS_def
  boot_sched_def zero_thread_def tcb_def

lemma race_create: "start_thread 2 boot_sched = Inr (Some 2, race1)"
    "start_thread 4 race1 = Inr (Some 4, race2)"
  by (simp_all add: run_defs race2_def race1_def)

lemma race_first: "guk_schedule 1 (\<lambda>_. None) 0 0 race2 = Inr race3"
  by (simp add: run_defs race3_def race2_def race1_def) (auto simp: fun_eq_iff)

lemma race_second: "guk_schedule 1 (\<lambda>_. None) 0 0 race3 = Inr race4"
  by (simp add: run_defs race4_def race3_def race2_def race1_def) (auto simp: fun_eq_iff)

lemma race_both: "\<exists>s. race race4 = Inr s \<and> current_thread s 0 = 2 \<and> current_thread s 1 = 2"
  by (simp add: race_def run_defs race4_def race3_def race2_def race1_def)

lemma reach_start_thread:
  assumes "sched_reach s" "start_thread t s = Inr (r, s')" "t \<notin> set (thread_list s)"
    "t \<notin> range (idle_thread s)"
  shows "sched_reach s'"
proof -
  let ?u = "s\<lparr>thread_id := thread_id s + 1\<rparr>"
  have "sabs ?u = sabs s" "slp ?u = slp s" by (simp_all add: sabs_def slp_def)
  then have "sched_reach ?u" using assms(1) by (metis sched_reach.step sched_step.other)
  moreover have "sched_step ?u s'"
    using assms(2-4) unfolding start_thread_def create_thread_def guk_create_thread_with_stack_def
    by (intro sched_step.create [where xm = "Some t" and fl = 0]) auto
  ultimately show ?thesis by (rule sched_reach.step)
qed

lemma race4_reach: "sched_reach race4"
proof -
  have odd: "n \<notin> range (\<lambda>c :: u32. 2 * unat c + 1)" if "even n" for n using that by auto
  have "sched_reach race1"
    by (rule reach_start_thread [OF sched_reach.init [OF boot_sched_init] race_create(1)])
      (simp_all add: boot_sched_def odd [simplified])
  then have "sched_reach race2"
    by (rule reach_start_thread [OF _ race_create(2)])
      (simp_all add: race1_def boot_sched_def odd [simplified])
  then show ?thesis
    using sched_step.schedule [OF race_first] sched_step.schedule [OF race_second]
    by (blast intro: sched_reach.step)
qed

section \<open>Properties\<close>





text \<open>
  In every reachable state the sleep queue is ordered by wake-up time and has no entry twice.
\<close>

theorem sleep_queue_ordered:
  assumes "sched_reach s"
  shows "distinct (sleep_list s) \<and> sorted_wrt
    (\<lambda>p q. sint (sq_wakeup_time (sqs s p)) \<le> sint (sq_wakeup_time (sqs s q))) (sleep_list s)"
  using sched_reach_inv [OF assms] by (simp add: sleep_ok_def)

theorem sleep_queue_ordered_witness: "distinct (sleep_list boot_sched)"
  using sleep_queue_ordered [OF sched_reach.init [OF boot_sched_init]] by blast

text \<open>
  C32. \<open>wake_expired\<close> never stops on a reachable state in which the current thread's preemption
  counter has room: it marks exactly the sleep queue entries that are due, and the
  threads that become runnable are exactly those of newly due entries that the debugger does not
  hold.
\<close>

theorem wake_expired_exact:
  assumes "sched_reach s" and "preempt_room s c"
  shows "\<exists>s'. wake_expired c now s = Inr s' \<and>
    (\<forall>q. sq_test EXPIRED (sqs s' q) \<longleftrightarrow> sq_test EXPIRED (sqs s q) \<or>
       q \<in> set (sleep_list s) \<and> sint (sq_wakeup_time (sqs s q)) \<le> sint now) \<and>
    (\<forall>t. has s' RUNNABLE t \<longleftrightarrow> has s RUNNABLE t \<or> \<not> held s t \<and>
       (\<exists>q\<in>set (sleep_list s). sq_thread (sqs s q) = t \<and> \<not> sq_test EXPIRED (sqs s q) \<and>
          sint (sq_wakeup_time (sqs s q)) \<le> sint now))"
  unfolding wake_expired_def using sched_reach_inv [OF assms(1)] assms(2)
  by (intro wake_expired_loop_correct) (auto simp: sleep_ok_def)

theorem wake_expired_exact_witness:
  "\<exists>s'. wake_expired 1 2000000 (guk_add_timer 1 0 7 1 race4) = Inr s' \<and> sq_test EXPIRED (sqs s' 7)"
proof -
  let ?s = "guk_add_timer 1 0 7 1 race4"
  have c: "current_thread race4 1 = 4" by (simp add: race4_def)
  have t: "thr race4 4 = tcb 3 1 0 35 10000000" by (simp add: race4_def)
  have l: "thread_list race4 = [2, 4]" "sleep_list race4 = []"
    by (simp_all add: race4_def race3_def race2_def race1_def boot_sched_def)
  have "active race4 1"
    by (simp add: active_def c t l flag_test_def tcb_def)
  then have R: "sched_reach ?s"
    using race4_reach l(2) by (intro sched_reach.step [OF _ sched_step.timer]) simp_all
  have "sqs ?s 7 = sq_set ACTIVE ((sqs race4 7)\<lparr>sq_thread := 4, sq_wakeup_time := 1000000\<rparr>)"
    "7 \<in> set (sleep_list ?s)" "thr ?s = thr race4" "current_thread ?s = current_thread race4"
    by (simp_all add: guk_add_timer_def guk_sleep_queue_add_def upd_sq_def c set_sleep_insert)
  then show ?thesis
    using wake_expired_exact [OF R, of 1 2000000] c t
    by (auto simp: preempt_room_def tcb_def zero_thread_def)
qed

text \<open>
  C31. \<open>pick_thread\<close> moves the previous thread to the back of the ready queue if the microkernel
  schedules it and it is runnable, then takes the first thread of the queue that may run on this
  CPU, and never one that runs on another CPU; only if there is none it asks the application
  scheduler, and runs the idle thread if that has none either. The chosen thread is marked running.
\<close>

theorem pick_thread_correct:
  fixes c :: u32
  assumes "length (ready_queue s) \<le> unat (thread_id s)"
    and "has s RUNNABLE prev \<Longrightarrow> \<not> has s APPSCHED prev \<Longrightarrow> prev \<in> set (ready_queue s)"
    and "has s APPSCHED prev \<Longrightarrow> upcalls_active s"
  defines "q \<equiv> (if has s RUNNABLE prev \<and> \<not> has s APPSCHED prev \<and> prev \<noteq> idle_thread s c
      then removeAll prev (ready_queue s) @ [prev] else ready_queue s)"
  shows "(\<forall>t. find (eligible s cpu) q = Some t \<longrightarrow>
      (\<exists>s'. pick_thread c upcall prev cpu s = Inr (t, s') \<and> ready_queue s' = q \<and> has s' RUNNING t \<and>
         \<not> (has s RUNNING t \<and> t_cpu (thr s t) \<noteq> cpu))) \<and>
    (find (eligible s cpu) q = None \<longrightarrow>
      (case (if upcalls_active s then upcall cpu else None) of
         None \<Rightarrow> \<exists>s'. pick_thread c upcall prev cpu s = Inr (idle_thread s c, s') \<and>
                   ready_queue s' = q \<and> has s' RUNNING (idle_thread s c)
       | Some t \<Rightarrow> if has s RUNNING t \<and> t_cpu (thr s t) \<noteq> cpu
                   then pick_thread c upcall prev cpu s = Inl BUG
                   else \<exists>s'. pick_thread c upcall prev cpu s = Inr (t, s') \<and>
                          ready_queue s' = q \<and> has s' RUNNING t))"
proof -
  let ?r = "rotate_prev c prev s"
  have q: "ready_queue ?r = q" unfolding q_def rotate_prev_queue using assms(3) by auto
  have "length q \<le> length (ready_queue s)"
    unfolding q_def using assms(2) length_removeAll_mem [of prev "ready_queue s"] by auto
  then have L: "pick_loop ?r cpu 0 (ready_queue ?r) = Inr (find (eligible s cpu) q)"
    using assms(1) by (simp add: pick_loop_find q rotate_prev_sel eligible_rotate)
  have E: "\<not> (has s RUNNING t \<and> t_cpu (thr s t) \<noteq> cpu)" if "find (eligible s cpu) q = Some t" for t
    using that by (auto simp: find_Some_iff eligible_def)
  show ?thesis
    unfolding pick_thread_def Let_def L using E
    by (auto simp: rotate_prev_sel q split: option.split)
qed

theorem pick_thread_correct_witness:
  "\<exists>s'. pick_thread 0 (\<lambda>_. None) 1 0 boot_sched = Inr (1, s') \<and> ready_queue s' = [] \<and> has s' RUNNING 1"
  using pick_thread_correct [of boot_sched 1 0 0 "\<lambda>_. None"]
  by (simp add: boot_sched_def zero_thread_def flag_test_def)

text \<open>
  C33. There is a reachable state and an interleaving of two calls of \<open>guk_schedule\<close>, in which both
  CPUs choose before either records its CPU number in the chosen thread, after which the same
  thread, which is not an idle thread, is the current thread of both CPUs.
\<close>

theorem schedule_race:
  "\<exists>s s'. sched_reach s \<and> race s = Inr s' \<and> current_thread s' 0 = current_thread s' 1 \<and>
     current_thread s' 0 \<noteq> idle_thread s 0 \<and> current_thread s' 0 \<noteq> idle_thread s 1"
proof -
  obtain s' where "race race4 = Inr s'" "current_thread s' 0 = 2" "current_thread s' 1 = 2"
    using race_both by blast
  moreover have "idle_thread race4 c \<noteq> 2" for c
    by (simp add: race4_def race3_def race2_def race1_def boot_sched_def)
  ultimately show ?thesis using race4_reach by metis
qed

end
