(* ===== verification/Guk_Wait.thy ===== *)
theory Guk_Wait
  imports Guk_Sched_Props
begin

text \<open>
  Wait queues (\<open>include/guk/wait.h\<close>) and completions (\<open>completion.c\<close>, \<open>include/guk/completion.h\<close>) on
  top of the scheduler. An entry of a wait queue is the \<open>struct wait_queue\<close> on the stack of the waiting
  thread; a queue is the list of its entries. What runs under the lock of a queue is one operation; the
  waiting operations are split where they call \<open>schedule\<close>. The lemmas show that no wake-up is lost,
  whatever the interleaving of waiters, of the threads that wake them and of the rest of the system.
\<close>

section \<open>Wait queues\<close>

record wait_queue =
  w_id :: nat
  w_thread :: tptr

type_synonym wait_queue_head = "wait_queue list"

definition init_waitqueue_head :: wait_queue_head where
  "init_waitqueue_head = []"

definition init_waitqueue_entry :: "wait_queue \<Rightarrow> tptr \<Rightarrow> wait_queue" where
  "init_waitqueue_entry q t = q\<lparr>w_thread := t\<rparr>"

definition add_wait_queue :: "wait_queue_head \<Rightarrow> wait_queue \<Rightarrow> wait_queue_head" where
  "add_wait_queue h q = (if q \<notin> set h then h @ [q] else h)"

definition remove_wait_queue :: "wait_queue \<Rightarrow> wait_queue_head \<Rightarrow> wait_queue_head" where
  "remove_wait_queue q h = removeAll q h"

fun wake_up :: "u32 \<Rightarrow> wait_queue_head \<Rightarrow> sched \<Rightarrow> guk_stop + sched" where
  "wake_up c [] s = Inr s"
| "wake_up c (q # h) s = res_bind (guk_wake c (w_thread q) s) (wake_up c h)"

definition add_waiter ::
  "u32 \<Rightarrow> wait_queue \<Rightarrow> wait_queue_head \<Rightarrow> sched \<Rightarrow> guk_stop + wait_queue_head \<times> sched" where
  "add_waiter c q h s =
     res_bind (block c (current_thread s c) s) (\<lambda>s. Inr (add_wait_queue h q, s))"

definition remove_waiter :: "wait_queue \<Rightarrow> wait_queue_head \<Rightarrow> wait_queue_head" where
  "remove_waiter q h = remove_wait_queue q h"

text \<open>
  \<open>wait_event\<close>: what is done under the lock, the test of the condition after it (the flag says that the
  loop is left; otherwise \<open>schedule\<close> is called), and the end.
\<close>

definition wait_event_prepare ::
  "u32 \<Rightarrow> wait_queue \<Rightarrow> wait_queue_head \<Rightarrow> sched \<Rightarrow> guk_stop + wait_queue_head \<times> sched" where
  "wait_event_prepare c q h s =
     (let h = (if q \<notin> set h then add_wait_queue h q else h)
      in res_bind (block c (current_thread s c) s) (\<lambda>s. Inr (h, s)))"

definition wait_event_check :: "bool \<Rightarrow> u32 \<Rightarrow> sched \<Rightarrow> guk_stop + bool \<times> sched" where
  "wait_event_check condition c s =
     (if condition then res_bind (guk_wake c (current_thread s c) s) (\<lambda>s. Inr (True, s))
      else Inr (False, s))"

definition wait_event_finish :: "wait_queue \<Rightarrow> wait_queue_head \<Rightarrow> wait_queue_head" where
  "wait_event_finish q h = (if q \<in> set h then remove_wait_queue q h else h)"

section \<open>Completions\<close>

record completion =
  done_count :: u32
  wait :: wait_queue_head

definition init_completion :: completion where
  "init_completion = \<lparr>done_count = 0, wait = init_waitqueue_head\<rparr>"

definition INIT_COMPLETION :: "completion \<Rightarrow> completion" where
  "INIT_COMPLETION x = x\<lparr>done_count := 0\<rparr>"

text \<open>The flag is \<open>True\<close> when the wait is over and \<open>False\<close> where \<open>schedule\<close> is called.\<close>

definition guk_wait_for_completion ::
  "u32 \<Rightarrow> wait_queue \<Rightarrow> completion \<Rightarrow> sched \<Rightarrow> guk_stop + bool \<times> completion \<times> sched" where
  "guk_wait_for_completion c q cm s =
     (if done_count cm = 0 then
        res_bind (block c (current_thread s c) s) (\<lambda>s.
          Inr (False, cm\<lparr>wait := add_wait_queue (wait cm) q\<rparr>, s))
      else Inr (True, cm\<lparr>done_count := done_count cm - 1\<rparr>, s))"

definition wait_for_completion_turn ::
  "u32 \<Rightarrow> wait_queue \<Rightarrow> completion \<Rightarrow> sched \<Rightarrow> guk_stop + bool \<times> completion \<times> sched" where
  "wait_for_completion_turn c q cm s =
     (if done_count cm = 0 then
        res_bind (block c (current_thread s c) s) (\<lambda>s. Inr (False, cm, s))
      else Inr (True, cm\<lparr>wait := remove_wait_queue q (wait cm),
                           done_count := done_count cm - 1\<rparr>, s))"

definition guk_complete_all :: "u32 \<Rightarrow> completion \<Rightarrow> sched \<Rightarrow> guk_stop + completion \<times> sched" where
  "guk_complete_all c cm s =
     res_bind (wake_up c (wait cm) s) (\<lambda>s. Inr (cm\<lparr>done_count := 0xFFFFFFFF div 2\<rparr>, s))"

definition guk_complete :: "u32 \<Rightarrow> completion \<Rightarrow> sched \<Rightarrow> guk_stop + completion \<times> sched" where
  "guk_complete c cm s =
     res_bind (wake_up c (wait cm) s) (\<lambda>s. Inr (cm\<lparr>done_count := 1\<rparr>, s))"

section \<open>What waking and blocking do to other threads\<close>

definition awake :: "sched \<Rightarrow> tptr \<Rightarrow> bool" where
  "awake s t \<longleftrightarrow> has s RUNNABLE t \<or> held s t"

lemma awake_abs: "awake s t \<longleftrightarrow> t \<in> aRunnable (sabs s) \<union> (aSusp (sabs s) \<union> aReq (sabs s))"
  by (auto simp: awake_def held_def)

lemma guk_wake_awake:
  assumes "guk_wake c t s = Inr s'"
  shows "awake s' t" "awake s u \<Longrightarrow> awake s' u"
  using guk_wake_refines[OF assms] a_wake_runnable[of t "sabs s"] unfolding awake_abs
  by (auto split: if_splits)

lemma block_awake:
  assumes "block c t s = Inr s'" "u \<noteq> t" "awake s u" shows "awake s' u"
  using block_refines[OF assms(1)] assms(2,3) unfolding awake_abs
  by (auto simp: a_block_def a_unlink_def)

lemma wake_up_keeps: "wake_up c h s = Inr s' \<Longrightarrow> awake s u \<Longrightarrow> awake s' u"
  by (induction c h s rule: wake_up.induct) (auto simp: res_bind_Inr_iff intro: guk_wake_awake(2))

lemma wake_up_awake: "wake_up c h s = Inr s' \<Longrightarrow> q \<in> set h \<Longrightarrow> awake s' (w_thread q)"
proof (induction c h s rule: wake_up.induct)
  case (2 c p h s)
  then obtain s1 where s1: "guk_wake c (w_thread p) s = Inr s1" "wake_up c h s1 = Inr s'"
    by (auto simp: res_bind_Inr_iff)
  then show ?case using 2 guk_wake_awake(1)[OF s1(1)] wake_up_keeps[OF s1(2)] by auto
qed simp

lemma wake_up_total:
  "preempt_room s c \<Longrightarrow> (\<And>q. q \<in> set h \<Longrightarrow> \<not> has s DYING (w_thread q)) \<Longrightarrow> \<exists>s'. wake_up c h s = Inr s'"
proof (induction h arbitrary: s)
  case (Cons q h)
  obtain s1 where s1: "guk_wake c (w_thread q) s = Inr s1" "preempt_room s1 c"
    using guk_wake_total[of s "w_thread q" c] Cons.prems by auto
  have "aDying (sabs s1) = aDying (sabs s)"
    using guk_wake_refines[OF s1(1)] by (simp add: a_wake_def a_ready_def)
  then have "has s1 DYING t = has s DYING t" for t by auto
  then show ?case using Cons.IH[OF s1(2)] Cons.prems(2) s1(1) by simp
qed simp

section \<open>No lost wake-ups\<close>

text \<open>
  The rest of the system may do anything but put a thread to sleep that waits here: only the thread
  itself calls \<open>block\<close> for itself, and it is inside the waiting operation.
\<close>

definition keeps_awake :: "tptr set \<Rightarrow> sched \<Rightarrow> sched \<Rightarrow> bool" where
  "keeps_awake T s s' \<longleftrightarrow> (\<forall>t\<in>T. awake s t \<longrightarrow> awake s' t)"

inductive comp_step :: "completion \<times> sched \<Rightarrow> completion \<times> sched \<Rightarrow> bool" where
  enter: "guk_wait_for_completion c q cm s = Inr (r, cm', s') \<Longrightarrow> w_thread q = current_thread s c \<Longrightarrow>
    comp_step (cm, s) (cm', s')"
| turn: "wait_for_completion_turn c q cm s = Inr (r, cm', s') \<Longrightarrow> w_thread q = current_thread s c \<Longrightarrow>
    q \<in> set (wait cm) \<Longrightarrow> comp_step (cm, s) (cm', s')"
| all: "guk_complete_all c cm s = Inr (cm', s') \<Longrightarrow> comp_step (cm, s) (cm', s')"
| one: "guk_complete c cm s = Inr (cm', s') \<Longrightarrow> comp_step (cm, s) (cm', s')"
| reset: "comp_step (cm, s) (INIT_COMPLETION cm, s)"
| other: "keeps_awake (w_thread ` set (wait cm)) s s' \<Longrightarrow> comp_step (cm, s) (cm, s')"

inductive comp_reach :: "completion \<times> sched \<Rightarrow> bool" where
  init: "comp_reach (init_completion, s)"
| step: "comp_reach x \<Longrightarrow> comp_step x y \<Longrightarrow> comp_reach y"

inductive_cases comp_stepE: "comp_step (cm, s) (cm', s')"

definition comp_inv :: "completion \<times> sched \<Rightarrow> bool" where
  "comp_inv x \<longleftrightarrow> done_count (fst x) \<noteq> 0 \<longrightarrow> (\<forall>q\<in>set (wait (fst x)). awake (snd x) (w_thread q))"

lemma complete_inv:
  "guk_complete_all c cm s = Inr (cm', s') \<Longrightarrow>
    wait cm' = wait cm \<and> done_count cm' = 0x7FFFFFFF \<and> (\<forall>q\<in>set (wait cm). awake s' (w_thread q))"
  "guk_complete c cm s = Inr (cm', s') \<Longrightarrow>
    wait cm' = wait cm \<and> done_count cm' = 1 \<and> (\<forall>q\<in>set (wait cm). awake s' (w_thread q))"
  by (auto simp: guk_complete_all_def guk_complete_def res_bind_Inr_iff dest: wake_up_awake)

lemma comp_step_inv: "comp_step x y \<Longrightarrow> comp_inv x \<Longrightarrow> comp_inv y"
proof (induction rule: comp_step.induct)
  case (enter c q cm s r cm' s')
  then show ?case
    by (auto simp: guk_wait_for_completion_def comp_inv_def res_bind_Inr_iff split: if_splits)
next
  case (turn c q cm s r cm' s')
  then show ?case
    by (auto simp: wait_for_completion_turn_def comp_inv_def res_bind_Inr_iff remove_wait_queue_def
        split: if_splits)
next
  case (all c cm s cm' s')
  then show ?case using complete_inv(1) by (auto simp: comp_inv_def)
next
  case (one c cm s cm' s')
  then show ?case using complete_inv(2) by (auto simp: comp_inv_def)
next
  case (reset cm s)
  then show ?case by (simp add: comp_inv_def INIT_COMPLETION_def)
next
  case (other cm s s')
  then show ?case by (auto simp: comp_inv_def keeps_awake_def)
qed

lemma comp_reach_inv: "comp_reach x \<Longrightarrow> comp_inv x"
  by (induction rule: comp_reach.induct) (auto simp: comp_inv_def init_completion_def dest: comp_step_inv)

text \<open>One post by \<open>complete\<close> lets exactly one turn of a waiter through.\<close>

lemma one_post_one_turn:
  "\<exists>cm1. wait_for_completion_turn c q (cm\<lparr>done_count := 1\<rparr>) s = Inr (True, cm1, s) \<and> done_count cm1 = 0"
  "done_count cm1 = 0 \<Longrightarrow> wait_for_completion_turn c q cm1 s = Inr (r, cm2, s') \<Longrightarrow> \<not> r"
  by (auto simp: wait_for_completion_turn_def res_bind_Inr_iff)


definition slept :: sched where
  "slept = ready_list_del_init 2 (upd 2 (flag_clear RUNNABLE) race3)"

definition sleeper :: wait_queue where
  "sleeper = \<lparr>w_id = 1, w_thread = 2\<rparr>"

lemma slept_facts:
  "current_thread race3 1 = 2" "block 1 2 race3 = Inr slept" "\<not> has slept RUNNABLE 2"
  "preempt_room slept 0" "\<not> has slept DYING 2" "\<not> held slept 2"
proof -
  have f: "has race3 RUNNABLE 2" "\<not> upcalls_active race3" "t_flags (thr race3 2) = 3"
    "current_thread race3 1 = 2" "t_preempt_count (thr race3 1) = 0" "current_thread race3 0 = 1"
    by (simp_all add: race3_def race2_def race1_def boot_sched_def flag_test_def tcb_def zero_thread_def)
  show "current_thread race3 1 = 2" "block 1 2 race3 = Inr slept"
    using f by (simp_all add: block_def slept_def)
  show "\<not> has slept RUNNABLE 2"
    by (simp add: slept_def ready_list_del_init_def upd_def)
  show "preempt_room slept 0"
    using f by (simp add: slept_def ready_list_del_init_def upd_def preempt_room_def)
  show "\<not> has slept DYING 2" "\<not> held slept 2"
    using f by (simp_all add: held_def slept_def ready_list_del_init_def upd_def flag_test_def flag_clear_def)
qed


section \<open>Waiting for a condition\<close>

text \<open>
  Threads in \<open>wait_event\<close> on one queue and one condition. Between its two accesses a thread is at one of
  these places; a thread that makes the condition true calls \<open>wake_up\<close> afterwards, and \<open>ev_pending\<close>
  counts the threads that have not called it yet.
\<close>

datatype wait_pc = Outside | Prepare | Check | Asleep | Leave

record event =
  ev_cond :: bool
  ev_pending :: nat
  ev_queue :: wait_queue_head
  ev_pc :: "wait_queue \<Rightarrow> wait_pc"
  ev_sched :: sched

definition at :: "wait_queue \<Rightarrow> wait_pc \<Rightarrow> event \<Rightarrow> event" where
  "at q pc e = e\<lparr>ev_pc := (ev_pc e)(q := pc)\<rparr>"

inductive ev_step :: "event \<Rightarrow> event \<Rightarrow> bool" where
  start: "ev_pc e q = Outside \<Longrightarrow> \<not> ev_cond e \<Longrightarrow>
    (\<And>p. ev_pc e p \<noteq> Outside \<Longrightarrow> w_thread p \<noteq> w_thread q) \<Longrightarrow> ev_step e (at q Prepare e)"
| prepare: "ev_pc e q = Prepare \<Longrightarrow> current_thread (ev_sched e) c = w_thread q \<Longrightarrow>
    wait_event_prepare c q (ev_queue e) (ev_sched e) = Inr (h, s) \<Longrightarrow>
    ev_step e (at q Check (e\<lparr>ev_queue := h, ev_sched := s\<rparr>))"
| check: "ev_pc e q = Check \<Longrightarrow> current_thread (ev_sched e) c = w_thread q \<Longrightarrow>
    wait_event_check (ev_cond e) c (ev_sched e) = Inr (b, s) \<Longrightarrow>
    ev_step e (at q (if b then Leave else Asleep) (e\<lparr>ev_sched := s\<rparr>))"
| resume: "ev_pc e q = Asleep \<Longrightarrow> current_thread (ev_sched e) c = w_thread q \<Longrightarrow>
    ev_step e (at q Prepare e)"
| finish: "ev_pc e q = Leave \<Longrightarrow>
    ev_step e (at q Outside (e\<lparr>ev_queue := wait_event_finish q (ev_queue e)\<rparr>))"
| set: "ev_step e (e\<lparr>ev_cond := True, ev_pending := Suc (ev_pending e)\<rparr>)"
| wake: "ev_pending e = Suc n \<Longrightarrow> wake_up c (ev_queue e) (ev_sched e) = Inr s \<Longrightarrow>
    ev_step e (e\<lparr>ev_pending := n, ev_sched := s\<rparr>)"
| reset: "ev_step e (e\<lparr>ev_cond := False\<rparr>)"
| other: "keeps_awake {w_thread q |q. ev_pc e q \<noteq> Outside} (ev_sched e) s \<Longrightarrow>
    ev_step e (e\<lparr>ev_sched := s\<rparr>)"

inductive ev_reach :: "event \<Rightarrow> bool" where
  init: "ev_pc e = (\<lambda>_. Outside) \<Longrightarrow> ev_queue e = init_waitqueue_head \<Longrightarrow> ev_reach e"
| step: "ev_reach e \<Longrightarrow> ev_step e e' \<Longrightarrow> ev_reach e'"

definition ev_inv :: "event \<Rightarrow> bool" where
  "ev_inv e \<longleftrightarrow>
     (\<forall>q. ev_pc e q \<in> {Check, Asleep, Leave} \<longrightarrow> q \<in> set (ev_queue e)) \<and>
     (\<forall>p q. ev_pc e p \<noteq> Outside \<longrightarrow> ev_pc e q \<noteq> Outside \<longrightarrow> w_thread p = w_thread q \<longrightarrow> p = q) \<and>
     (\<forall>q. ev_pc e q = Asleep \<longrightarrow> ev_cond e \<longrightarrow> ev_pending e = 0 \<longrightarrow> awake (ev_sched e) (w_thread q))"

lemma ev_step_inv: "ev_step e e' \<Longrightarrow> ev_inv e \<Longrightarrow> ev_inv e'"
proof (induction rule: ev_step.induct)
  case (start e q)
  then show ?case by (auto simp: ev_inv_def at_def) metis
next
  case (prepare e q c h s)
  then have b: "block c (w_thread q) (ev_sched e) = Inr s"
    and h: "set h = insert q (set (ev_queue e))"
    by (auto simp: wait_event_prepare_def Let_def res_bind_Inr_iff add_wait_queue_def split: if_splits)
  have "w_thread p \<noteq> w_thread q" if "ev_pc e p = Asleep" for p
    using prepare(1,4) that unfolding ev_inv_def by (metis wait_pc.distinct(1,5,11))
  then show ?case
    using prepare(1,4) h block_awake[OF b] by (auto simp: ev_inv_def at_def)
next
  case (check e q c b s)
  then show ?case
    by (auto simp: ev_inv_def at_def wait_event_check_def res_bind_Inr_iff guk_wake_awake(2) split: if_splits)
next
  case (wake e n c s)
  then show ?case using wake_up_awake[OF wake(2)] by (auto simp: ev_inv_def)
next
  case (other e s)
  then show ?case by (force simp: ev_inv_def keeps_awake_def)
qed (auto simp: ev_inv_def at_def wait_event_finish_def remove_wait_queue_def)

lemma ev_reach_inv: "ev_reach e \<Longrightarrow> ev_inv e"
  by (induction rule: ev_reach.induct) (auto simp: ev_inv_def dest: ev_step_inv)

text \<open>
  C7. \<open>wait_event\<close> loses no wake-up: in every interleaving of waiters, of threads that make the condition
  true and then call \<open>wake_up\<close>, of resets of the condition and of the rest of the system, a waiter that
  has called \<open>schedule\<close> is in the queue, and once the condition holds and every thread that set it has
  called \<open>wake_up\<close>, it is runnable or held back by the debugger only.
\<close>

theorem wait_event_no_lost_wakeup:
  assumes "ev_reach e" "ev_pc e q = Asleep"
  shows "q \<in> set (ev_queue e) \<and>
    (ev_cond e \<and> ev_pending e = 0 \<longrightarrow>
      has (ev_sched e) RUNNABLE (w_thread q) \<or> held (ev_sched e) (w_thread q))"
  using ev_reach_inv[OF assms(1)] assms(2) by (auto simp: ev_inv_def awake_def)

definition waiting :: event where
  "waiting = \<lparr>ev_cond = False, ev_pending = 0, ev_queue = [sleeper], ev_pc = (\<lambda>_. Outside)(sleeper := Asleep),
     ev_sched = slept\<rparr>"

lemma wait_event_no_lost_wakeup_witness:
  "\<exists>e. ev_reach e \<and> ev_pc e sleeper = Asleep \<and> ev_cond e \<and> ev_pending e = 0 \<and>
    sleeper \<in> set (ev_queue e) \<and> (has (ev_sched e) RUNNABLE 2 \<or> held (ev_sched e) 2)"
proof -
  let ?e0 = "\<lparr>ev_cond = False, ev_pending = 0, ev_queue = [], ev_pc = (\<lambda>_. Outside), ev_sched = race3\<rparr>"
  let ?e1 = "?e0\<lparr>ev_pc := (\<lambda>_. Outside)(sleeper := Prepare)\<rparr>"
  let ?e2 = "?e0\<lparr>ev_pc := (\<lambda>_. Outside)(sleeper := Check), ev_queue := [sleeper], ev_sched := slept\<rparr>"
  have 1: "ev_reach ?e1"
    using ev_reach.step[OF ev_reach.init ev_step.start, of ?e0 sleeper]
    by (simp add: at_def init_waitqueue_head_def)
  have "wait_event_prepare 1 sleeper [] race3 = Inr ([sleeper], slept)"
    by (simp add: wait_event_prepare_def add_wait_queue_def slept_facts)
  then have 2: "ev_reach ?e2"
    using ev_step.prepare[of ?e1 sleeper 1 "[sleeper]" slept] 1
    by (auto simp: at_def slept_facts sleeper_def intro: ev_reach.step)
  have c: "current_thread slept 1 = 2"
    using slept_facts(1) by (simp add: slept_def ready_list_del_init_def upd_def)
  have "ev_reach waiting"
    using ev_step.check[of ?e2 sleeper 1 False slept] 2 c
    by (auto simp: at_def wait_event_check_def waiting_def sleeper_def intro: ev_reach.step)
  then have 3: "ev_reach (waiting\<lparr>ev_cond := True, ev_pending := 1\<rparr>)"
    using ev_step.set[of waiting] by (auto simp: waiting_def intro: ev_reach.step)
  obtain s where "wake_up 0 [sleeper] slept = Inr s"
    using wake_up_total[of slept 0 "[sleeper]"] slept_facts by (auto simp: sleeper_def)
  then have 4: "ev_reach (waiting\<lparr>ev_cond := True, ev_pending := 0, ev_sched := s\<rparr>)"
    using ev_step.wake[of "waiting\<lparr>ev_cond := True, ev_pending := 1\<rparr>" 0 0 s] 3
    by (auto simp: waiting_def intro: ev_reach.step)
  show ?thesis
    using wait_event_no_lost_wakeup[OF 4, of sleeper] 4
    by (intro exI[of _ "waiting\<lparr>ev_cond := True, ev_pending := 0, ev_sched := s\<rparr>"])
      (simp add: waiting_def sleeper_def)
qed

end
