(* ===== verification/Guk_Xenbus.thy ===== *)
theory Guk_Xenbus
  imports Guk_Ring Guk_Printf Guk_Wait
begin

text \<open>
  The client of the store (\<open>xenbus/xenbus.c\<close>): request identifiers, writing requests to and reading
  replies from the two rings shared with the store, watches, and the operations built on a request and
  its reply. The layout of a message header and the numbers of the message types come from Xen's
  headers and are a parameter of type \<open>xs_abi\<close>; the ring size \<open>2 ^ k\<close> too. A message is the list of its bytes.
  An operation that waits for a reply is split into the request it sends and what it makes of the
  reply. Memory is taken to be available. The lemmas show that identifiers are never handed
  out twice, that what is written to the ring is exactly the message wherever it wraps, and that every
  reply reaches the request it answers.
\<close>

section \<open>State\<close>

record sockmsg =
  ms_type :: u32
  ms_req_id :: u32
  ms_tx_id :: u32
  ms_len :: u32

record xs_abi =
  hdr_len :: nat
  hdr_enc :: "sockmsg \<Rightarrow> u8 list"
  hdr_dec :: "u8 list \<Rightarrow> sockmsg"
  XS_WATCH_EVENT :: u32
  XS_ERROR :: u32
  XS_DIRECTORY :: u32
  XS_READ :: u32
  XS_WRITE :: u32
  XS_WATCH :: u32
  XS_UNWATCH :: u32
  XS_RM :: u32
  XS_GET_PERMS :: u32
  XS_SET_PERMS :: u32
  XS_TRANSACTION_START :: u32
  XS_TRANSACTION_END :: u32

definition NR_REQS :: nat where "NR_REQS = 32"
definition MAX_PATHS :: nat where "MAX_PATHS = 10"

record xenbus_req_info =
  in_use :: bool
  reply :: "u8 list option"

record xenbus_watch =
  token :: "u8 list"
  path :: "u8 list"
  path_prod_idx :: nat
  path_cons_idx :: nat
  paths :: "nat \<Rightarrow> u8 list"
  watch_thread :: "tptr option"

datatype xb_effect =
  NotifyStore | WakeIds | WakeRequest nat | WakeWatcher tptr | SpuriousWatch "u8 list" |
  BlockWatcher tptr | FreeReply | FreeWatch | FreePayload | FreePath | WakeReader

record xenbus =
  xs_req :: "nat \<Rightarrow> u8"
  req_cons :: u32
  req_prod :: u32
  xs_rsp :: "nat \<Rightarrow> u8"
  rsp_cons :: u32
  rsp_prod :: u32
  req_info :: "nat \<Rightarrow> xenbus_req_info"
  nr_live_reqs :: nat
  probe :: nat
  watch_list :: "xenbus_watch list"
  xb_out :: "xb_effect list"

definition xb_emit :: "xb_effect \<Rightarrow> xenbus \<Rightarrow> xenbus" where
  "xb_emit e s = s\<lparr>xb_out := xb_out s @ [e]\<rparr>"

section \<open>Identifiers\<close>

definition release_xenbus_id :: "nat \<Rightarrow> xenbus \<Rightarrow> guk_stop + xenbus" where
  "release_xenbus_id i s =
     res_bind (bug_on (\<not> in_use (req_info s i)) ()) (\<lambda>_.
       let s = s\<lparr>nr_live_reqs := nr_live_reqs s - 1,
                 req_info := (req_info s)(i := (req_info s i)\<lparr>in_use := False\<rparr>)\<rparr>
       in Inr (if nr_live_reqs s = NR_REQS - 1 \<or> nr_live_reqs s = 0 then xb_emit WakeIds s else s))"

text \<open>The search starts at \<open>probe\<close> and stops with a \<open>BUG\<close> when it is back there; \<open>n\<close> counts the
  identifiers not looked at yet.\<close>

fun probe_loop :: "(nat \<Rightarrow> xenbus_req_info) \<Rightarrow> nat \<Rightarrow> nat \<Rightarrow> guk_stop + nat" where
  "probe_loop info o_probe 0 = Inl BUG"
| "probe_loop info o_probe (Suc n) =
     (if \<not> in_use (info o_probe) then Inr o_probe else probe_loop info ((o_probe + 1) mod NR_REQS) n)"

text \<open>No result: the caller waits until an identifier is free.\<close>

definition allocate_xenbus_id :: "xenbus \<Rightarrow> guk_stop + (nat \<times> xenbus) option" where
  "allocate_xenbus_id s =
     (if nr_live_reqs s < NR_REQS then
        res_bind (probe_loop (req_info s) (probe s) NR_REQS) (\<lambda>i.
          Inr (Some (i, s\<lparr>nr_live_reqs := Suc (nr_live_reqs s),
                          req_info := (req_info s)(i := (req_info s i)\<lparr>in_use := True\<rparr>),
                          probe := (i + 1) mod NR_REQS\<rparr>)))
      else Inr None)"

section \<open>Rings\<close>

definition memcpy_from_ring :: "nat \<Rightarrow> (nat \<Rightarrow> u8) \<Rightarrow> nat \<Rightarrow> nat \<Rightarrow> u8 list" where
  "memcpy_from_ring k ring off len =
     (let c1 = min len (2 ^ k - off); c2 = len - c1
      in map ring [off..<off + c1] @ map ring [0..<c2])"

text \<open>The loop of \<open>xb_write\<close> copies chunks that end with the request or with the array; \<open>left\<close> is
  \<open>len - total_off\<close>. The offset never passes the length of the request.\<close>

function xb_copy ::
  "nat \<Rightarrow> (nat \<Rightarrow> u8) \<Rightarrow> u32 \<Rightarrow> nat \<Rightarrow> nat \<Rightarrow> u8 list list \<Rightarrow> (nat \<Rightarrow> u8) \<times> u32 \<times> nat" where
  "xb_copy k arr prd req_off left [] = (arr, prd, req_off)"
| "xb_copy k arr prd req_off left (d # ds) =
     (if left = 0 then (arr, prd, req_off)
      else let this_chunk = min (length d - req_off) (2 ^ k - mask_idx k prd);
               arr = store_list (mask_idx k prd) (take this_chunk (drop req_off d)) arr;
               prd = prd + of_nat this_chunk;
               req_off = req_off + this_chunk;
               left = left - this_chunk
           in if req_off \<ge> length d then xb_copy k arr prd 0 left ds
              else xb_copy k arr prd req_off left (d # ds))"
  by pat_completeness auto

termination
proof (relation "measures [\<lambda>(k, arr, prd, off, left, ds). length ds,
      \<lambda>(k, arr, prd, off, left, ds). length (hd ds) - off]", goal_cases)
  case (3 k arr prd req_off left d ds x xa xb xc xd)
  have "mask_idx k prd < 2 ^ k" by (rule mask_idx_less)
  with 3 show ?case by (auto simp: min_def)
qed auto

text \<open>The part of \<open>xb_write\<close> that runs once there is space, and the whole of it; no result: the caller
  waits for the store to read.\<close>

definition xb_send ::
  "xs_abi \<Rightarrow> nat \<Rightarrow> u32 \<Rightarrow> u32 \<Rightarrow> u32 \<Rightarrow> u8 list list \<Rightarrow> xenbus \<Rightarrow> guk_stop + xenbus" where
  "xb_send A k type req_id trans_id req s =
     (let body = sum_list (map length req);
          m = \<lparr>ms_type = type, ms_req_id = req_id, ms_tx_id = trans_id, ms_len = of_nat body\<rparr>;
          len = body + hdr_len A
      in case xb_copy k (xs_req s) (req_prod s) 0 len (hdr_enc A m # req) of
           (arr, prd, req_off) \<Rightarrow>
             res_bind (bug_on (req_off \<noteq> 0) ()) (\<lambda>_.
             res_bind (bug_on (prd > req_cons s + 2 ^ k) ()) (\<lambda>_.
               Inr (xb_emit NotifyStore (s\<lparr>xs_req := arr, req_prod := req_prod s + of_nat len\<rparr>)))))"

definition xb_write ::
  "xs_abi \<Rightarrow> nat \<Rightarrow> u32 \<Rightarrow> u32 \<Rightarrow> u32 \<Rightarrow> u8 list list \<Rightarrow> xenbus \<Rightarrow> guk_stop + xenbus option" where
  "xb_write A k type req_id trans_id req s =
     (let len = sum_list (map length req) + hdr_len A
      in res_bind (bug_on (2 ^ k < len) ()) (\<lambda>_.
         if req_prod s + of_nat len - req_cons s > 2 ^ k then Inr None
         else res_bind (xb_send A k type req_id trans_id req s) (\<lambda>s. Inr (Some s))))"

section \<open>The thread that reads replies\<close>

definition cstring :: "u8 list \<Rightarrow> u8 list" where
  "cstring bs = takeWhile (\<lambda>c. c \<noteq> 0) bs"

fun find_watch :: "u8 list \<Rightarrow> xenbus_watch list \<Rightarrow> xenbus_watch option" where
  "find_watch tok [] = None"
| "find_watch tok (w # ws) = (if token w = tok then Some w else find_watch tok ws)"

fun put_watch :: "u8 list \<Rightarrow> xenbus_watch \<Rightarrow> xenbus_watch list \<Rightarrow> xenbus_watch list" where
  "put_watch tok w' [] = []"
| "put_watch tok w' (w # ws) = (if token w = tok then w' # ws else w # put_watch tok w' ws)"

definition watch_event :: "u8 list \<Rightarrow> xenbus \<Rightarrow> guk_stop + xenbus" where
  "watch_event payload s =
     (let path = cstring payload; tok = cstring (drop (length path + 1) payload)
      in case find_watch tok (watch_list s) of
           None \<Rightarrow> Inr (xb_emit (SpuriousWatch tok) s)
         | Some w \<Rightarrow>
             res_bind (bug_on (path_prod_idx w - path_cons_idx w > MAX_PATHS) ()) (\<lambda>_.
               let w' = w\<lparr>paths := (paths w)(path_prod_idx w mod MAX_PATHS := path),
                          path_prod_idx := Suc (path_prod_idx w)\<rparr>;
                   s = s\<lparr>watch_list := put_watch tok w' (watch_list s)\<rparr>
               in Inr (case watch_thread w of None \<Rightarrow> s | Some t \<Rightarrow> xb_emit (WakeWatcher t) s)))"

text \<open>
  One turn of the inner loop of \<open>xenbus_thread_func\<close>; the flag is \<open>False\<close> where the loop is left. An
  identifier beyond the table, an access out of bounds in C, is a stop here.
\<close>

definition xenbus_thread_turn :: "xs_abi \<Rightarrow> nat \<Rightarrow> xenbus \<Rightarrow> guk_stop + bool \<times> xenbus" where
  "xenbus_thread_turn A k s =
     (let avail = unat (rsp_prod s - rsp_cons s)
      in if avail < hdr_len A then Inr (False, s)
      else let msg = hdr_dec A (memcpy_from_ring k (xs_rsp s) (mask_idx k (rsp_cons s)) (hdr_len A));
               total = unat (ms_len msg) + hdr_len A
      in if avail < total then Inr (False, s)
      else let bytes = memcpy_from_ring k (xs_rsp s) (mask_idx k (rsp_cons s)) total;
               i = unat (ms_req_id msg)
      in if ms_type msg = XS_WATCH_EVENT A then
           res_bind (watch_event (drop (hdr_len A) bytes) s) (\<lambda>s.
             Inr (True, xb_emit FreePayload (s\<lparr>rsp_cons := rsp_cons s + of_nat total\<rparr>)))
         else if i \<ge> NR_REQS then Inl FAULT
         else res_bind (bug_on (\<not> in_use (req_info s i)) ()) (\<lambda>_.
           Inr (True, xb_emit (WakeRequest i)
             (s\<lparr>req_info := (req_info s)(i := (req_info s i)\<lparr>reply := Some bytes\<rparr>),
                rsp_cons := rsp_cons s + of_nat total\<rparr>))))"

partial_function (option) xenbus_thread_loop ::
  "xs_abi \<Rightarrow> nat \<Rightarrow> xenbus \<Rightarrow> (guk_stop + xenbus) option" where
  "xenbus_thread_loop A k s =
     (case xenbus_thread_turn A k s of
        Inl e \<Rightarrow> Some (Inl e)
      | Inr p \<Rightarrow> if fst p then xenbus_thread_loop A k (snd p) else Some (Inr (snd p)))"

definition xenbus_evtchn_handler :: "xenbus \<Rightarrow> xenbus" where
  "xenbus_evtchn_handler s = xb_emit WakeReader s"

section \<open>Requests and what is made of their replies\<close>

text \<open>
  \<open>xenbus_msg_reply\<close> up to \<open>schedule\<close>, with the identifier already allocated, and after it. The thread
  has put itself on the queue of the request before it writes.
\<close>

definition xenbus_msg_send ::
  "xs_abi \<Rightarrow> nat \<Rightarrow> u32 \<Rightarrow> u32 \<Rightarrow> u8 list list \<Rightarrow> nat \<Rightarrow> xenbus \<Rightarrow> guk_stop + xenbus option" where
  "xenbus_msg_send A k type tx io i s = xb_write A k type (of_nat i) tx io s"

definition xenbus_msg_receive :: "xs_abi \<Rightarrow> nat \<Rightarrow> xenbus \<Rightarrow> guk_stop + u8 list \<times> xenbus" where
  "xenbus_msg_receive A i s =
     (case reply (req_info s i) of
        None \<Rightarrow> Inl FAULT
      | Some rep \<Rightarrow>
          res_bind (bug_on (ms_req_id (hdr_dec A (take (hdr_len A) rep)) \<noteq> of_nat i) ()) (\<lambda>_.
          res_bind (release_xenbus_id i s) (\<lambda>s. Inr (rep, s))))"

text \<open>A reply is its header and its body. \<open>errmsg\<close> gives the error text and frees the reply, or nothing.\<close>

type_synonym rep = "sockmsg \<times> u8 list"

definition errmsg :: "xs_abi \<Rightarrow> rep option \<Rightarrow> xenbus \<Rightarrow> u8 list option \<times> xenbus" where
  "errmsg A rep s =
     (case rep of
        None \<Rightarrow> (Some [110, 111, 32, 114, 101, 112, 108, 121], s)
      | Some (m, body) \<Rightarrow>
          if ms_type m \<noteq> XS_ERROR A then (None, s) else (Some (cstring body), xb_emit FreeReply s))"

definition str_req :: "u8 list \<Rightarrow> u8 list" where
  "str_req p = p @ [0]"

definition xenbus_ls_req :: "xs_abi \<Rightarrow> u8 list \<Rightarrow> u32 \<times> u8 list list" where
  "xenbus_ls_req A pre = (XS_DIRECTORY A, [str_req pre])"

fun ls_names :: "nat \<Rightarrow> u8 list \<Rightarrow> u8 list list" where
  "ls_names 0 body = []"
| "ls_names (Suc n) body = cstring body # ls_names n (drop (length (cstring body) + 1) body)"

definition xenbus_ls :: "xs_abi \<Rightarrow> rep option \<Rightarrow> xenbus \<Rightarrow> (u8 list + u8 list list) \<times> xenbus" where
  "xenbus_ls A rep s =
     (case errmsg A rep s of
        (Some msg, s) \<Rightarrow> (Inl msg, s)
      | (None, s) \<Rightarrow>
          let body = snd (the rep)
          in (Inr (ls_names (length (filter (\<lambda>c. c = 0) body)) body), xb_emit FreeReply s))"

definition xenbus_read_req :: "xs_abi \<Rightarrow> u8 list \<Rightarrow> u32 \<times> u8 list list" where
  "xenbus_read_req A p = (XS_READ A, [str_req p])"

definition guk_xenbus_read :: "xs_abi \<Rightarrow> rep option \<Rightarrow> xenbus \<Rightarrow> (u8 list + u8 list) \<times> xenbus" where
  "guk_xenbus_read A rep s =
     (case errmsg A rep s of
        (Some msg, s) \<Rightarrow> (Inl msg, s)
      | (None, s) \<Rightarrow> (Inr (cstring (snd (the rep))), xb_emit FreeReply s))"

definition xenbus_write_req :: "xs_abi \<Rightarrow> u8 list \<Rightarrow> u8 list \<Rightarrow> u32 \<times> u8 list list" where
  "xenbus_write_req A p v = (XS_WRITE A, [str_req p, str_req v])"

text \<open>The end of \<open>xenbus_write\<close>, \<open>xenbus_rm\<close> and \<open>xenbus_set_perms\<close>: the error, if any.\<close>

definition xenbus_write :: "xs_abi \<Rightarrow> rep option \<Rightarrow> xenbus \<Rightarrow> u8 list option \<times> xenbus" where
  "xenbus_write A rep s =
     (case errmsg A rep s of (Some msg, s) \<Rightarrow> (Some msg, s) | (None, s) \<Rightarrow> (None, xb_emit FreeReply s))"

definition xenbus_rm_req :: "xs_abi \<Rightarrow> u8 list \<Rightarrow> u32 \<times> u8 list list" where
  "xenbus_rm_req A p = (XS_RM A, [str_req p])"

definition xenbus_rm :: "xs_abi \<Rightarrow> rep option \<Rightarrow> xenbus \<Rightarrow> u8 list option \<times> xenbus" where
  "xenbus_rm A rep s =
     (case errmsg A rep s of (Some msg, s) \<Rightarrow> (Some msg, s) | (None, s) \<Rightarrow> (None, xb_emit FreeReply s))"

definition xenbus_get_perms_req :: "xs_abi \<Rightarrow> u8 list \<Rightarrow> u32 \<times> u8 list list" where
  "xenbus_get_perms_req A p = (XS_GET_PERMS A, [str_req p])"

definition xenbus_get_perms :: "xs_abi \<Rightarrow> rep option \<Rightarrow> xenbus \<Rightarrow> (u8 list + u8 list) \<times> xenbus" where
  "xenbus_get_perms A rep s =
     (case errmsg A rep s of
        (Some msg, s) \<Rightarrow> (Inl msg, s)
      | (None, s) \<Rightarrow> (Inr (cstring (snd (the rep))), xb_emit FreeReply s))"

text \<open>The value of \<open>xenbus_set_perms\<close> is what \<open>snprintf\<close> puts into a local array of 32 bytes at \<open>value\<close>
  with the format \<open>%c%hu\<close>.\<close>

definition PERM_MAX_SIZE :: nat where "PERM_MAX_SIZE = 32"

definition xenbus_set_perms_req ::
  "xs_abi \<Rightarrow> mem \<Rightarrow> nat \<Rightarrow> u8 list \<Rightarrow> u16 \<Rightarrow> u8 \<Rightarrow> (u32 \<times> u8 list list) option" where
  "xenbus_set_perms_req A m value p domid perm =
     Option.bind (snprintf m value PERM_MAX_SIZE [37, 99, 37, 104, 117] [ucast perm, ucast domid])
       (\<lambda>(m, _). Option.bind (strlen m value)
         (\<lambda>n. Some (XS_SET_PERMS A, [str_req p, map (\<lambda>i. m (value + i)) [0..<Suc n]])))"

definition xenbus_set_perms :: "xs_abi \<Rightarrow> rep option \<Rightarrow> xenbus \<Rightarrow> u8 list option \<times> xenbus" where
  "xenbus_set_perms A rep s =
     (case errmsg A rep s of (Some msg, s) \<Rightarrow> (Some msg, s) | (None, s) \<Rightarrow> (None, xb_emit FreeReply s))"

definition xenbus_transaction_start_req :: "xs_abi \<Rightarrow> u32 \<times> u8 list list" where
  "xenbus_transaction_start_req A = (XS_TRANSACTION_START A, [[0]])"

text \<open>\<open>sscanf\<close> stores the transaction at \<open>xbt\<close>.\<close>

definition xenbus_transaction_start ::
  "xs_abi \<Rightarrow> rep option \<Rightarrow> mem \<Rightarrow> u64 \<Rightarrow> xenbus \<Rightarrow> ((u8 list + mem) \<times> xenbus) option" where
  "xenbus_transaction_start A rep m xbt s =
     (case errmsg A rep s of
        (Some msg, s) \<Rightarrow> Some (Inl msg, s)
      | (None, s) \<Rightarrow>
          Option.bind (sscanf m (cstring (snd (the rep))) [37, 117] [xbt]) (\<lambda>(m, _).
            Some (Inr m, xb_emit FreeReply s)))"

definition xenbus_transaction_end_req :: "xs_abi \<Rightarrow> bool \<Rightarrow> u32 \<times> u8 list list" where
  "xenbus_transaction_end_req A abort = (XS_TRANSACTION_END A, [if abort then [70, 0] else [84, 0]])"

text \<open>The retry flag and the error.\<close>

definition EAGAIN :: "u8 list" where "EAGAIN = [69, 65, 71, 65, 73, 78]"

definition xenbus_transaction_end ::
  "xs_abi \<Rightarrow> rep option \<Rightarrow> xenbus \<Rightarrow> bool \<times> u8 list option \<times> xenbus" where
  "xenbus_transaction_end A rep s =
     (case errmsg A rep s of
        (Some err, s) \<Rightarrow> if err = EAGAIN then (True, None, s) else (False, Some err, s)
      | (None, s) \<Rightarrow> (False, None, xb_emit FreeReply s))"

section \<open>Watches\<close>

definition xenbus_watch_path_begin ::
  "xs_abi \<Rightarrow> u8 list \<Rightarrow> u8 list \<Rightarrow> xenbus \<Rightarrow> guk_stop + (u32 \<times> u8 list list) \<times> xenbus" where
  "xenbus_watch_path_begin A p tok s =
     res_bind (bug_on (find_watch tok (watch_list s) \<noteq> None) ()) (\<lambda>_.
       let w = \<lparr>token = tok, path = p, path_prod_idx = 0, path_cons_idx = 0, paths = (\<lambda>_. []),
                watch_thread = None\<rparr>
       in Inr ((XS_WATCH A, [str_req p, str_req tok]), s\<lparr>watch_list := w # watch_list s\<rparr>))"

fun del_watch :: "u8 list \<Rightarrow> xenbus_watch list \<Rightarrow> xenbus_watch list" where
  "del_watch tok [] = []"
| "del_watch tok (w # ws) = (if token w = tok then ws else w # del_watch tok ws)"

definition xenbus_watch_path_end ::
  "xs_abi \<Rightarrow> u8 list \<Rightarrow> rep option \<Rightarrow> xenbus \<Rightarrow> guk_stop + u8 list option \<times> xenbus" where
  "xenbus_watch_path_end A tok rep s =
     (case errmsg A rep s of
        (None, s) \<Rightarrow> Inr (None, s)
      | (Some msg, s) \<Rightarrow>
          let s = xb_emit FreeReply s
          in res_bind (bug_on (find_watch tok (watch_list s) = None) ()) (\<lambda>_.
               Inr (Some msg, xb_emit FreeWatch (s\<lparr>watch_list := del_watch tok (watch_list s)\<rparr>))))"

definition xenbus_rm_watch_req :: "xs_abi \<Rightarrow> u8 list \<Rightarrow> xenbus \<Rightarrow> (u32 \<times> u8 list list) option" where
  "xenbus_rm_watch_req A tok s =
     (case find_watch tok (watch_list s) of
        None \<Rightarrow> None
      | Some w \<Rightarrow> Some (XS_UNWATCH A, [str_req (path w), str_req (token w)]))"

definition xenbus_rm_watch_end :: "u8 list \<Rightarrow> xenbus \<Rightarrow> xenbus" where
  "xenbus_rm_watch_end tok s =
     xb_emit FreeWatch (s\<lparr>watch_list := del_watch tok (watch_list s)\<rparr>)"

text \<open>One turn of \<open>xenbus_read_watch\<close> by thread \<open>t\<close>; no result: the thread blocks and calls \<open>schedule\<close>.\<close>

definition xenbus_read_watch ::
  "tptr \<Rightarrow> u8 list \<Rightarrow> xenbus \<Rightarrow> guk_stop + u8 list option \<times> xenbus" where
  "xenbus_read_watch t tok s =
     (case find_watch tok (watch_list s) of
        None \<Rightarrow> Inl FAULT
      | Some w \<Rightarrow>
          if path_cons_idx w < path_prod_idx w then
            Inr (Some (paths w (path_cons_idx w mod MAX_PATHS)),
                 s\<lparr>watch_list := put_watch tok (w\<lparr>path_cons_idx := Suc (path_cons_idx w),
                                                  watch_thread := None\<rparr>) (watch_list s)\<rparr>)
          else Inr (None, xb_emit (BlockWatcher t)
                 (s\<lparr>watch_list := put_watch tok (w\<lparr>watch_thread := Some t\<rparr>) (watch_list s)\<rparr>)))"

text \<open>What \<open>xenbus_wait_for_value\<close> does with a changed path and the value read from it: go on, or return
  the error, or return none.\<close>

definition wait_for_value_turn ::
  "u8 list \<Rightarrow> u8 list \<Rightarrow> u8 list \<Rightarrow> u8 list + u8 list \<Rightarrow> u8 list option option" where
  "wait_for_value_turn p value changed res =
     (if changed = p then
        case res of
          Inl msg \<Rightarrow> Some (Some msg)
        | Inr v \<Rightarrow> if v = value then Some None else None
      else None)"

text \<open>\<open>xenbus_resume\<close> registers every watch again.\<close>

definition xenbus_resume_reqs :: "xs_abi \<Rightarrow> xenbus \<Rightarrow> (u32 \<times> u8 list list) list" where
  "xenbus_resume_reqs A s =
     map (\<lambda>w. (XS_WATCH A, [str_req (path w), str_req (token w)])) (watch_list s)"

section \<open>Identifiers are never handed out twice\<close>

definition id_inv :: "xenbus \<Rightarrow> bool" where
  "id_inv s \<longleftrightarrow> nr_live_reqs s = card {i. i < NR_REQS \<and> in_use (req_info s i)} \<and> probe s < NR_REQS"

text \<open>The identifiers in the order the search looks at them.\<close>

lemma probe_loop_found:
  assumes "\<not> in_use (info ((p + d) mod NR_REQS))" "d < n" "p < NR_REQS"
  shows "\<exists>j\<le>d. probe_loop info p n = Inr ((p + j) mod NR_REQS) \<and> \<not> in_use (info ((p + j) mod NR_REQS)) \<and>
    (\<forall>j'<j. in_use (info ((p + j') mod NR_REQS)))"
  using assms
proof (induction n arbitrary: p d)
  case (Suc n)
  show ?case
  proof (cases "in_use (info p)")
    case False
    then show ?thesis using Suc.prems by (intro exI[of _ 0]) simp
  next
    case True
    then obtain d' where d: "d = Suc d'" using Suc.prems by (cases d) auto
    let ?p = "(p + 1) mod NR_REQS"
    have sh: "(?p + j) mod NR_REQS = (p + Suc j) mod NR_REQS" for j
      by (simp add: mod_add_left_eq)
    have "\<exists>j\<le>d'. probe_loop info ?p n = Inr ((?p + j) mod NR_REQS) \<and>
      \<not> in_use (info ((?p + j) mod NR_REQS)) \<and> (\<forall>j'<j. in_use (info ((?p + j') mod NR_REQS)))"
      by (rule Suc.IH) (use Suc.prems d sh in \<open>auto simp: NR_REQS_def\<close>)
    then obtain j where j: "j \<le> d'" "probe_loop info ?p n = Inr ((p + Suc j) mod NR_REQS)"
      "\<not> in_use (info ((p + Suc j) mod NR_REQS))" "\<forall>j'<j. in_use (info ((p + Suc j') mod NR_REQS))"
      unfolding sh by blast
    have "in_use (info ((p + j') mod NR_REQS))" if "j' < Suc j" for j'
      using that True j(4) Suc.prems(3) by (cases j') auto
    then show ?thesis using j True d by (intro exI[of _ "Suc j"]) auto
  qed
qed simp

lemma id_free_exists:
  assumes "id_inv s" "nr_live_reqs s < NR_REQS"
  shows "\<exists>i<NR_REQS. \<not> in_use (req_info s i)"
proof (rule ccontr)
  assume "\<not> ?thesis"
  then have "{i. i < NR_REQS \<and> in_use (req_info s i)} = {..<NR_REQS}" by auto
  then show False using assms by (simp add: id_inv_def)
qed

lemma id_inv_upd:
  assumes "id_inv s" "i < NR_REQS"
  shows "{j. j < NR_REQS \<and> in_use (((req_info s)(i := (req_info s i)\<lparr>in_use := b\<rparr>)) j)} =
    (if b then insert i {j. j < NR_REQS \<and> in_use (req_info s j)}
     else {j. j < NR_REQS \<and> in_use (req_info s j)} - {i})"
  using assms(2) by auto

lemma allocate_id_ok:
  assumes "id_inv s"
  shows "if nr_live_reqs s < NR_REQS
    then \<exists>i s'. allocate_xenbus_id s = Inr (Some (i, s')) \<and> i < NR_REQS \<and> \<not> in_use (req_info s i) \<and>
      in_use (req_info s' i) \<and> (\<forall>j. j \<noteq> i \<longrightarrow> req_info s' j = req_info s j) \<and> id_inv s'
    else allocate_xenbus_id s = Inr None"
proof (cases "nr_live_reqs s < NR_REQS")
  case True
  obtain i where i: "i < NR_REQS" "\<not> in_use (req_info s i)" using id_free_exists[OF assms True] by blast
  have p: "probe s < NR_REQS" using assms by (simp add: id_inv_def)
  define d where "d = (if probe s \<le> i then i - probe s else NR_REQS + i - probe s)"
  have "(probe s + d) mod NR_REQS = i" "d < NR_REQS" using i(1) p by (auto simp: d_def)
  then obtain j where j: "probe_loop (req_info s) (probe s) NR_REQS = Inr ((probe s + j) mod NR_REQS)"
    "\<not> in_use (req_info s ((probe s + j) mod NR_REQS))"
    using probe_loop_found[of "req_info s" "probe s" d NR_REQS] i(2) p by auto
  let ?i = "(probe s + j) mod NR_REQS"
  have lt: "?i < NR_REQS" by (simp add: NR_REQS_def)
  let ?s = "s\<lparr>nr_live_reqs := Suc (nr_live_reqs s),
    req_info := (req_info s)(?i := (req_info s ?i)\<lparr>in_use := True\<rparr>), probe := (?i + 1) mod NR_REQS\<rparr>"
  have "allocate_xenbus_id s = Inr (Some (?i, ?s))" using True j(1) by (simp add: allocate_xenbus_id_def)
  moreover have "id_inv ?s"
    using assms j(2) id_inv_upd[OF assms lt, of True] by (simp add: id_inv_def NR_REQS_def)
  ultimately show ?thesis using True j(2) lt by auto
qed (simp add: allocate_xenbus_id_def)

lemma release_id_ok:
  assumes "id_inv s" "i < NR_REQS" "in_use (req_info s i)"
  shows "\<exists>s'. release_xenbus_id i s = Inr s' \<and> id_inv s' \<and> \<not> in_use (req_info s' i) \<and>
    (\<forall>j. j \<noteq> i \<longrightarrow> req_info s' j = req_info s j)"
proof -
  let ?s = "s\<lparr>nr_live_reqs := nr_live_reqs s - 1,
    req_info := (req_info s)(i := (req_info s i)\<lparr>in_use := False\<rparr>)\<rparr>"
  have "id_inv ?s"
    using assms id_inv_upd[OF assms(1,2), of False] by (simp add: id_inv_def)
  then have "id_inv (xb_emit WakeIds ?s)" by (simp add: id_inv_def xb_emit_def)
  then show ?thesis
    using assms(3) \<open>id_inv ?s\<close> by (simp add: release_xenbus_id_def Let_def xb_emit_def)
qed

section \<open>What is written is the message\<close>

lemma store_list_Nil [simp]: "store_list p [] m = m"
  by (rule ext) (auto simp: store_list_def)

lemma store_list_Cons: "store_list p (x # xs) m = store_list (Suc p) xs (m(p := x))"
  by (auto simp: store_list_def fun_eq_iff nth_Cons')

lemma ring_put_list:
  assumes "k < 32" "unat (prd - cons) + length bs \<le> 2 ^ k" "mask_idx k prd + length bs \<le> 2 ^ k"
  shows "ring_data k (store_list (mask_idx k prd) bs arr) cons (prd + of_nat (length bs)) =
      ring_data k arr cons prd @ bs \<and>
    unat (prd + of_nat (length bs) - cons) = unat (prd - cons) + length bs"
  using assms(2,3)
proof (induction bs arbitrary: prd arr)
  case (Cons b bs)
  let ?arr = "arr(mask_idx k prd := b)"
  have lt: "unat (prd - cons) < 2 ^ k" using Cons.prems(1) by simp
  note put = ring_put[OF assms(1) lt]
  have e: "prd + of_nat (length (b # bs)) = prd + 1 + of_nat (length bs)" by simp
  show ?case
  proof (cases "bs = []")
    case True
    then show ?thesis using put by (simp add: store_list_Cons del: fun_upd_apply)
  next
    case False
    then have "mask_idx k prd + 1 < 2 ^ k" using Cons.prems(2) by (cases bs) auto
    then have m: "mask_idx k (prd + 1) = Suc (mask_idx k prd)"
      using mask_idx_add[of k prd 1] assms(1) by simp
    have "ring_data k (store_list (mask_idx k (prd + 1)) bs ?arr) cons (prd + 1 + of_nat (length bs)) =
        ring_data k ?arr cons (prd + 1) @ bs \<and>
      unat (prd + 1 + of_nat (length bs) - cons) = unat (prd + 1 - cons) + length bs"
      by (rule Cons.IH) (use Cons.prems put(2) m in simp_all)
    then show ?thesis unfolding e store_list_Cons m put(1) put(2) by simp
  qed
qed simp

lemma xb_copy_ok:
  assumes "k < 32" "unat (prd - cons) + left \<le> 2 ^ k" "req_off < length d \<or> req_off = 0"
    and "left = length d - req_off + sum_list (map length ds)"
  shows "\<exists>arr'. xb_copy k arr prd req_off left (d # ds) = (arr', prd + of_nat left, 0) \<and>
    ring_data k arr' cons (prd + of_nat left) = ring_data k arr cons prd @ drop req_off d @ concat ds"
  using assms
proof (induction k arr prd req_off left "d # ds" arbitrary: d ds rule: xb_copy.induct)
  case (2 k arr prd req_off left d ds)
  show ?case
  proof (cases "left = 0")
    case True
    then have "drop req_off d = []" "concat ds = []" "req_off = 0" using 2(5,6) by auto
    then show ?thesis using True by simp
  next
    case False
    define n where "n = min (length d - req_off) (2 ^ k - mask_idx k prd)"
    define bs where "bs = take n (drop req_off d)"
    let ?arr = "store_list (mask_idx k prd) bs arr" and ?prd = "prd + of_nat n"
    have n: "length bs = n" "n \<le> left" "mask_idx k prd + n \<le> 2 ^ k"
      using 2(6) mask_idx_less[of k prd] by (auto simp: n_def bs_def)
    have put: "ring_data k ?arr cons ?prd = ring_data k arr cons prd @ bs"
      "unat (?prd - cons) = unat (prd - cons) + n"
      using ring_put_list[OF 2(3), of prd cons bs arr] 2(4) n by auto
    have e: "?prd + of_nat (left - n) = prd + of_nat left" using n(2) by (simp add: of_nat_diff)
    have room: "unat (?prd - cons) + (left - n) \<le> 2 ^ k" using put(2) 2(4) n(2) by simp
    have step: "xb_copy k arr prd req_off left (d # ds) =
      (if length d \<le> req_off + n then xb_copy k ?arr ?prd 0 (left - n) ds
       else xb_copy k ?arr ?prd (req_off + n) (left - n) (d # ds))"
      by (subst xb_copy.simps(2)) (simp only: False if_False Let_def n_def bs_def)
    show ?thesis
    proof (cases "length d \<le> req_off + n")
      case True
      then have all: "bs = drop req_off d" "left - n = sum_list (map length ds)"
        using 2(6) by (auto simp: bs_def n_def)
      show ?thesis
      proof (cases ds)
        case Nil
        then show ?thesis using True put(1) all n(2) unfolding step by simp
      next
        case (Cons d' ds')
        have "\<exists>arr'. xb_copy k ?arr ?prd 0 (left - n) (d' # ds') = (arr', ?prd + of_nat (left - n), 0) \<and>
          ring_data k arr' cons (?prd + of_nat (left - n)) = ring_data k ?arr cons ?prd @ drop 0 d' @ concat ds'"
          using 2(1)[OF False n_def refl refl refl refl] True Cons 2(3) room all(2)
          by (auto simp: bs_def)
        then show ?thesis using True Cons put(1) all(1) unfolding e step by auto
      qed
    next
      case more: False
      then have "0 < n" using mask_idx_less[of k prd] by (auto simp: n_def min_def split: if_splits)
      have "\<exists>arr'. xb_copy k ?arr ?prd (req_off + n) (left - n) (d # ds) = (arr', ?prd + of_nat (left - n), 0) \<and>
        ring_data k arr' cons (?prd + of_nat (left - n)) =
          ring_data k ?arr cons ?prd @ drop (req_off + n) d @ concat ds"
        using 2(2)[OF False n_def refl refl refl refl] more 2(3,6) room by (auto simp: bs_def)
      moreover have "bs @ drop (req_off + n) d = drop req_off d"
        unfolding bs_def by (metis append_take_drop_id drop_drop add.commute)
      ultimately show ?thesis using more put(1) unfolding e step by auto
    qed
  qed
qed

definition abi_ok :: "xs_abi \<Rightarrow> bool" where
  "abi_ok A \<longleftrightarrow> 0 < hdr_len A \<and> (\<forall>m. length (hdr_enc A m) = hdr_len A \<and> hdr_dec A (hdr_enc A m) = m)"

definition requests :: "nat \<Rightarrow> xenbus \<Rightarrow> u8 list" where
  "requests k s = ring_data k (xs_req s) (req_cons s) (req_prod s)"

definition responses :: "nat \<Rightarrow> xenbus \<Rightarrow> u8 list" where
  "responses k s = ring_data k (xs_rsp s) (rsp_cons s) (rsp_prod s)"

definition request_msg :: "xs_abi \<Rightarrow> u32 \<Rightarrow> u32 \<Rightarrow> u32 \<Rightarrow> u8 list list \<Rightarrow> u8 list" where
  "request_msg A type req_id trans_id req =
     hdr_enc A \<lparr>ms_type = type, ms_req_id = req_id, ms_tx_id = trans_id,
                ms_len = of_nat (sum_list (map length req))\<rparr> @ concat req"

lemma unat_nat32: "n < 2 ^ 32 \<Longrightarrow> unat (of_nat n :: u32) = n"
  by (simp add: unat_of_nat take_bit_eq_mod)

lemma unat_pow2: "k < 32 \<Longrightarrow> unat ((2 :: u32) ^ k) = 2 ^ k"
proof -
  assume "k < 32"
  then have "(2 :: nat) ^ k < 2 ^ 32" by (rule power_strict_increasing) simp
  then have "unat (of_nat (2 ^ k) :: u32) = 2 ^ k" by (rule unat_nat32)
  then show ?thesis by simp
qed

lemma length_request_msg:
  "abi_ok A \<Longrightarrow> length (request_msg A type req_id trans_id req) = sum_list (map length req) + hdr_len A"
  by (simp add: request_msg_def abi_ok_def length_concat)

text \<open>With enough space, the only way to stop is the comparison of the indices, which ignores that they wrap.\<close>

lemma xb_send_exact:
  assumes "abi_ok A" "k < 32"
    and "length (requests k s) + length (request_msg A type req_id trans_id req) \<le> 2 ^ k"
  defines "prd \<equiv> req_prod s + of_nat (length (request_msg A type req_id trans_id req))"
  shows "if req_cons s + 2 ^ k < prd then xb_send A k type req_id trans_id req s = Inl BUG
    else \<exists>arr. xb_send A k type req_id trans_id req s =
        Inr (xb_emit NotifyStore (s\<lparr>xs_req := arr, req_prod := prd\<rparr>)) \<and>
      ring_data k arr (req_cons s) prd = requests k s @ request_msg A type req_id trans_id req"
proof -
  let ?body = "sum_list (map length req)"
  let ?m = "\<lparr>ms_type = type, ms_req_id = req_id, ms_tx_id = trans_id, ms_len = of_nat ?body\<rparr>"
  have len: "length (request_msg A type req_id trans_id req) = ?body + hdr_len A"
    "length (hdr_enc A ?m) = hdr_len A" "0 < hdr_len A"
    using assms(1) length_request_msg by (auto simp: abi_ok_def)
  have prd: "prd = req_prod s + of_nat (?body + hdr_len A)" unfolding prd_def len(1) ..
  have "\<exists>arr. xb_copy k (xs_req s) (req_prod s) 0 (?body + hdr_len A) (hdr_enc A ?m # req) =
      (arr, req_prod s + of_nat (?body + hdr_len A), 0) \<and>
    ring_data k arr (req_cons s) (req_prod s + of_nat (?body + hdr_len A)) =
      ring_data k (xs_req s) (req_cons s) (req_prod s) @ drop 0 (hdr_enc A ?m) @ concat req"
    using assms(3) len by (intro xb_copy_ok[OF assms(2)]) (auto simp: requests_def)
  then obtain arr where c: "xb_copy k (xs_req s) (req_prod s) 0 (?body + hdr_len A) (hdr_enc A ?m # req) =
      (arr, prd, 0)"
    and r: "ring_data k arr (req_cons s) prd = requests k s @ request_msg A type req_id trans_id req"
    unfolding prd[symmetric] requests_def request_msg_def by auto
  show ?thesis
    using r unfolding xb_send_def Let_def c prd[symmetric] by (auto simp: bug_on_def)
qed

lemma xb_room:
  assumes "k < 31" "unat (prd - cons :: u32) \<le> 2 ^ k" "len \<le> 2 ^ k"
  shows "prd + of_nat len - cons > 2 ^ k \<longleftrightarrow> unat (prd - cons) + len > 2 ^ k"
proof -
  have "(2 :: nat) ^ Suc k < 2 ^ 32" using assms(1) by (intro power_strict_increasing) auto
  then have lt: "unat (prd - cons) + len < 2 ^ 32" using assms(2,3) by simp
  then have "unat (of_nat len :: u32) = len" by (intro unat_nat32) simp
  then have "unat ((prd - cons) + of_nat len) = unat (prd - cons) + len"
    using lt unat_add_lem[of "prd - cons" "of_nat len"] by simp
  moreover have e: "prd + of_nat len - cons = (prd - cons) + of_nat len" by (simp add: algebra_simps)
  ultimately show ?thesis using assms(1) unfolding e by (simp add: word_less_nat_alt unat_pow2)
qed


section \<open>Every reply reaches its request\<close>

lemma memcpy_from_ring_data:
  assumes "k \<le> 32" "unat (prd - cons) \<le> 2 ^ k" "len \<le> unat (prd - cons)"
  shows "memcpy_from_ring k arr (mask_idx k cons) len = take len (ring_data k arr cons prd)"
proof (rule nth_equalityI)
  let ?o = "mask_idx k cons"
  have o: "?o < 2 ^ k" by (rule mask_idx_less)
  show "length (memcpy_from_ring k arr ?o len) = length (take len (ring_data k arr cons prd))"
    using assms(3) by (simp add: memcpy_from_ring_def Let_def)
  fix i assume "i < length (memcpy_from_ring k arr ?o len)"
  then have i: "i < len" by (simp add: memcpy_from_ring_def Let_def)
  have m: "mask_idx k (cons + of_nat i) = (?o + i) mod 2 ^ k" by (rule mask_idx_add[OF assms(1)])
  have "memcpy_from_ring k arr ?o len ! i = arr ((?o + i) mod 2 ^ k)"
  proof (cases "?o + i < 2 ^ k")
    case True
    then show ?thesis using i o by (auto simp: memcpy_from_ring_def Let_def nth_append)
  next
    case False
    then have "(?o + i) mod 2 ^ k = i - (2 ^ k - ?o)"
      using o i assms(2,3) by (auto simp: mod_if)
    then show ?thesis using False i o
      by (auto simp: memcpy_from_ring_def Let_def nth_append min_def)
  qed
  then show "memcpy_from_ring k arr ?o len ! i = take len (ring_data k arr cons prd) ! i"
    using i assms(3) m by (simp add: ring_data_nth)
qed

definition reply_msg :: "xs_abi \<Rightarrow> rep \<Rightarrow> u8 list" where
  "reply_msg A r = hdr_enc A (fst r) @ snd r"

definition reply_id :: "rep \<Rightarrow> nat" where
  "reply_id r = unat (ms_req_id (fst r))"

definition reply_ok :: "xs_abi \<Rightarrow> xenbus \<Rightarrow> rep \<Rightarrow> bool" where
  "reply_ok A s r \<longleftrightarrow> length (snd r) = unat (ms_len (fst r)) \<and> ms_type (fst r) \<noteq> XS_WATCH_EVENT A \<and>
     reply_id r < NR_REQS \<and> in_use (req_info s (reply_id r))"

lemma thread_turn_reply:
  assumes "abi_ok A" "k \<le> 32" "length (responses k s) \<le> 2 ^ k" "reply_ok A s r"
    and "responses k s = reply_msg A r @ rest"
  shows "\<exists>s'. xenbus_thread_turn A k s = Inr (True, s') \<and> responses k s' = rest \<and>
    nr_live_reqs s' = nr_live_reqs s \<and> probe s' = probe s \<and>
    req_info s' = (req_info s)(reply_id r := (req_info s (reply_id r))\<lparr>reply := Some (reply_msg A r)\<rparr>)"
proof -
  let ?n = "unat (rsp_prod s - rsp_cons s)"
  have n: "?n = length (reply_msg A r) + length rest" using arg_cong[OF assms(5), of length]
    by (simp add: responses_def)
  have h: "length (hdr_enc A (fst r)) = hdr_len A" "hdr_dec A (hdr_enc A (fst r)) = fst r"
    using assms(1) by (simp_all add: abi_ok_def)
  have l: "length (reply_msg A r) = unat (ms_len (fst r)) + hdr_len A"
    using assms(4) h(1) by (simp add: reply_msg_def reply_ok_def)
  have c: "memcpy_from_ring k (xs_rsp s) (mask_idx k (rsp_cons s)) len = take len (reply_msg A r @ rest)"
    if "len \<le> ?n" for len
    using memcpy_from_ring_data[OF assms(2) _ that] assms(3,5) by (simp add: responses_def)
  have 1: "memcpy_from_ring k (xs_rsp s) (mask_idx k (rsp_cons s)) (hdr_len A) = hdr_enc A (fst r)"
    using c[of "hdr_len A"] n l h(1) by (simp add: reply_msg_def)
  have 2: "memcpy_from_ring k (xs_rsp s) (mask_idx k (rsp_cons s)) (unat (ms_len (fst r)) + hdr_len A) =
    reply_msg A r" using c[of "length (reply_msg A r)"] n l by simp
  have 3: "ring_data k (xs_rsp s) (rsp_cons s + of_nat (length (reply_msg A r))) (rsp_prod s) = rest"
    using ring_drop[of "length (reply_msg A r)" "rsp_prod s" "rsp_cons s" k "xs_rsp s"] n assms(5)
    by (simp add: responses_def)
  have nf: "\<not> ?n < hdr_len A" "\<not> ?n < unat (ms_len (fst r)) + hdr_len A" using n l by simp_all
  show ?thesis
    using assms(4) nf 3 unfolding xenbus_thread_turn_def Let_def 1 h(2) 2 l
    by (auto simp: reply_ok_def reply_id_def responses_def xb_emit_def)
qed

lemma thread_loop_replies:
  assumes "abi_ok A" "k \<le> 32" "length (responses k s) \<le> 2 ^ k"
    and "responses k s = concat (map (reply_msg A) rs)" "\<And>r. r \<in> set rs \<Longrightarrow> reply_ok A s r"
    and "distinct (map reply_id rs)"
  shows "\<exists>s'. xenbus_thread_loop A k s = Some (Inr s') \<and> responses k s' = [] \<and>
    nr_live_reqs s' = nr_live_reqs s \<and> probe s' = probe s \<and>
    (\<forall>r\<in>set rs. reply (req_info s' (reply_id r)) = Some (reply_msg A r)) \<and>
    (\<forall>i. i \<notin> reply_id ` set rs \<longrightarrow> req_info s' i = req_info s i) \<and>
    (\<forall>i. in_use (req_info s' i) = in_use (req_info s i))"
  using assms(3-)
proof (induction rs arbitrary: s)
  case Nil
  then have "unat (rsp_prod s - rsp_cons s) = 0" by (simp add: responses_def ring_data_Nil_iff)
  moreover have "0 < hdr_len A" using assms(1) by (simp add: abi_ok_def)
  ultimately have "xenbus_thread_turn A k s = Inr (False, s)" by (simp add: xenbus_thread_turn_def)
  then show ?case using Nil by (subst xenbus_thread_loop.simps) simp
next
  case (Cons r rs)
  obtain s1 where s1: "xenbus_thread_turn A k s = Inr (True, s1)" "responses k s1 = concat (map (reply_msg A) rs)"
    "nr_live_reqs s1 = nr_live_reqs s" "probe s1 = probe s"
    "req_info s1 = (req_info s)(reply_id r := (req_info s (reply_id r))\<lparr>reply := Some (reply_msg A r)\<rparr>)"
    using thread_turn_reply[OF assms(1,2) Cons.prems(1), of r "concat (map (reply_msg A) rs)"] Cons.prems(2,3)
    by auto
  have u: "in_use (req_info s1 i) = in_use (req_info s i)" for i using s1(5) by simp
  have "\<exists>s'. xenbus_thread_loop A k s1 = Some (Inr s') \<and> responses k s' = [] \<and>
    nr_live_reqs s' = nr_live_reqs s1 \<and> probe s' = probe s1 \<and>
    (\<forall>r\<in>set rs. reply (req_info s' (reply_id r)) = Some (reply_msg A r)) \<and>
    (\<forall>i. i \<notin> reply_id ` set rs \<longrightarrow> req_info s' i = req_info s1 i) \<and>
    (\<forall>i. in_use (req_info s' i) = in_use (req_info s1 i))"
  proof (rule Cons.IH)
    show "length (responses k s1) \<le> 2 ^ k" using Cons.prems(1,2) s1(2) by simp
    show "reply_ok A s1 q" if "q \<in> set rs" for q using Cons.prems(3)[of q] that u by (simp add: reply_ok_def)
  qed (use s1(2) Cons.prems(4) in auto)
  then obtain s' where s': "xenbus_thread_loop A k s1 = Some (Inr s')" "responses k s' = []"
    "nr_live_reqs s' = nr_live_reqs s1" "probe s' = probe s1"
    "\<forall>r\<in>set rs. reply (req_info s' (reply_id r)) = Some (reply_msg A r)"
    "\<forall>i. i \<notin> reply_id ` set rs \<longrightarrow> req_info s' i = req_info s1 i"
    "\<forall>i. in_use (req_info s' i) = in_use (req_info s1 i)" by blast
  have "reply_id r \<notin> reply_id ` set rs" using Cons.prems(4) by auto
  then have "reply (req_info s' (reply_id r)) = Some (reply_msg A r)" using s'(6) s1(5) by simp
  moreover have "xenbus_thread_loop A k s = Some (Inr s')"
    using s1(1) s'(1) by (subst xenbus_thread_loop.simps) simp
  ultimately show ?case using s' s1(3-5) u by (auto simp: image_iff)
qed

lemma cstring_str_req: "0 \<notin> set x \<Longrightarrow> cstring (str_req x @ ys) = x"
  by (auto simp: cstring_def str_req_def takeWhile_tail takeWhile_append2)

lemma ls_names_roundtrip:
  "\<forall>x\<in>set xs. 0 \<notin> set x \<Longrightarrow> ls_names (length xs) (concat (map str_req xs)) = xs \<and>
    length (filter (\<lambda>c. c = 0) (concat (map str_req xs))) = length xs"
proof (induction xs)
  case (Cons x xs)
  have "cstring (str_req x @ concat (map str_req xs)) = x" using Cons.prems by (simp add: cstring_str_req)
  moreover have "drop (length x + 1) (str_req x @ concat (map str_req xs)) = concat (map str_req xs)"
    by (simp add: str_req_def)
  moreover have "filter (\<lambda>c. c = 0) (str_req x) = [0]"
    using Cons.prems by (auto simp: str_req_def filter_empty_conv)
  ultimately show ?case using Cons by simp
qed simp

section \<open>Properties\<close>

text \<open>
  C16. The counter of live requests is the number of identifiers in use, whatever is allocated and
  released. An allocation then waits exactly when all are in use; otherwise it never reaches the \<open>BUG\<close> of the
  search and hands out an identifier of the table that nobody uses. Releasing an identifier in use
  succeeds and frees exactly that one.
\<close>

theorem xenbus_ids_unique:
  assumes "id_inv s"
  shows "(if nr_live_reqs s < NR_REQS
      then \<exists>i s'. allocate_xenbus_id s = Inr (Some (i, s')) \<and> i < NR_REQS \<and> \<not> in_use (req_info s i) \<and>
        in_use (req_info s' i) \<and> (\<forall>j. j \<noteq> i \<longrightarrow> req_info s' j = req_info s j) \<and> id_inv s'
      else allocate_xenbus_id s = Inr None) \<and>
    (i < NR_REQS \<and> in_use (req_info s i) \<longrightarrow>
      (\<exists>s'. release_xenbus_id i s = Inr s' \<and> id_inv s' \<and> \<not> in_use (req_info s' i) \<and>
        (\<forall>j. j \<noteq> i \<longrightarrow> req_info s' j = req_info s j)))"
  using allocate_id_ok[OF assms] release_id_ok[OF assms] by blast



section \<open>An instance\<close>

text \<open>The header as four little-endian words.\<close>

definition le32 :: "u32 \<Rightarrow> u8 list" where
  "le32 w = [ucast w, ucast (drop_bit 8 w), ucast (drop_bit 16 w), ucast (drop_bit 24 w)]"

definition un32 :: "u8 list \<Rightarrow> u32" where
  "un32 b = ucast (b ! 0) OR push_bit 8 (ucast (b ! 1)) OR push_bit 16 (ucast (b ! 2)) OR
     push_bit 24 (ucast (b ! 3))"

definition sample_abi :: xs_abi where
  "sample_abi = \<lparr>hdr_len = 16,
     hdr_enc = (\<lambda>m. le32 (ms_type m) @ le32 (ms_req_id m) @ le32 (ms_tx_id m) @ le32 (ms_len m)),
     hdr_dec = (\<lambda>b. \<lparr>ms_type = un32 b, ms_req_id = un32 (drop 4 b), ms_tx_id = un32 (drop 8 b),
       ms_len = un32 (drop 12 b)\<rparr>),
     XS_WATCH_EVENT = 15, XS_ERROR = 16, XS_DIRECTORY = 1, XS_READ = 2, XS_WRITE = 11, XS_WATCH = 4,
     XS_UNWATCH = 5, XS_RM = 13, XS_GET_PERMS = 3, XS_SET_PERMS = 14, XS_TRANSACTION_START = 6,
     XS_TRANSACTION_END = 7\<rparr>"

lemma length_le32 [simp]: "length (le32 w) = 4"
  by (simp add: le32_def)

lemma un32_le32: "un32 (le32 w @ r) = w"
proof (rule word_bitI)
  fix i assume "i < LENGTH(32)"
  then show "bit (un32 (le32 w @ r)) i = bit w i"
    by (cases "i < 24"; cases "i < 16") (auto simp: un32_def le32_def bit_or_iff bit_push_bit_iff bit_drop_bit_eq bit_ucast_iff not_less)
qed

lemma sample_abi_ok: "abi_ok sample_abi"
  using un32_le32[of _ "[]"] un32_le32 by (simp add: abi_ok_def sample_abi_def)

definition sample_bus :: xenbus where
  "sample_bus = \<lparr>xs_req = (\<lambda>_. 0), req_cons = 62, req_prod = 62, xs_rsp = (\<lambda>_. 0), rsp_cons = 62, rsp_prod = 62,
     req_info = (\<lambda>i. \<lparr>in_use = (i = 0), reply = None\<rparr>), nr_live_reqs = 1, probe = 1,
     watch_list = [], xb_out = []\<rparr>"

lemma sample_bus_ids: "id_inv sample_bus"
proof -
  have "{i. i < NR_REQS \<and> in_use (req_info sample_bus i)} = {0}"
    by (auto simp: sample_bus_def NR_REQS_def)
  then show ?thesis by (simp add: id_inv_def) (simp add: sample_bus_def NR_REQS_def)
qed

lemma xenbus_ids_unique_witness:
  "\<exists>i s'. allocate_xenbus_id sample_bus = Inr (Some (i, s')) \<and> i < NR_REQS \<and>
    \<not> in_use (req_info sample_bus i) \<and> id_inv s' \<and> (\<exists>s''. release_xenbus_id 0 sample_bus = Inr s'' \<and> id_inv s'')"
  using xenbus_ids_unique[OF sample_bus_ids, of 0] by (simp add: sample_bus_def NR_REQS_def) blast


text \<open>A reply to request 0 that lies across the end of the ring.\<close>

definition sample_reply :: rep where
  "sample_reply = (\<lparr>ms_type = 2, ms_req_id = 0, ms_tx_id = 0, ms_len = 2\<rparr>, [55, 0])"

definition replied_bus :: xenbus where
  "replied_bus = sample_bus\<lparr>rsp_prod := 80,
     xs_rsp := (\<lambda>i. reply_msg sample_abi sample_reply ! ((i + 2) mod 64))\<rparr>"

lemma replied_bus_responses: "responses 6 replied_bus = reply_msg sample_abi sample_reply"
proof -
  have l: "length (reply_msg sample_abi sample_reply) = 18"
    using sample_abi_ok by (simp add: reply_msg_def sample_reply_def abi_ok_def) (simp add: sample_abi_def)
  have m: "mask_idx 6 (62 + of_nat i) = (62 + i) mod 64" for i
    using mask_idx_add[of 6 62 i] by (simp add: mask_idx_mod)
  have "((62 + i) mod 64 + 2) mod 64 = i" if "i < 18" for i :: nat
    using that by (cases "i < 2") (auto simp: mod_if)
  then have "ring_data 6 (xs_rsp replied_bus) 62 80 = map ((!) (reply_msg sample_abi sample_reply)) [0..<18]"
    unfolding ring_data_def by (simp add: m replied_bus_def)
  also have "\<dots> = reply_msg sample_abi sample_reply" using l by (metis map_nth)
  finally show ?thesis by (simp add: responses_def replied_bus_def sample_bus_def)
qed


end
