(* ===== verification/Guk_Smp.thy ===== *)
theory Guk_Smp
  imports Guk_Sched_Props
begin

text \<open>
  CPUs (\<open>smp.c\<close>), the idle loop (\<open>idle_thread_fn\<close> of \<open>sched.c\<close>) and the parts of
  \<open>arch/x86/time.c\<close> that put a CPU to sleep. The suspend protocol is shown to take down every CPU
  that was up, and to lose a CPU that is asleep when the suspend starts.
\<close>

section \<open>Operations\<close>

definition ipi_handler :: "u32 \<Rightarrow> sched \<Rightarrow> sched" where
  "ipi_handler c s =
     (if cpu_states s c = CPU_SUSPENDING then upd (current_thread s c) (flag_set RESCHED) s else s)"

definition check_need_resched :: "u32 \<Rightarrow> u64 \<Rightarrow> sched \<Rightarrow> sched" where
  "check_need_resched c running_time s =
     (case guk_not_idle_or_stepped c s of
        None \<Rightarrow> s
      | Some t \<Rightarrow>
          let resched_time = t_resched_running_time (thr s t)
          in if resched_time = 0 then s
             else if running_time \<ge> resched_time then upd t (flag_set RESCHED) s
             else set_timer_interrupt (resched_time - running_time) s)"

text \<open>\<open>block_domain\<close> up to the hypercall that blocks, and after it returns. The result of the first
  part says whether the CPU blocks.\<close>

definition block_domain_enter :: "u32 \<Rightarrow> u64 \<Rightarrow> u64 \<Rightarrow> u64 \<Rightarrow> sched \<Rightarrow> bool \<times> sched" where
  "block_domain_enter c now time_addend until s =
     (if sint now < sint until then
        (True, (emit (SetTimer (until - time_addend)) s)\<lparr>cpu_states := (cpu_states s)(c := CPU_SLEEPING)\<rparr>)
      else (False, s\<lparr>irqs_off := (irqs_off s)(c := False)\<rparr>))"

definition block_domain_leave :: "u32 \<Rightarrow> sched \<Rightarrow> sched" where
  "block_domain_leave c s = s\<lparr>cpu_states := (cpu_states s)(c := CPU_UP), irqs_off := (irqs_off s)(c := False)\<rparr>"

text \<open>\<open>smp_cpu_safe\<close>: the result says whether the idle thread is restarted from its beginning.\<close>

definition smp_cpu_safe :: "u32 \<Rightarrow> sched \<Rightarrow> bool \<times> sched" where
  "smp_cpu_safe c s =
     (case cpu_states s c of
        CPU_SUSPENDING \<Rightarrow> (False, s\<lparr>suspend_count := suspend_count s - 1,
          cpu_states := (cpu_states s)(c := CPU_DOWN), smp_active := smp_active s - 1\<rparr>)
      | CPU_RESUMING \<Rightarrow> (True, s\<lparr>irqs_off := (irqs_off s)(c := True), smp_active := smp_active s + 1\<rparr>)
      | _ \<Rightarrow> (False, s))"

text \<open>\<open>check_suspend\<close>: does the idle thread enter the loop in which a CPU waits to be resumed?\<close>

definition check_suspend :: "u32 \<Rightarrow> sched \<Rightarrow> bool" where
  "check_suspend c s \<longleftrightarrow> cpu_states s c \<noteq> CPU_UP"

definition idle_start :: "u32 \<Rightarrow> sched \<Rightarrow> sched" where
  "idle_start c s = s\<lparr>cpu_states := (cpu_states s)(c := CPU_UP), irqs_off := (irqs_off s)(c := False)\<rparr>"

text \<open>One turn of the idle loop after \<open>schedule\<close>, \<open>check_suspend\<close> and \<open>reap_dead\<close>.\<close>

definition idle_turn ::
  "u32 \<Rightarrow> (u32 \<Rightarrow> bool) \<Rightarrow> u64 \<Rightarrow> u64 \<Rightarrow> u64 \<Rightarrow> u64 \<Rightarrow> sched \<Rightarrow> bool \<times> sched" where
  "idle_turn c runnable_upcall orig now time_addend now2 s =
     (let s = s\<lparr>irqs_off := (irqs_off s)(c := True)\<rparr>;
          until = blocking_time c orig now s
      in if 0 < sint until \<and> \<not> runnable_threads c runnable_upcall s
         then block_domain_enter c now2 time_addend until s
         else (False, s\<lparr>irqs_off := (irqs_off s)(c := False)\<rparr>))"

text \<open>\<open>smp_suspend\<close> marks the other CPUs; \<open>MAX_VIRT_CPUS\<close> is a constant of Xen's interface.\<close>

definition suspend_mark :: "u32 \<Rightarrow> u32 \<Rightarrow> sched \<Rightarrow> sched" where
  "suspend_mark c cpu s =
     (if cpu_states s cpu = CPU_UP \<or> cpu_states s cpu = CPU_SLEEPING then
        smp_signal_cpu c cpu (s\<lparr>suspend_count := suspend_count s + 1,
          cpu_states := (cpu_states s)(cpu := CPU_SUSPENDING)\<rparr>)
      else s)"

definition smp_suspend :: "nat \<Rightarrow> u32 \<Rightarrow> sched \<Rightarrow> sched" where
  "smp_suspend max_virt_cpus c s =
     fold (\<lambda>i. suspend_mark c (of_nat i)) [1 ..< max_virt_cpus] (s\<lparr>suspend_count := 0\<rparr>)"

definition suspend_wait :: "sched \<Rightarrow> bool" where
  "suspend_wait s \<longleftrightarrow> suspend_count s \<noteq> 0"

text \<open>\<open>smp_resume\<close>; \<open>present cpu\<close> is the answer of \<open>VCPUOP_is_up\<close>, \<open>up\<close> the result of
  \<open>VCPUOP_up\<close>.\<close>

definition resume_cpu :: "code_addrs \<Rightarrow> (u32 \<Rightarrow> bool) \<Rightarrow> (u32 \<Rightarrow> bool) \<Rightarrow> u32 \<Rightarrow> sched \<Rightarrow> guk_stop + sched" where
  "resume_cpu A present up cpu s =
     (if present cpu then
        let s = s\<lparr>cpu_states := (cpu_states s)(cpu := CPU_RESUMING)\<rparr>;
            t = idle_thread s cpu;
            s = (if t \<noteq> 0 then
                   upd t (\<lambda>x. x\<lparr>t_ip := a_idle_thread_starter A\<rparr>)
                     (stack_push t (ucast cpu) (stack_push t (a_idle_thread_fn A)
                       (upd t (\<lambda>x. x\<lparr>t_sp := t_stack x + t_stack_size x\<rparr>) s)))
                 else s)
        in bug_on (\<not> up cpu) s
      else Inr s)"

fun resume_cpus :: "code_addrs \<Rightarrow> (u32 \<Rightarrow> bool) \<Rightarrow> (u32 \<Rightarrow> bool) \<Rightarrow> u32 list \<Rightarrow> sched \<Rightarrow> guk_stop + sched" where
  "resume_cpus A present up [] s = Inr s"
| "resume_cpus A present up (c # cs) s =
     res_bind (resume_cpu A present up c s) (resume_cpus A present up cs)"

definition smp_resume ::
  "nat \<Rightarrow> code_addrs \<Rightarrow> (u32 \<Rightarrow> bool) \<Rightarrow> (u32 \<Rightarrow> bool) \<Rightarrow> sched \<Rightarrow> guk_stop + sched" where
  "smp_resume max_virt_cpus A present up s =
     resume_cpus A present up (map of_nat [1 ..< max_virt_cpus]) s"

section \<open>Marking CPUs\<close>

definition marked :: "nat \<Rightarrow> sched \<Rightarrow> nat set" where
  "marked n s = {i. 1 \<le> i \<and> i < n \<and> (cpu_states s (of_nat i) = CPU_UP \<or> cpu_states s (of_nat i) = CPU_SLEEPING)}"

lemma suspend_mark_eq:
  "suspend_mark c cpu s =
     (if cpu_states s cpu = CPU_UP \<or> cpu_states s cpu = CPU_SLEEPING then
        s\<lparr>suspend_count := suspend_count s + 1, cpu_states := (cpu_states s)(cpu := CPU_SUSPENDING)\<rparr>
      else s)"
  by (simp add: suspend_mark_def smp_signal_cpu_def)

lemma suspend_fold:
  assumes "n \<le> 2 ^ 32" and "1 \<le> n"
  shows "fold (\<lambda>i. suspend_mark c (of_nat i)) [1 ..< n] s =
    s\<lparr>suspend_count := suspend_count s + of_nat (card (marked n s)),
      cpu_states := (\<lambda>k. if unat k \<in> marked n s then CPU_SUSPENDING else cpu_states s k)\<rparr>"
  using assms(2,1)
proof (induction n rule: dec_induct)
  case base
  have "marked 1 s = {}" by (auto simp: marked_def)
  then show ?case by simp
next
  case (step n)
  have n: "unat (of_nat n :: u32) = n" using step.prems by (simp add: unat_of_nat take_bit_eq_mod)
  have not_in: "n \<notin> marked n s" by (simp add: marked_def)
  have fin: "finite (marked n s)" by (rule finite_subset [of _ "{..<n}"]) (auto simp: marked_def)
  show ?case
  proof (cases "cpu_states s (of_nat n) = CPU_UP \<or> cpu_states s (of_nat n) = CPU_SLEEPING")
    case True
    then have m: "marked (Suc n) s = insert n (marked n s)"
      using step.hyps by (auto simp: marked_def less_Suc_eq)
    have k: "k = of_nat n \<longleftrightarrow> unat k = n" for k :: u32 using n by auto
    show ?thesis using step True m not_in fin
      by (simp add: suspend_mark_eq n fun_eq_iff k algebra_simps)
  next
    case False
    then have m: "marked (Suc n) s = marked n s" by (auto simp: marked_def less_Suc_eq)
    show ?thesis using step False m not_in by (simp add: suspend_mark_eq n)
  qed
qed

definition suspending :: "sched \<Rightarrow> u32 set" where
  "suspending s = {k. cpu_states s k = CPU_SUSPENDING}"

lemma finite_u32 [simp]: "finite (X :: u32 set)"
  by (rule finite_subset [OF subset_UNIV]) simp

lemma suspending_after:
  assumes "n \<le> 2 ^ 32" "1 \<le> n" and "suspending s = {}"
  shows "suspending (smp_suspend n c s) = of_nat ` marked n s"
    and "suspend_count (smp_suspend n c s) = of_nat (card (marked n s))"
    and "card (suspending (smp_suspend n c s)) = card (marked n s)"
proof -
  have m: "marked n (s\<lparr>suspend_count := 0\<rparr>) = marked n s" by (simp add: marked_def)
  note F = suspend_fold [OF assms(1,2), of c "s\<lparr>suspend_count := 0\<rparr>", unfolded m]
  have small: "unat (of_nat i :: u32) = i" if "i \<in> marked n s" for i
    using that assms(1) by (simp add: marked_def unat_of_nat take_bit_eq_mod)
  have "cpu_states s k \<noteq> CPU_SUSPENDING" for k using assms(3) by (auto simp: suspending_def)
  then have "suspending (smp_suspend n c s) = {k. unat k \<in> marked n s}"
    unfolding smp_suspend_def F suspending_def by simp
  also have "\<dots> = of_nat ` marked n s"
    by (auto simp: small intro!: image_eqI [where x = "unat _"])
  finally show S: "suspending (smp_suspend n c s) = of_nat ` marked n s" .
  show "suspend_count (smp_suspend n c s) = of_nat (card (marked n s))"
    unfolding smp_suspend_def F by simp
  have "inj_on (of_nat :: nat \<Rightarrow> u32) (marked n s)" using small by (metis inj_onI)
  then show "card (suspending (smp_suspend n c s)) = card (marked n s)"
    unfolding S by (rule card_image)
qed

lemma marked_card: "n \<le> 2 ^ 32 \<Longrightarrow> 1 \<le> n \<Longrightarrow> card (marked n s) < 2 ^ 32"
proof -
  assume n: "n \<le> 2 ^ 32" "1 \<le> n"
  have "marked n s \<subseteq> {1 ..< n}" by (auto simp: marked_def)
  then have "card (marked n s) \<le> n - 1" using card_mono [of "{1 ..< n}" "marked n s"] by simp
  then show ?thesis using n by simp
qed

text \<open>The CPUs take themselves down one by one.\<close>

definition cpus_safe :: "u32 list \<Rightarrow> sched \<Rightarrow> sched" where
  "cpus_safe cs s = fold (\<lambda>k s. snd (smp_cpu_safe k s)) cs s"

lemma smp_cpu_safe_suspending:
  "suspending (snd (smp_cpu_safe k s)) = suspending s - {k}"
  "unat (suspend_count s) = card (suspending s) + d \<Longrightarrow>
   unat (suspend_count (snd (smp_cpu_safe k s))) = card (suspending (snd (smp_cpu_safe k s))) + d"
proof -
  show S: "suspending (snd (smp_cpu_safe k s)) = suspending s - {k}"
    by (cases "cpu_states s k") (auto simp: smp_cpu_safe_def suspending_def)
  assume C: "unat (suspend_count s) = card (suspending s) + d"
  show "unat (suspend_count (snd (smp_cpu_safe k s))) = card (suspending (snd (smp_cpu_safe k s))) + d"
  proof (cases "cpu_states s k = CPU_SUSPENDING")
    case True
    then have k: "k \<in> suspending s" by (simp add: suspending_def)
    then have c: "card (suspending s) = Suc (card (suspending s - {k}))"
      by (rule card.remove [OF finite_u32])
    then have "suspend_count s \<noteq> 0" using C by auto
    then have "unat (suspend_count s - 1) = unat (suspend_count s) - 1"
      by (metis unat_minus_one)
    then show ?thesis using True C c unfolding S by (simp add: smp_cpu_safe_def)
  next
    case False
    then have "k \<notin> suspending s" by (simp add: suspending_def)
    then show ?thesis using False C unfolding S
      by (cases "cpu_states s k") (auto simp: smp_cpu_safe_def)
  qed
qed

lemma cpus_safe_suspending:
  "suspending (cpus_safe cs s) = suspending s - set cs \<and>
   (unat (suspend_count s) = card (suspending s) + d \<longrightarrow>
    unat (suspend_count (cpus_safe cs s)) = card (suspending (cpus_safe cs s)) + d)"
proof (induction cs arbitrary: s)
  case (Cons k cs)
  show ?case using Cons [of "snd (smp_cpu_safe k s)"] smp_cpu_safe_suspending(1) [of k s] smp_cpu_safe_suspending(2) [of s d k]
    by (auto simp: cpus_safe_def)
qed (simp add: cpus_safe_def)

section \<open>Properties\<close>

text \<open>
  C34. \<open>smp_suspend\<close> marks exactly the other CPUs that are up or asleep and counts them. It never sends
  an interrupt, because it changes the state of a CPU before it signals it and only sleeping CPUs
  are signalled. If the marked CPUs all reach \<open>smp_cpu_safe\<close>, and only then, the count becomes zero
  and \<open>smp_suspend\<close> returns.
\<close>

theorem smp_suspend_protocol:
  assumes "n \<le> 2 ^ 32" and "1 \<le> n" and "suspending s = {}"
  shows "suspending (smp_suspend n c s) = of_nat ` marked n s \<and>
    out (smp_suspend n c s) = out s \<and>
    (suspend_wait (cpus_safe cs (smp_suspend n c s)) \<longleftrightarrow> \<not> of_nat ` marked n s \<subseteq> set cs)"
proof -
  let ?s = "smp_suspend n c s"
  have "unat (suspend_count ?s) = card (suspending ?s)"
    using suspending_after [OF assms] marked_card [OF assms(1,2), of s]
    by (simp add: unat_of_nat take_bit_eq_mod)
  then have "unat (suspend_count (cpus_safe cs ?s)) = card (suspending ?s - set cs)"
    using cpus_safe_suspending [of cs ?s 0] by simp
  then have "suspend_wait (cpus_safe cs ?s) \<longleftrightarrow> \<not> suspending ?s \<subseteq> set cs"
    unfolding suspend_wait_def
    by (metis Diff_eq_empty_iff card_0_eq finite_u32 unsigned_eq_0_iff)
  moreover have "out ?s = out s"
    unfolding smp_suspend_def suspend_fold [OF assms(1,2)] by simp
  ultimately show ?thesis using suspending_after(1) [OF assms] by simp
qed

theorem smp_suspend_protocol_witness:
  "\<not> suspend_wait (cpus_safe [1] (smp_suspend 2 0 boot_sched))"
proof -
  have m: "marked 2 boot_sched = {1}" by (auto simp: marked_def boot_sched_def)
  have "suspending boot_sched = {}" by (simp add: suspending_def boot_sched_def)
  then show ?thesis using smp_suspend_protocol [of 2 boot_sched 0 "[1]"] by (simp add: m)
qed

text \<open>
  C35. A CPU that is asleep in \<open>block_domain\<close> when it is marked forgets the mark: on waking it stores
  \<open>CPU_UP\<close>, so \<open>check_suspend\<close> lets it go on, and however often the CPUs run \<open>smp_cpu_safe\<close> the
  count never becomes zero: \<open>smp_suspend\<close> waits for ever.
\<close>

theorem smp_suspend_lost_cpu:
  fixes c :: u32
  assumes "n \<le> 2 ^ 32" and "suspending s = {}" and "1 \<le> k" and "k < n"
    and "cpu_states s (of_nat k) = CPU_SLEEPING"
  defines "s' \<equiv> block_domain_leave (of_nat k) (smp_suspend n c s)"
  shows "\<not> check_suspend (of_nat k) s' \<and> suspend_wait (cpus_safe cs s')"
proof -
  let ?u = "smp_suspend n c s"
  have n: "1 \<le> n" using assms(3,4) by simp
  have k: "k \<in> marked n s" using assms(3-5) by (simp add: marked_def)
  then have K: "of_nat k \<in> suspending ?u" using suspending_after(1) [OF assms(1) n assms(2)] by simp
  have S: "suspending s' = suspending ?u - {of_nat k}"
    by (auto simp: s'_def block_domain_leave_def suspending_def)
  have "unat (suspend_count ?u) = card (suspending ?u)"
    using suspending_after [OF assms(1) n assms(2)] marked_card [OF assms(1) n, of s]
    by (simp add: unat_of_nat take_bit_eq_mod)
  also have "\<dots> = card (suspending s') + 1" unfolding S card.remove [OF finite_u32 K] by simp
  finally have "unat (suspend_count s') = card (suspending s') + 1"
    by (simp add: s'_def block_domain_leave_def)
  then have "unat (suspend_count (cpus_safe cs s')) = card (suspending (cpus_safe cs s')) + 1"
    using cpus_safe_suspending [of cs s' 1] by simp
  then have "suspend_wait (cpus_safe cs s')" by (auto simp: suspend_wait_def)
  then show ?thesis by (simp add: check_suspend_def s'_def block_domain_leave_def)
qed

theorem smp_suspend_lost_cpu_witness:
  "suspend_wait (cpus_safe [1, 1] (block_domain_leave 1
     (smp_suspend 2 0 (boot_sched\<lparr>cpu_states := (\<lambda>_. CPU_UP)(1 := CPU_SLEEPING)\<rparr>))))"
  using smp_suspend_lost_cpu [where n = 2 and k = 1 and c = 0 and cs = "[1, 1]"
      and s = "boot_sched\<lparr>cpu_states := (\<lambda>_. CPU_UP)(1 := CPU_SLEEPING)\<rparr>"]
  by (simp add: suspending_def)

lemma runnable_scan_False:
  "\<not> runnable_scan s cpu ts \<longleftrightarrow> (\<forall>t\<in>set ts. \<not> (has s RUNNABLE t \<and> \<not> has s RUNNING t \<and>
     (has s UKERNEL t \<or> t_cpu (thr s t) = cpu)))"
  by (induction ts) auto



end
