(* ===== verification/Spec2Isabelle.thy ===== *)
theory Spec2Isabelle
  imports Guk_Prelude Guk_Freelist Guk_Balloon Guk_Gnttab Guk_Strings Guk_Clist Guk_Xmalloc Guk_Printf Guk_Console Guk_Spinlock Guk_Wait Guk_Xenbus Guk_Smp
begin

text \<open>
  A verification of GUK, the microkernel derived from Xen's Mini-OS that runs a Java virtual machine
  as a guest of Xen. The sources are C; each theory translates a part of them into HOL functions
  and proves what that part promises.

  \<^bold>\<open>The program and its theories.\<close>

  \<^item> \<open>Guk_Prelude\<close>: machine integers of \<open>include/types.h\<close> as words, the ways the kernel stops
    (\<open>BUG\<close>, \<open>crash_exit\<close>, a fault) as the type \<open>guk_stop\<close>, sum-typed results, word lemmas.
  \<^item> \<open>Guk_Freelist\<close>: the interface \<open>array_freelist\<close> of a free list threaded through an array,
    with its laws proved once; the grant table is an instance.
  \<^item> \<open>Guk_Bitmap\<close>, \<open>Guk_Pages\<close>, \<open>Guk_Balloon\<close>: the page allocator of \<open>mm.c\<close>. The bitmap
    macros, first-fit allocation in the small and bulk regions, freeing, and growing and shrinking
    the pool through Xen. The lemmas show that the bitmap and the counters agree, that allocation is
    first fit and total, and that allocation and freeing are inverse.
  \<^item> \<open>Guk_Gnttab\<close>: the grant table of \<open>gnttab.c\<close>; no reference is handed out twice.
  \<^item> \<open>Guk_Strings\<close>: \<open>lib/string.c\<close> over a byte memory and \<open>num_option\<close> of \<open>kernel.c\<close>. A scan that
    may not end is a partial function; the lemmas show when it ends and with what.
  \<^item> \<open>Guk_Clist\<close>: the circular lists of \<open>include/list.h\<close> over a heap of links; the operations refine
    operations on lists, and adding at the tail and deleting at the head is a queue.
  \<^item> \<open>Guk_Xmalloc\<close>: the heap allocator of \<open>lib/xmalloc.c\<close> over any page provider, an interface that
    the page allocator implements; blocks stay disjoint, aligned and large enough.
  \<^item> \<open>Guk_Threads\<close>, \<open>Guk_Sched\<close>: threads, their flags and queues and the scheduler of \<open>sched.c\<close> with
    \<open>include/guk/sched.h\<close>. \<open>Guk_Sched_Spec\<close> gives an abstract scheduler and shows what each operation
    does to it, \<open>Guk_Sched_Inv\<close> shows that each operation keeps the invariant, and
    \<open>Guk_Sched_Props\<close> has the transition system over all CPUs and the properties.
  \<^item> \<open>Guk_Smp\<close>: CPU states, suspend and resume of \<open>smp.c\<close> and the idle loop.

  \<^bold>\<open>Correspondence.\<close> A C function is a HOL function of the same name; its loops are recursive
  functions named after it. A structure is a record, a global variable a field of the component's
  state record. A pointer is a number, 0 being the null pointer where that matters. Sections under
  one of the kernel's locks are single steps; operations of the scheduler that call
  \<open>schedule\<close> in the middle are split there into two functions. Hypercalls, and constants of Xen's
  interface, are arguments with what the code relies on as hypotheses; calls out of a component that
  return nothing are recorded in a list of effects.

  \<^bold>\<open>Bounds.\<close> Loops over lists recurse over the list. Scans over memory are partial functions
  into option; the theorems state that they return on the inputs the code gives them.

  \<^bold>\<open>Not modelled.\<close> Assembly, boot and trap code, page-table construction, tracing output, and the
  programs under \<open>tools/\<close> and \<open>tests/\<close>, which run outside the kernel or only exercise it.
\<close>

end
